(* ===== verification/Gsfs_Prelude.thy ===== *)
theory Gsfs_Prelude
  imports Main "HOL-Library.Word" "HOL-Library.Char_ord" "HOL-Library.List_Lexorder" "HOL-Library.Sublist"
begin

unbundle bit_operations_syntax

section \<open>Prelude: machine types, failures, readable memory\<close>

text \<open>
  Types and lemmas every component of the Group-Share Filesystem (GSFS) model shares.
  \<^item> The fixed-width integers of the C++ sources are words. The build targets a 64-bit
    platform, so \<^verbatim>\<open>size_t\<close> is a 64-bit word. A \<^verbatim>\<open>std::string\<close> that holds a
    file name or a path is a \<^typ>\<open>string\<close>; one that holds data for the network is a list of
    octets.
  \<^item> Whatever ends a run of the C++ program abnormally is a value of type \<open>crash\<close>: a read
    outside the bounds of an object, a null, dangling or indeterminate pointer, a failed \<^verbatim>\<open>assert\<close>,
    an exception nobody catches. An operation that may end so has type \<open>'a result\<close>.
  \<^item> A \<^verbatim>\<open>const char*\<close> that walks over a buffer is the list of octets that can still be read
    through it.
\<close>

subsection \<open>Types\<close>

type_synonym u8 = "8 word"
type_synonym u16 = "16 word"
type_synonym u32 = "32 word"
type_synonym u64 = "64 word"
type_synonym bytes = "u8 list"

datatype crash =
    OutOfBounds        \<comment> \<open>access outside an array, a vector or a string\<close>
  | NullDeref          \<comment> \<open>dereference of a null pointer\<close>
  | UseAfterFree       \<comment> \<open>access to an object that has been destroyed\<close>
  | UninitRead         \<comment> \<open>a decision on an indeterminate pointer\<close>
  | AssertFailed       \<comment> \<open>\<^verbatim>\<open>assert\<close>\<close>
  | LengthError        \<comment> \<open>\<^verbatim>\<open>std::length_error\<close>\<close>
  | ArchiveException   \<comment> \<open>\<^verbatim>\<open>boost::archive::archive_exception\<close>\<close>
  | FilesystemError    \<comment> \<open>\<^verbatim>\<open>boost::filesystem::filesystem_error\<close>\<close>

type_synonym 'a result = "crash + 'a"

text \<open>Sequencing: the first failure ends the computation.\<close>

definition res_bind :: "'e + 'a \<Rightarrow> ('a \<Rightarrow> 'e + 'b) \<Rightarrow> 'e + 'b" where
  "res_bind m f = (case m of Inl e \<Rightarrow> Inl e | Inr x \<Rightarrow> f x)"

definition of_option :: "'e \<Rightarrow> 'a option \<Rightarrow> 'e + 'a" where
  "of_option e m = (case m of None \<Rightarrow> Inl e | Some x \<Rightarrow> Inr x)"

definition is_ok :: "'e + 'a \<Rightarrow> bool" where
  "is_ok m = (case m of Inl e \<Rightarrow> False | Inr x \<Rightarrow> True)"

text \<open>
  \<open>advance n p\<close> is the pointer step \<^verbatim>\<open>p += n\<close> and \<open>read_n n p\<close> the copy
  \<^verbatim>\<open>std::string(p, n)\<close> or \<^verbatim>\<open>s.assign(p, n)\<close>: both fail when they leave the object, and the
  copy throws before it reads anything when \<open>n\<close> is above \<^verbatim>\<open>max_size()\<close>, half of the address
  space. \<open>c_str s\<close> is the memory behind \<^verbatim>\<open>s.data()\<close>: since C++11 it ends in a zero octet
  that may be read.
\<close>

definition advance :: "nat \<Rightarrow> bytes \<Rightarrow> bytes result" where
  "advance n p = (if n \<le> length p then Inr (drop n p) else Inl OutOfBounds)"

definition read_n :: "nat \<Rightarrow> bytes \<Rightarrow> bytes result" where
  "read_n n p =
     (if 2 ^ 63 \<le> n then Inl LengthError
      else if n \<le> length p then Inr (take n p) else Inl OutOfBounds)"

definition c_str :: "bytes \<Rightarrow> bytes" where
  "c_str s = s @ [0]"

text \<open>
  \<open>vec_resize n v\<close> is \<^verbatim>\<open>v.resize(n)\<close> on a \<^verbatim>\<open>std::vector<char>\<close>: new elements are
  zero, and a size above \<^verbatim>\<open>max_size()\<close> throws here as well. Memory itself is not bounded in
  the model: no allocation below that size fails. \<open>fill data v\<close> is what a read of \<open>data\<close> into the front of \<open>v\<close>
  leaves there.
\<close>

definition vec_resize :: "nat \<Rightarrow> bytes \<Rightarrow> bytes result" where
  "vec_resize n v =
     (if n < 2 ^ 63 then Inr (take n v @ replicate (n - length v) 0) else Inl LengthError)"

definition fill :: "bytes \<Rightarrow> bytes \<Rightarrow> bytes" where
  "fill data v = data @ drop (length data) v"

subsection \<open>Collections of facts\<close>

named_theorems res_simps \<open>evaluation of computations that may crash\<close>
named_theorems codec_simps \<open>round trips of encoders and decoders\<close>
named_theorems inv_intros \<open>an operation keeps an invariant\<close>

subsection \<open>Lemmas on results\<close>

lemma res_bind_Inl [simp, res_simps]: "res_bind (Inl e) f = Inl e"
  by (simp add: res_bind_def)

lemma res_bind_Inr [simp, res_simps]: "res_bind (Inr x) f = f x"
  by (simp add: res_bind_def)

lemma res_bind_assoc: "res_bind (res_bind m f) g = res_bind m (\<lambda>x. res_bind (f x) g)"
  by (simp add: res_bind_def split: sum.split)

lemma res_bind_cong [fundef_cong]:
  assumes "m = m'" and "\<And>x. m' = Inr x \<Longrightarrow> f x = f' x"
  shows "res_bind m f = res_bind m' f'"
  using assms by (simp add: res_bind_def split: sum.split)

lemma res_bind_eq_Inr: "res_bind m f = Inr y \<longleftrightarrow> (\<exists>x. m = Inr x \<and> f x = Inr y)"
  by (cases m) auto

lemma res_bind_eq_Inl: "res_bind m f = Inl e \<longleftrightarrow> m = Inl e \<or> (\<exists>x. m = Inr x \<and> f x = Inl e)"
  by (cases m) simp_all

lemma res_bindE [elim?]:
  assumes "res_bind m f = Inr y"
  obtains x where "m = Inr x" and "f x = Inr y"
  using assms by (cases m) auto

text \<open>The value of a computation seen through a function.\<close>

abbreviation rmap :: "('a \<Rightarrow> 'b) \<Rightarrow> 'a result \<Rightarrow> 'b result" where
  "rmap F \<equiv> map_sum id F"

lemma rmap_of_bind: "rmap F (res_bind m k) = res_bind m (\<lambda>x. rmap F (k x))"
  by (cases m) simp_all

lemma bind_of_rmap: "res_bind (rmap F m) k = res_bind m (\<lambda>x. k (F x))"
  by (cases m) simp_all

lemmas rmap_bind = rmap_of_bind bind_of_rmap

lemma rmap_if: "rmap F (if b then x else y) = (if b then rmap F x else rmap F y)"
  by simp

lemma Inr_eqD: "m = Inr x \<Longrightarrow> m = Inr y \<Longrightarrow> x = y"
  by simp

lemma of_option_simps [simp, res_simps]:
  "of_option e None = Inl e" "of_option e (Some x) = Inr x"
  by (simp_all add: of_option_def)

lemma of_option_eq_Inr [simp]: "of_option e m = Inr x \<longleftrightarrow> m = Some x"
  by (cases m) auto

lemma is_ok_simps [simp, res_simps]: "is_ok (Inr x)" "\<not> is_ok (Inl e)"
  by (simp_all add: is_ok_def)

lemma is_ok_iff: "is_ok m \<longleftrightarrow> (\<exists>x. m = Inr x)"
  by (cases m) auto

lemma advance_append [simp, res_simps]: "n = length xs \<Longrightarrow> advance n (xs @ ys) = Inr ys"
  by (simp add: advance_def)

lemma read_n_append [simp, res_simps]: "n = length xs \<Longrightarrow> n < 2 ^ 63 \<Longrightarrow> read_n n (xs @ ys) = Inr xs"
  by (simp add: read_n_def)

lemma length_c_str [simp]: "length (c_str s) = Suc (length s)"
  by (simp add: c_str_def)

lemma vec_resize_length: "vec_resize n v = Inr w \<Longrightarrow> length w = n"
  by (auto simp: vec_resize_def split: if_splits)

lemma vec_resize_ok: "n < 2 ^ 63 \<Longrightarrow> \<exists>w. vec_resize n v = Inr w \<and> length w = n"
  by (simp add: vec_resize_def)

lemma fill_exact [simp]: "length data = length v \<Longrightarrow> fill data v = data"
  by (simp add: fill_def)

lemma length_fill [simp]: "length data \<le> length v \<Longrightarrow> length (fill data v) = length v"
  by (simp add: fill_def)

subsection \<open>Lemmas on lists\<close>

lemma sorted_wrt_filter_map:
  "sorted_wrt r (map f xs) \<Longrightarrow> sorted_wrt r (map f (filter P xs))"
  by (induction xs) auto

lemma those_map_Some [simp]: "(\<And>x. x \<in> set xs \<Longrightarrow> f (g x) = Some x) \<Longrightarrow> those (map (f \<circ> g) xs) = Some xs"
  by (induction xs) auto

lemma those_eq_Some_length: "those xs = Some ys \<Longrightarrow> length ys = length xs"
  by (induction xs arbitrary: ys) (auto split: option.splits)

lemma those_eq_Some_iff: "those xs = Some ys \<longleftrightarrow> xs = map Some ys"
proof (induction xs arbitrary: ys)
  case Nil
  then show ?case by auto
next
  case (Cons x xs)
  then show ?case by (cases ys) (auto split: option.splits)
qed

lemma list_all_update: "list_all P xs \<Longrightarrow> P y \<Longrightarrow> list_all P (xs[i := y])"
  by (auto simp: list_all_iff dest!: subsetD [OF set_update_subset_insert])

text \<open>Replacing one element of a list whose non-zero elements are distinct.\<close>

lemma distinct_nonzero_clear:
  "distinct (filter (\<lambda>i. i \<noteq> (0::'a::zero)) xs) \<Longrightarrow> distinct (filter (\<lambda>i. i \<noteq> 0) (xs[h := 0]))"
proof (induction xs arbitrary: h)
  case (Cons x xs)
  have "set (xs[k := 0]) \<subseteq> insert 0 (set xs)" for k
    by (rule set_update_subset_insert)
  with Cons show ?case by (cases h) (auto split: if_splits)
qed simp

lemma distinct_nonzero_set:
  "distinct (filter (\<lambda>i. i \<noteq> (0::'a::zero)) xs) \<Longrightarrow> n \<notin> set xs \<Longrightarrow>
     distinct (filter (\<lambda>i. i \<noteq> 0) (xs[h := n]))"
proof (induction xs arbitrary: h)
  case (Cons x xs)
  have "set (xs[k := n]) \<subseteq> insert n (set xs)" for k
    by (rule set_update_subset_insert)
  with Cons show ?case by (cases h) (auto split: if_splits)
qed simp

lemma nth_in_set_update:
  assumes "x \<in> set xs" and "x \<noteq> xs ! h"
  shows "x \<in> set (xs[h := y])"
proof -
  obtain k where "k < length xs" "xs ! k = x"
    using assms(1) by (auto simp: in_set_conv_nth)
  moreover from this assms(2) have "k \<noteq> h" by auto
  ultimately show ?thesis
    by (metis length_list_update nth_list_update_neq nth_mem)
qed

lemma nonzero_cleared:
  "distinct (filter (\<lambda>i. i \<noteq> (0::'a::zero)) xs) \<Longrightarrow> h < length xs \<Longrightarrow> xs ! h = x \<Longrightarrow> x \<noteq> 0 \<Longrightarrow>
     x \<notin> set (xs[h := 0])"
proof (induction xs arbitrary: h)
  case (Cons y xs)
  then show ?case by (cases h) (auto split: if_splits)
qed simp

subsection \<open>Lemmas on words\<close>

lemma sint_nonneg_unat:
  fixes w :: u64
  assumes "0 \<le> sint w"
  shows "unat w < 2 ^ 63"
proof -
  have "\<not> bit (uint w) 63"
    using assms by (simp add: sint_uint)
  then have "even (uint w div 2 ^ 63)" by (simp add: bit_iff_odd)
  moreover have "uint w < 2 ^ 64" using uint_bounded [of w] by simp
  then have "uint w div 2 ^ 63 < 2" by (simp add: div_less_iff_less_mult)
  moreover have "0 \<le> uint w div 2 ^ 63" by (intro pos_imp_zdiv_nonneg_iff [THEN iffD2]) simp_all
  moreover have "k = 0" if "even k" "k < 2" "0 \<le> k" for k :: int
    using that by presburger
  ultimately have "uint w div 2 ^ 63 = 0" by blast
  then have "uint w < 2 ^ 63" by (simp add: div_eq_0_iff)
  then show ?thesis unfolding unat_eq_nat_uint by (subst nat_less_iff) simp_all
qed

end
