(* ===== verification/Option_Parser.thy ===== *)
theory Option_Parser
  imports Gsfs_Prelude
begin

section \<open>option_parser.h, option_parser.cc: the command line\<close>

text \<open>
  \<^verbatim>\<open>parse_command_line\<close> and the variables map are Boost's: the model starts from the map, a record
  with an entry per option that \<^verbatim>\<open>initialize\<close> declares, or the exception that parsing threw.
  What the program asks of the outside is a parameter: whether a string is an IP address, and what a
  path is.
\<close>

subsection \<open>Definitions\<close>

record variables_map =
  vm_listen :: "string option"
  vm_connect :: "string option"
  vm_tcp_port :: "u16 option"
  vm_ssh_port :: "u16 option"
  vm_mount_point :: "string option"
  vm_working_directory :: "string option"
  vm_help :: bool
  vm_version :: bool

definition vm_size :: "variables_map \<Rightarrow> nat" where
  "vm_size vm =
     length (filter id [vm_listen vm \<noteq> None, vm_connect vm \<noteq> None, vm_tcp_port vm \<noteq> None,
       vm_ssh_port vm \<noteq> None, vm_mount_point vm \<noteq> None, vm_working_directory vm \<noteq> None,
       vm_help vm, vm_version vm])"

record OptionParser =
  op_is_master :: bool
  op_is_standby :: bool
  op_address :: string
  op_tcp_port :: u16
  op_ssh_port :: u16
  op_mount_point :: string
  op_working_dir :: string

datatype path_status = PathMissing | PathOther | PathDirectory | PathError

datatype parse_error =
    CommandLineError
  | ConflictingRoles
  | RedundantHelp
  | RedundantVersion
  | NoRole
  | InvalidAddress string
  | NoTcpPort
  | NoMountPoint
  | MountPointMissing string
  | MountPointNotDirectory string
  | NoWorkingDirectory
  | WorkingDirectoryMissing string
  | WorkingDirectoryNotDirectory string
  | StatusError string

text \<open>
  The two checks on a path: \<^verbatim>\<open>exists\<close>, then \<^verbatim>\<open>is_directory\<close>; either throws when the
  status cannot be determined.
\<close>

definition check_directory ::
    "(string \<Rightarrow> path_status) \<Rightarrow> (string \<Rightarrow> parse_error) \<Rightarrow> (string \<Rightarrow> parse_error) \<Rightarrow> string \<Rightarrow> parse_error + unit" where
  "check_directory status missing not_directory p =
     (case status p of
        PathError \<Rightarrow> Inl (StatusError p)
      | PathMissing \<Rightarrow> Inl (missing p)
      | PathOther \<Rightarrow> Inl (not_directory p)
      | PathDirectory \<Rightarrow> Inr ())"

definition parse_role :: "variables_map \<Rightarrow> OptionParser \<Rightarrow> parse_error + OptionParser" where
  "parse_role vm op =
     (case vm_listen vm of
        Some a \<Rightarrow> Inr (op\<lparr>op_is_master := True, op_address := a\<rparr>)
      | None \<Rightarrow>
          (case vm_connect vm of
             Some a \<Rightarrow> Inr (op\<lparr>op_is_standby := True, op_address := a\<rparr>)
           | None \<Rightarrow> Inl NoRole))"

text \<open>\<open>self\<close> is the object before the call; its constructor sets none of the fields.\<close>

definition OptionParser_parse ::
    "(string \<Rightarrow> bool) \<Rightarrow> (string \<Rightarrow> path_status) \<Rightarrow> variables_map option \<Rightarrow> OptionParser
       \<Rightarrow> parse_error + OptionParser" where
  "OptionParser_parse is_ip status command_line self =
     (let op = self\<lparr>op_is_master := False, op_is_standby := False\<rparr> in
      res_bind (of_option CommandLineError command_line) (\<lambda>vm.
      if vm_size vm = 1 \<and> vm_version vm then Inr op
      else if (vm_size vm = 1 \<and> vm_help vm) \<or> vm_size vm = 0 then Inr op
      else if vm_listen vm \<noteq> None \<and> vm_connect vm \<noteq> None then Inl ConflictingRoles
      else if vm_help vm then Inl RedundantHelp
      else if vm_version vm then Inl RedundantVersion
      else
        res_bind (parse_role vm op) (\<lambda>op.
        if \<not> is_ip (op_address op) then Inl (InvalidAddress (op_address op))
        else
          res_bind (of_option NoTcpPort (vm_tcp_port vm)) (\<lambda>t.
          let op = op\<lparr>op_tcp_port := t,
                      op_ssh_port := (case vm_ssh_port vm of Some s \<Rightarrow> s | None \<Rightarrow> 22)\<rparr> in
          res_bind (of_option NoMountPoint (vm_mount_point vm)) (\<lambda>m.
          res_bind (check_directory status MountPointMissing MountPointNotDirectory m) (\<lambda>_.
          res_bind (of_option NoWorkingDirectory (vm_working_directory vm)) (\<lambda>w.
          res_bind (check_directory status WorkingDirectoryMissing WorkingDirectoryNotDirectory w) (\<lambda>_.
            Inr (op\<lparr>op_mount_point := m, op_working_dir := w\<rparr>)))))))))"

text \<open>The options that name a role, and what they must come with.\<close>

definition role_options_ok :: "(string \<Rightarrow> bool) \<Rightarrow> (string \<Rightarrow> path_status) \<Rightarrow> variables_map \<Rightarrow> bool" where
  "role_options_ok is_ip status vm \<longleftrightarrow>
     \<not> vm_help vm \<and> \<not> vm_version vm \<and> (vm_listen vm = None) \<noteq> (vm_connect vm = None) \<and>
     (\<forall>a\<in>set_option (vm_listen vm) \<union> set_option (vm_connect vm). is_ip a) \<and>
     vm_tcp_port vm \<noteq> None \<and>
     (case vm_mount_point vm of None \<Rightarrow> False | Some m \<Rightarrow> status m = PathDirectory) \<and>
     (case vm_working_directory vm of None \<Rightarrow> False | Some w \<Rightarrow> status w = PathDirectory)"

subsection \<open>Lemmas\<close>

lemma check_directory_eq_Inr [simp]:
  "check_directory status missing not_directory p = Inr u \<longleftrightarrow> status p = PathDirectory"
  by (cases "status p") (simp_all add: check_directory_def)

lemma check_directory_ok [simp]:
  "status p = PathDirectory \<Longrightarrow> check_directory status missing not_directory p = Inr ()"
  by (simp add: check_directory_def)

lemma vm_size_roles:
  assumes "vm_tcp_port vm \<noteq> None" and "vm_mount_point vm \<noteq> None"
  shows "2 \<le> vm_size vm"
  using assms by (simp add: vm_size_def)

lemma vm_size_pos: "vm_listen vm \<noteq> None \<or> vm_connect vm \<noteq> None \<Longrightarrow> 0 < vm_size vm"
  by (auto simp: vm_size_def)

lemma vm_size_role_info:
  "vm_listen vm \<noteq> None \<or> vm_connect vm \<noteq> None \<Longrightarrow> vm_help vm \<or> vm_version vm \<Longrightarrow> 1 < vm_size vm"
  by (auto simp: vm_size_def)

text \<open>The object that the options of a role give.\<close>

definition role_options :: "variables_map \<Rightarrow> OptionParser" where
  "role_options vm =
     \<lparr>op_is_master = vm_listen vm \<noteq> None, op_is_standby = vm_connect vm \<noteq> None,
      op_address = (case vm_listen vm of Some a \<Rightarrow> a | None \<Rightarrow> the (vm_connect vm)),
      op_tcp_port = the (vm_tcp_port vm),
      op_ssh_port = (case vm_ssh_port vm of Some s \<Rightarrow> s | None \<Rightarrow> 22),
      op_mount_point = the (vm_mount_point vm), op_working_dir = the (vm_working_directory vm)\<rparr>"

lemma parse_role_complete:
  assumes "role_options_ok is_ip status vm"
  shows "OptionParser_parse is_ip status (Some vm) self = Inr (role_options vm)"
proof -
  obtain t m w where vm: "vm_tcp_port vm = Some t" "vm_mount_point vm = Some m" "vm_working_directory vm = Some w"
    and st: "status m = PathDirectory" "status w = PathDirectory"
    and no: "\<not> vm_help vm" "\<not> vm_version vm" and role: "(vm_listen vm = None) \<noteq> (vm_connect vm = None)"
    and ip: "\<forall>a\<in>set_option (vm_listen vm) \<union> set_option (vm_connect vm). is_ip a"
    using assms by (auto simp: role_options_ok_def split: option.splits)
  have sz: "vm_size vm \<noteq> 0" using vm_size_roles [of vm] vm by auto
  show ?thesis
  proof (cases "vm_listen vm")
    case None
    with role obtain a where "vm_connect vm = Some a" by auto
    with None sz vm st no ip show ?thesis
      by (cases self) (simp add: OptionParser_parse_def parse_role_def role_options_def)
  next
    case (Some a)
    with role have "vm_connect vm = None" by simp
    with Some sz vm st no ip show ?thesis
      by (cases self) (simp add: OptionParser_parse_def parse_role_def role_options_def)
  qed
qed

lemma parse_role_sound:
  assumes "OptionParser_parse is_ip status (Some vm) self = Inr op" and "op_is_master op \<or> op_is_standby op"
  shows "role_options_ok is_ip status vm"
proof -
  have no: "\<not> vm_help vm" "\<not> vm_version vm" "vm_listen vm = None \<or> vm_connect vm = None"
    using assms by (auto simp: OptionParser_parse_def Let_def split: if_splits)
  have rest: "\<exists>t m w a. vm_tcp_port vm = Some t \<and> vm_mount_point vm = Some m \<and> vm_working_directory vm = Some w \<and>
      status m = PathDirectory \<and> status w = PathDirectory \<and> is_ip a \<and>
      (vm_listen vm = Some a \<or> vm_listen vm = None \<and> vm_connect vm = Some a)"
    using assms by (auto simp: OptionParser_parse_def parse_role_def Let_def res_bind_eq_Inr split: if_splits option.splits)
  then show ?thesis
    using no by (auto simp: role_options_ok_def)
qed

subsection \<open>Properties\<close>

text \<open>
  \<^bold>\<open>C29\<close>. Which command lines start a node, and as what. Parsing yields a role exactly when one of
  \<^verbatim>\<open>--listen\<close> and \<^verbatim>\<open>--connect\<close> is given with an IP address, together with a TCP port, an
  existing mount directory and an existing working directory, and neither \<^verbatim>\<open>--help\<close> nor
  \<^verbatim>\<open>--version\<close>; then the node is a master exactly if \<^verbatim>\<open>--listen\<close> was given, never both, and
  every field has the value from the command line, 22 being the SSH port by default.
\<close>

theorem parse_role_iff:
  "OptionParser_parse is_ip status (Some vm) self = Inr op \<and> (op_is_master op \<or> op_is_standby op)
     \<longleftrightarrow> role_options_ok is_ip status vm \<and> op = role_options vm"
proof
  assume parse: "OptionParser_parse is_ip status (Some vm) self = Inr op \<and> (op_is_master op \<or> op_is_standby op)"
  then have ok: "role_options_ok is_ip status vm" by (blast intro: parse_role_sound)
  with parse_role_complete [OF ok, of self] parse
  show "role_options_ok is_ip status vm \<and> op = role_options vm" by simp
next
  assume ok: "role_options_ok is_ip status vm \<and> op = role_options vm"
  then have "op_is_master op \<or> op_is_standby op" by (auto simp: role_options_ok_def role_options_def)
  with ok parse_role_complete [of is_ip status vm self]
  show "OptionParser_parse is_ip status (Some vm) self = Inr op \<and> (op_is_master op \<or> op_is_standby op)" by simp
qed

end
