(* ===== verification/Archive.thy ===== *)
theory Archive
  imports Gsfs_Prelude
begin

section \<open>The Boost text archive as a parameter\<close>

text \<open>
  \<^verbatim>\<open>DirTree\<close>, \<^verbatim>\<open>Hosts\<close> and \<^verbatim>\<open>Hosts::Host\<close> describe themselves to an archive by a
  member template \<^verbatim>\<open>serialize\<close>, a sequence of \<^verbatim>\<open>ar & field\<close> operations. The model
  of such a template is the sequence of archive items it hands over: numbers, strings, standard
  containers (the item sequences of their elements) and pointers (null, or the item sequence of
  the object). How an item sequence becomes text and text becomes an item sequence again is the
  business of \<^verbatim>\<open>boost::archive::text_oarchive\<close> and \<^verbatim>\<open>text_iarchive\<close>, which are not
  part of the repository: they are the two functions of a \<open>boost_archive\<close>, an argument of every
  operation that serializes. What the program relies on is \<open>archive_lossless\<close>: reading back
  what was written gives the same items.

  The last section gives one concrete archive, \<open>tagged_archive\<close>, and proves that it has this
  property, so that the theorems which assume it are not empty.
\<close>

subsection \<open>Definitions\<close>

datatype arch =
    ANum nat
  | AStr string
  | ASeq "arch list list"
  | APtr "arch list option"

record boost_archive =
  text_oarchive :: "arch list \<Rightarrow> bytes"
  text_iarchive :: "bytes \<Rightarrow> arch list option"

definition archive_lossless :: "boost_archive \<Rightarrow> bool" where
  "archive_lossless B \<longleftrightarrow> (\<forall>a. text_iarchive B (text_oarchive B a) = Some a)"

text \<open>
  The static members \<^verbatim>\<open>serialize\<close> and \<^verbatim>\<open>deserialize\<close> all have the same body: the object
  goes through a text archive on a string stream. The reader throws when the text is no archive
  or the items do not fit the object.
\<close>

definition archive_out :: "boost_archive \<Rightarrow> ('x \<Rightarrow> arch list) \<Rightarrow> 'x \<Rightarrow> bytes" where
  "archive_out B save x = text_oarchive B (save x)"

definition archive_in :: "boost_archive \<Rightarrow> (arch list \<Rightarrow> 'x option) \<Rightarrow> bytes \<Rightarrow> 'x result" where
  "archive_in B load s = of_option ArchiveException (Option.bind (text_iarchive B s) load)"

text \<open>Loading a number into an unsigned variable fails when it does not fit.\<close>

definition load_word :: "nat \<Rightarrow> 'a::len word option" where
  "load_word n = (if n < 2 ^ LENGTH('a) then Some (of_nat n) else None)"

text \<open>
  One \<^verbatim>\<open>ar & field\<close> on a loading archive: the next item must have the kind of the field; the
  rest of the items remains for the following fields.
\<close>

definition ld_word :: "arch list \<Rightarrow> ('a::len word \<times> arch list) option" where
  "ld_word ar =
     (case ar of ANum n # r \<Rightarrow> map_option (\<lambda>w. (w, r)) (load_word n) | _ \<Rightarrow> None)"

definition ld_str :: "arch list \<Rightarrow> (string \<times> arch list) option" where
  "ld_str ar = (case ar of AStr s # r \<Rightarrow> Some (s, r) | _ \<Rightarrow> None)"

definition ld_seq :: "arch list \<Rightarrow> (arch list list \<times> arch list) option" where
  "ld_seq ar = (case ar of ASeq ss # r \<Rightarrow> Some (ss, r) | _ \<Rightarrow> None)"

lemma load_word_unat [simp, codec_simps]: "load_word (unat w) = Some w"
  by (simp add: load_word_def)

lemma ld_word_unat [simp, codec_simps]: "ld_word (ANum (unat w) # r) = Some (w, r)"
  by (simp add: ld_word_def)

lemma ld_str_AStr [simp, codec_simps]: "ld_str (AStr s # r) = Some (s, r)"
  by (simp add: ld_str_def)

lemma ld_seq_ASeq [simp, codec_simps]: "ld_seq (ASeq ss # r) = Some (ss, r)"
  by (simp add: ld_seq_def)

text \<open>Loading consumes items, which is why the recursive loaders end.\<close>

lemma ld_word_size: "ld_word ar = Some (w, r) \<Longrightarrow> size_list size r \<le> size_list size ar"
  by (auto simp: ld_word_def split: list.splits arch.splits)

lemma ld_str_size: "ld_str ar = Some (w, r) \<Longrightarrow> size_list size r \<le> size_list size ar"
  by (auto simp: ld_str_def split: list.splits arch.splits)

lemma ld_seq_size:
  assumes "ld_seq ar = Some (ss, r)" and "x \<in> set ss"
  shows "size_list size x < size_list size ar"
proof -
  obtain r' where "ar = ASeq ss # r'"
    using assms(1) by (auto simp: ld_seq_def split: list.splits arch.splits)
  moreover have "size_list size x \<le> size_list (size_list size) ss"
    using assms(2) by (auto intro: size_list_estimation')
  ultimately show ?thesis by simp
qed

lemma archive_losslessD [codec_simps]:
  "archive_lossless B \<Longrightarrow> text_iarchive B (text_oarchive B a) = Some a"
  by (simp add: archive_lossless_def)

subsection \<open>The contract of a serializable class\<close>

text \<open>
  A class whose template loads what it saved, for the objects that are \<open>ok\<close>. The clients are the
  protocol messages, which carry serialized objects.
\<close>

locale serializable =
  fixes save :: "'x \<Rightarrow> arch list"
    and load :: "arch list \<Rightarrow> 'x option"
    and ok :: "'x \<Rightarrow> bool"
  assumes load_save: "ok x \<Longrightarrow> load (save x) = Some x"
begin

lemma in_out: "archive_lossless B \<Longrightarrow> ok x \<Longrightarrow> archive_in B load (archive_out B save x) = Inr x"
  by (simp add: archive_in_def archive_out_def archive_losslessD load_save)

lemma out_inj:
  assumes "archive_lossless B" and "ok x" and "ok y"
    and "archive_out B save x = archive_out B save y"
  shows "x = y"
  by (rule Inr_eqD [OF in_out [OF assms(1,2)]]) (unfold assms(4), rule in_out [OF assms(1,3)])

lemma in_fails: "text_iarchive B s = None \<Longrightarrow> archive_in B load s = Inl ArchiveException"
  by (simp add: archive_in_def)

end

subsection \<open>A concrete archive\<close>

text \<open>
  Every item starts with a tag octet; numbers are unary, list elements are announced by 1 and
  the end of a list by 0.
\<close>

definition put_num :: "nat \<Rightarrow> bytes" where
  "put_num n = replicate n 1 @ [0]"

definition put_str :: "string \<Rightarrow> bytes" where
  "put_str s = concat (map (\<lambda>c. [1, of_nat (of_char c)]) s) @ [0]"

fun put_item :: "arch \<Rightarrow> bytes"
  and put_items :: "arch list \<Rightarrow> bytes"
  and put_seq :: "arch list list \<Rightarrow> bytes" where
  "put_item (ANum n) = 1 # put_num n"
| "put_item (AStr s) = 2 # put_str s"
| "put_item (ASeq xs) = 3 # put_seq xs"
| "put_item (APtr None) = [4]"
| "put_item (APtr (Some a)) = 5 # put_items a"
| "put_items [] = [0]"
| "put_items (x # xs) = 1 # put_item x @ put_items xs"
| "put_seq [] = [0]"
| "put_seq (a # as) = 1 # put_items a @ put_seq as"

fun get_num :: "bytes \<Rightarrow> (nat \<times> bytes) option" where
  "get_num [] = None"
| "get_num (b # bs) =
     (if b = 0 then Some (0, bs) else map_option (\<lambda>(n, r). (Suc n, r)) (get_num bs))"

fun get_str :: "bytes \<Rightarrow> (string \<times> bytes) option" where
  "get_str (b # bs) =
     (if b = 0 then Some ([], bs)
      else case bs of [] \<Rightarrow> None
           | c # cs \<Rightarrow> map_option (\<lambda>(s, r). (char_of (unat c) # s, r)) (get_str cs))"
| "get_str [] = None"

text \<open>The reader spends one unit of fuel per item, list element and list end.\<close>

fun get_item :: "nat \<Rightarrow> bytes \<Rightarrow> (arch \<times> bytes) option"
  and get_items :: "nat \<Rightarrow> bytes \<Rightarrow> (arch list \<times> bytes) option"
  and get_seq :: "nat \<Rightarrow> bytes \<Rightarrow> (arch list list \<times> bytes) option" where
  "get_item 0 bs = None"
| "get_item (Suc k) [] = None"
| "get_item (Suc k) (b # bs) =
     (if b = 1 then map_option (\<lambda>(n, r). (ANum n, r)) (get_num bs)
      else if b = 2 then map_option (\<lambda>(s, r). (AStr s, r)) (get_str bs)
      else if b = 3 then map_option (\<lambda>(s, r). (ASeq s, r)) (get_seq k bs)
      else if b = 4 then Some (APtr None, bs)
      else map_option (\<lambda>(s, r). (APtr (Some s), r)) (get_items k bs))"
| "get_items 0 bs = None"
| "get_items (Suc k) [] = None"
| "get_items (Suc k) (b # bs) =
     (if b = 0 then Some ([], bs)
      else case get_item k bs of None \<Rightarrow> None
           | Some (x, r) \<Rightarrow> map_option (\<lambda>(xs, r'). (x # xs, r')) (get_items k r))"
| "get_seq 0 bs = None"
| "get_seq (Suc k) [] = None"
| "get_seq (Suc k) (b # bs) =
     (if b = 0 then Some ([], bs)
      else case get_items k bs of None \<Rightarrow> None
           | Some (x, r) \<Rightarrow> map_option (\<lambda>(xs, r'). (x # xs, r')) (get_seq k r))"

definition tagged_archive :: boost_archive where
  "tagged_archive =
     \<lparr>text_oarchive = put_items,
      text_iarchive = (\<lambda>bs. case get_items (length bs) bs of Some (a, []) \<Rightarrow> Some a | _ \<Rightarrow> None)\<rparr>"

lemma length_put_num: "length (put_num n) = Suc n"
  by (simp add: put_num_def)

lemma length_put_str: "length (put_str s) = 2 * length s + 1"
  by (induction s) (simp_all add: put_str_def)

lemma get_put_num: "get_num (put_num n @ r) = Some (n, r)"
  by (induction n) (auto simp: put_num_def)

lemma get_put_str: "get_str (put_str s @ r) = Some (s, r)"
  by (induction s) (auto simp: put_str_def unat_of_nat)

lemma get_put:
  "length (put_item x) \<le> k \<Longrightarrow> get_item k (put_item x @ r) = Some (x, r)"
  "length (put_items xs) \<le> k \<Longrightarrow> get_items k (put_items xs @ r) = Some (xs, r)"
  "length (put_seq ss) \<le> k \<Longrightarrow> get_seq k (put_seq ss @ r) = Some (ss, r)"
proof (induction x and xs and ss arbitrary: k r and k r and k r rule: put_item_put_items_put_seq.induct)
qed (auto simp: get_put_num get_put_str Suc_le_eq less_Suc_eq_le gr0_conv_Suc
      elim!: less_natE split: option.splits)

lemma archive_lossless_tagged: "archive_lossless tagged_archive"
proof -
  have "get_items (length (put_items a)) (put_items a @ []) = Some (a, [])" for a
    by (rule get_put) simp
  then show ?thesis
    by (simp add: archive_lossless_def tagged_archive_def)
qed

end
