(* ===== verification/Dir_Tree.thy ===== *)
theory Dir_Tree
  imports Archive
begin

section \<open>dir_tree.h, dir_tree.cc: the tree of shared files\<close>

text \<open>
  \<^verbatim>\<open>DirTree::TreeNode\<close> is a datatype with the members of the class. Its member
  \<^verbatim>\<open>children\<close>, a \<^verbatim>\<open>std::set<TreeNode>\<close> ordered by \<^verbatim>\<open>name\<close>, is the list of the
  elements in iteration order; \<open>set_insert\<close> and \<open>set_find\<close> are the two set operations the
  program uses. \<^verbatim>\<open>DirTree\<close> owns a possibly null pointer to its root, an option here; code
  that dereferences the null pointer crashes.

  The locale \<open>name_set\<close> is the contract of the set; \<open>merge\<close> and loading from an archive are
  its clients. The relation of \<open>DirTree_find\<close>, the loop over the elements of a path, to the
  plain tree lookup \<open>lookup_path\<close> is a refinement. \<open>wf_node\<close> is the representation
  invariant, \<open>uniform\<close> the ownership invariant: all nodes below a child of the root belong to
  the host of that child, so removing children of the root removes all files of a host.
\<close>

subsection \<open>Data\<close>

datatype FileType =
  REGULAR | DIRECTORY | CHRDEVICE | BLKDEVICE | FIFO | SYMLINK | SOCKET | UNKNOWN

datatype TreeNode = TreeNode
  (tn_type: FileType)
  (tn_size: u64)
  (tn_uid: u64)
  (tn_gid: u64)
  (tn_atime: u64)
  (tn_mtime: u64)
  (tn_ctime: u64)
  (tn_host_id: u64)
  (tn_num_links: u64)
  (tn_name: string)
  (tn_children: "TreeNode list")

type_synonym DirTree = "TreeNode option"

definition with_children :: "TreeNode list \<Rightarrow> TreeNode \<Rightarrow> TreeNode" where
  "with_children cs n =
     TreeNode (tn_type n) (tn_size n) (tn_uid n) (tn_gid n) (tn_atime n) (tn_mtime n) (tn_ctime n)
       (tn_host_id n) (tn_num_links n) (tn_name n) cs"

definition with_host :: "u64 \<Rightarrow> TreeNode \<Rightarrow> TreeNode" where
  "with_host h n =
     TreeNode (tn_type n) (tn_size n) (tn_uid n) (tn_gid n) (tn_atime n) (tn_mtime n) (tn_ctime n)
       h (tn_num_links n) (tn_name n) (tn_children n)"

subsection \<open>std::set of nodes\<close>

definition TreeNode_less :: "TreeNode \<Rightarrow> TreeNode \<Rightarrow> bool" where
  "TreeNode_less a b \<longleftrightarrow> tn_name a < tn_name b"

fun set_insert :: "TreeNode \<Rightarrow> TreeNode list \<Rightarrow> TreeNode list" where
  "set_insert x [] = [x]"
| "set_insert x (y # ys) =
     (if TreeNode_less x y then x # y # ys
      else if TreeNode_less y x then y # set_insert x ys
      else y # ys)"

fun set_find :: "string \<Rightarrow> TreeNode list \<Rightarrow> TreeNode option" where
  "set_find k [] = None"
| "set_find k (y # ys) =
     (if tn_name y < k then set_find k ys
      else if k < tn_name y then None
      else Some y)"

subsection \<open>Operations\<close>

text \<open>\<^verbatim>\<open>TreeNode::setHostID\<close> marks everything below a node; the node keeps its own mark.\<close>

lemma size_with_host [simp, termination_simp]: "size (with_host h n) = size n"
  by (cases n) (simp add: with_host_def)

fun setHostID :: "u64 \<Rightarrow> TreeNode \<Rightarrow> TreeNode" where
  "setHostID h (TreeNode ty sz ui gi ati mti cti hi nl nm cs) =
     TreeNode ty sz ui gi ati mti cti hi nl nm (map (\<lambda>c. setHostID h (with_host h c)) cs)"

fun removeOf_loop :: "u64 \<Rightarrow> TreeNode list \<Rightarrow> TreeNode list" where
  "removeOf_loop h [] = []"
| "removeOf_loop h (n # ns) =
     (if tn_host_id n = h then removeOf_loop h ns else n # removeOf_loop h ns)"

fun removeNotOf_loop :: "u64 \<Rightarrow> TreeNode list \<Rightarrow> TreeNode list" where
  "removeNotOf_loop h [] = []"
| "removeNotOf_loop h (n # ns) =
     (if tn_host_id n \<noteq> h then removeNotOf_loop h ns else n # removeNotOf_loop h ns)"

definition deref :: "DirTree \<Rightarrow> TreeNode result" where
  "deref t = of_option NullDeref t"

definition DirTree_removeOf :: "u64 \<Rightarrow> DirTree \<Rightarrow> DirTree result" where
  "DirTree_removeOf h t =
     res_bind (deref t) (\<lambda>r. Inr (Some (with_children (removeOf_loop h (tn_children r)) r)))"

definition DirTree_removeNotOf :: "u64 \<Rightarrow> DirTree \<Rightarrow> DirTree result" where
  "DirTree_removeNotOf h t =
     res_bind (deref t) (\<lambda>r. Inr (Some (with_children (removeNotOf_loop h (tn_children r)) r)))"

text \<open>
  The loop of \<^verbatim>\<open>hasConflict\<close> walks over two ranges of iterators. A range is given by the
  positions of its ends; \<open>it_range\<close> is the sequence of its elements. The first range starts and
  ends at \<^verbatim>\<open>begin()\<close> of the argument's children (lines 46 and 47), position 0.
\<close>

definition it_range :: "nat \<Rightarrow> nat \<Rightarrow> 'a list \<Rightarrow> 'a list" where
  "it_range i j xs = take (j - i) (drop i xs)"

fun conflict_loop :: "TreeNode list \<Rightarrow> TreeNode list \<Rightarrow> string list" where
  "conflict_loop [] ys = []"
| "conflict_loop xs [] = []"
| "conflict_loop (x # xs) (y # ys) =
     (if TreeNode_less x y then conflict_loop xs (y # ys)
      else if TreeNode_less y x then conflict_loop (x # xs) ys
      else tn_name x # conflict_loop xs ys)"

definition DirTree_hasConflict :: "DirTree \<Rightarrow> DirTree \<Rightarrow> string list result" where
  "DirTree_hasConflict self tree =
     res_bind (deref tree) (\<lambda>t.
     res_bind (deref self) (\<lambda>r.
       let first1 = 0; last1 = 0; first2 = 0; last2 = length (tn_children r)
       in Inr (conflict_loop (it_range first1 last1 (tn_children t))
                             (it_range first2 last2 (tn_children r)))))"

definition merge_loop :: "TreeNode list \<Rightarrow> TreeNode list \<Rightarrow> TreeNode list" where
  "merge_loop ns cs = fold set_insert ns cs"

definition DirTree_merge :: "DirTree \<Rightarrow> DirTree \<Rightarrow> DirTree result" where
  "DirTree_merge tree self =
     res_bind (deref tree) (\<lambda>t.
     res_bind (deref self) (\<lambda>r.
       Inr (Some (with_children (merge_loop (tn_children t) (tn_children r)) r))))"

text \<open>
  \<^verbatim>\<open>DirTree::find\<close>. The elements of a path come from \<^verbatim>\<open>boost::filesystem::path\<close>, which
  is not part of the repository: \<open>path_elements\<close> is a parameter. \<open>node\<close> is the local pointer,
  null (\<open>None\<close>) until the root element is met.
\<close>

fun find_loop :: "DirTree \<Rightarrow> string list \<Rightarrow> TreeNode option \<Rightarrow> TreeNode option result" where
  "find_loop root [] node = Inr node"
| "find_loop root (e # es) node =
     (if e = ''..'' then Inl AssertFailed
      else if e = ''.'' then find_loop root es node
      else case node of
        None \<Rightarrow> if e = ''/'' then find_loop root es root else find_loop root es None
      | Some n \<Rightarrow>
          (case set_find e (tn_children n) of
             None \<Rightarrow> Inr None
           | Some c \<Rightarrow> find_loop root es (Some c)))"

definition DirTree_find ::
    "(string \<Rightarrow> string list) \<Rightarrow> string \<Rightarrow> DirTree \<Rightarrow> TreeNode option result" where
  "DirTree_find path_elements path t = find_loop t (path_elements path) None"

subsection \<open>Serialization\<close>

text \<open>
  The member templates \<^verbatim>\<open>serialize\<close> name the fields in the order of the archive, for writing
  and for reading. An enumeration is archived as its number; a number outside the enumeration
  has no meaning as a \<^verbatim>\<open>FileType\<close> and counts as a failure. Loading a set inserts the loaded
  elements one by one.
\<close>

definition FileTypes :: "FileType list" where
  "FileTypes = [REGULAR, DIRECTORY, CHRDEVICE, BLKDEVICE, FIFO, SYMLINK, SOCKET, UNKNOWN]"

fun FileType_code :: "FileType \<Rightarrow> nat" where
  "FileType_code REGULAR = 0"
| "FileType_code DIRECTORY = 1"
| "FileType_code CHRDEVICE = 2"
| "FileType_code BLKDEVICE = 3"
| "FileType_code FIFO = 4"
| "FileType_code SYMLINK = 5"
| "FileType_code SOCKET = 6"
| "FileType_code UNKNOWN = 7"

definition FileType_of_code :: "nat \<Rightarrow> FileType option" where
  "FileType_of_code n = (if n < 8 then Some (FileTypes ! n) else None)"

fun TreeNode_save :: "TreeNode \<Rightarrow> arch list" where
  "TreeNode_save (TreeNode ty sz ui gi ati mti cti hi nl nm cs) =
     [ANum (FileType_code ty), ANum (unat sz), ANum (unat ui), ANum (unat gi), ANum (unat ati),
      ANum (unat mti), ANum (unat cti), ANum (unat hi), ANum (unat nl), AStr nm,
      ASeq (map TreeNode_save cs)]"

definition ld_FileType :: "arch list \<Rightarrow> (FileType \<times> arch list) option" where
  "ld_FileType ar =
     (case ar of ANum n # r \<Rightarrow> map_option (\<lambda>t. (t, r)) (FileType_of_code n) | _ \<Rightarrow> None)"

lemma ld_FileType_size: "ld_FileType ar = Some (w, r) \<Longrightarrow> size_list size r \<le> size_list size ar"
  by (auto simp: ld_FileType_def split: list.splits arch.splits)

function TreeNode_load :: "arch list \<Rightarrow> TreeNode option" where
  "TreeNode_load ar =
     Option.bind (ld_FileType ar) (\<lambda>(ty, ar).
     Option.bind (ld_word ar) (\<lambda>(sz, ar).
     Option.bind (ld_word ar) (\<lambda>(ui, ar).
     Option.bind (ld_word ar) (\<lambda>(gi, ar).
     Option.bind (ld_word ar) (\<lambda>(ati, ar).
     Option.bind (ld_word ar) (\<lambda>(mti, ar).
     Option.bind (ld_word ar) (\<lambda>(cti, ar).
     Option.bind (ld_word ar) (\<lambda>(hi, ar).
     Option.bind (ld_word ar) (\<lambda>(nl, ar).
     Option.bind (ld_str ar) (\<lambda>(nm, ar).
     Option.bind (ld_seq ar) (\<lambda>(ss, ar).
     Option.bind (those (map TreeNode_load ss)) (\<lambda>cs.
       Some (TreeNode ty sz ui gi ati mti cti hi nl nm (merge_loop cs []))))))))))))))"
  by pat_completeness auto
termination
  by (relation "measure (size_list size)")
    (auto dest!: ld_FileType_size ld_word_size ld_str_size ld_seq_size)

declare TreeNode_load.simps [simp del]

definition DirTree_save :: "DirTree \<Rightarrow> arch list" where
  "DirTree_save t = [APtr (map_option TreeNode_save t)]"

definition DirTree_load :: "arch list \<Rightarrow> DirTree option" where
  "DirTree_load ar =
     (case ar of
        [APtr None] \<Rightarrow> Some None
      | [APtr (Some a)] \<Rightarrow> map_option Some (TreeNode_load a)
      | _ \<Rightarrow> None)"

definition DirTree_serialize :: "boost_archive \<Rightarrow> DirTree \<Rightarrow> bytes" where
  "DirTree_serialize B t = archive_out B DirTree_save t"

definition DirTree_deserialize :: "boost_archive \<Rightarrow> bytes \<Rightarrow> DirTree result" where
  "DirTree_deserialize B s = archive_in B DirTree_load s"

subsection \<open>Invariants and specifications\<close>

definition sorted_names :: "TreeNode list \<Rightarrow> bool" where
  "sorted_names ns \<longleftrightarrow> sorted_wrt (<) (map tn_name ns)"

fun wf_node :: "TreeNode \<Rightarrow> bool" where
  "wf_node (TreeNode ty sz ui gi ati mti cti hi nl nm cs) \<longleftrightarrow>
     sorted_names cs \<and> list_all wf_node cs"

definition wf_tree :: "DirTree \<Rightarrow> bool" where
  "wf_tree t \<longleftrightarrow> (case t of None \<Rightarrow> False | Some r \<Rightarrow> wf_node r)"

fun below :: "TreeNode \<Rightarrow> TreeNode list" where
  "below (TreeNode ty sz ui gi ati mti cti hi nl nm cs) = concat (map (\<lambda>c. c # below c) cs)"

definition owned_by :: "u64 \<Rightarrow> TreeNode \<Rightarrow> bool" where
  "owned_by h n \<longleftrightarrow> tn_host_id n = h \<and> list_all (\<lambda>m. tn_host_id m = h) (below n)"

definition uniform :: "TreeNode list \<Rightarrow> bool" where
  "uniform cs \<longleftrightarrow> list_all (\<lambda>c. owned_by (tn_host_id c) c) cs"

fun lookup_path :: "TreeNode \<Rightarrow> string list \<Rightarrow> TreeNode option" where
  "lookup_path n [] = Some n"
| "lookup_path n (k # ks) =
     (case set_find k (tn_children n) of None \<Rightarrow> None | Some c \<Rightarrow> lookup_path c ks)"

subsection \<open>Selectors of updated nodes\<close>

lemma tn_children_with_children [simp]: "tn_children (with_children cs n) = cs"
  by (simp add: with_children_def)

lemma with_children_sel [simp]:
  "tn_type (with_children cs n) = tn_type n" "tn_size (with_children cs n) = tn_size n"
  "tn_host_id (with_children cs n) = tn_host_id n" "tn_name (with_children cs n) = tn_name n"
  "tn_num_links (with_children cs n) = tn_num_links n" "tn_mtime (with_children cs n) = tn_mtime n"
  by (simp_all add: with_children_def)

lemma with_children_idem [simp]:
  "with_children cs (with_children ds n) = with_children cs n"
  "with_children (tn_children n) n = n"
  by (simp_all add: with_children_def)

lemma with_host_sel [simp]:
  "tn_name (with_host h n) = tn_name n" "tn_host_id (with_host h n) = h"
  "tn_children (with_host h n) = tn_children n"
  by (simp_all add: with_host_def)

lemma wf_node_iff: "wf_node n \<longleftrightarrow> sorted_names (tn_children n) \<and> list_all wf_node (tn_children n)"
  by (cases n) simp

lemma wf_node_with_children [simp]:
  "wf_node (with_children cs n) \<longleftrightarrow> sorted_names cs \<and> list_all wf_node cs"
  by (simp add: wf_node_iff)

lemma wf_nodeD: "wf_node n \<Longrightarrow> sorted_names (tn_children n)"
    "wf_node n \<Longrightarrow> list_all wf_node (tn_children n)"
  by (simp_all add: wf_node_iff)

lemma below_eq: "below n = concat (map (\<lambda>c. c # below c) (tn_children n))"
  by (cases n) simp

lemma setHostID_sel [simp]:
  "tn_name (setHostID h n) = tn_name n" "tn_host_id (setHostID h n) = tn_host_id n"
  "tn_children (setHostID h n) = map (\<lambda>c. setHostID h (with_host h c)) (tn_children n)"
  by (cases n; simp)+

lemma with_host_TreeNode:
  "with_host h (TreeNode ty sz ui gi ati mti cti hi nl nm cs) = TreeNode ty sz ui gi ati mti cti h nl nm cs"
  by (simp add: with_host_def)

lemma deref_simps [simp]: "deref (Some r) = Inr r" "deref None = Inl NullDeref"
  by (simp_all add: deref_def)

subsection \<open>The contract of the set of children\<close>

text \<open>
  A set keyed by names: insertion keeps an element that is already there under the same key.
\<close>

locale name_set =
  fixes ins :: "'n \<Rightarrow> 's \<Rightarrow> 's"
    and fnd :: "string \<Rightarrow> 's \<Rightarrow> 'n option"
    and key :: "'n \<Rightarrow> string"
    and inv :: "'s \<Rightarrow> bool"
  assumes inv_ins: "inv s \<Longrightarrow> inv (ins x s)"
    and fnd_ins: "inv s \<Longrightarrow>
      fnd k (ins x s) = (case fnd k s of Some y \<Rightarrow> Some y | None \<Rightarrow> if k = key x then Some x else None)"
begin

lemma inv_fold: "inv s \<Longrightarrow> inv (fold ins xs s)"
  by (induction xs arbitrary: s) (simp_all add: inv_ins)

text \<open>Inserting a sequence: what was there wins, then the first element with the key.\<close>

lemma fnd_fold:
  "inv s \<Longrightarrow>
     fnd k (fold ins xs s) =
       (case fnd k s of Some y \<Rightarrow> Some y | None \<Rightarrow> find (\<lambda>x. key x = k) xs)"
  by (induction xs arbitrary: s) (auto simp: inv_ins fnd_ins split: option.splits)

lemma fnd_fold_old: "inv s \<Longrightarrow> fnd k s = Some y \<Longrightarrow> fnd k (fold ins xs s) = Some y"
  by (simp add: fnd_fold)

end

lemma sorted_names_simps [simp]:
  "sorted_names []"
  "sorted_names (n # ns) \<longleftrightarrow> (\<forall>m\<in>set ns. tn_name n < tn_name m) \<and> sorted_names ns"
  by (simp_all add: sorted_names_def)

lemma sorted_names_append:
  "sorted_names (xs @ ys) \<longleftrightarrow>
     sorted_names xs \<and> sorted_names ys \<and> (\<forall>x\<in>set xs. \<forall>y\<in>set ys. tn_name x < tn_name y)"
  by (auto simp: sorted_names_def sorted_wrt_append)

lemma sorted_names_filter: "sorted_names ns \<Longrightarrow> sorted_names (filter P ns)"
  by (simp add: sorted_names_def sorted_wrt_filter_map)

lemma sorted_names_map: "(\<And>n. tn_name (f n) = tn_name n) \<Longrightarrow> sorted_names (map f ns) = sorted_names ns"
  by (simp add: sorted_names_def comp_def)

lemma set_insert_subset: "set (set_insert x ns) \<subseteq> insert x (set ns)"
  by (induction ns) auto

lemma set_insert_superset: "set ns \<subseteq> set (set_insert x ns)"
  by (induction ns) auto

lemma sorted_names_insert: "sorted_names ns \<Longrightarrow> sorted_names (set_insert x ns)"
proof (induction ns)
  case (Cons y ys)
  then show ?case
    using set_insert_subset [of x ys] by (auto simp: TreeNode_less_def)
qed simp

lemma set_find_None_less: "sorted_names ns \<Longrightarrow> (\<forall>m\<in>set ns. k < tn_name m) \<Longrightarrow> set_find k ns = None"
  by (cases ns) auto

lemma set_find_insert:
  "sorted_names ns \<Longrightarrow>
     set_find k (set_insert x ns) =
       (case set_find k ns of Some y \<Rightarrow> Some y | None \<Rightarrow> if k = tn_name x then Some x else None)"
proof (induction ns)
  case (Cons y ys)
  have "set_find k ys = None" if "k = tn_name x" and "tn_name x < tn_name y"
    using Cons.prems that by (intro set_find_None_less) auto
  with Cons show ?case
    by (auto simp: TreeNode_less_def split: option.splits)
qed auto

interpretation children: name_set set_insert set_find tn_name sorted_names
  by unfold_locales (simp_all add: sorted_names_insert set_find_insert)

text \<open>Finding is the search for the name in the list of elements.\<close>

lemma set_find_eq_find: "sorted_names ns \<Longrightarrow> set_find k ns = find (\<lambda>n. tn_name n = k) ns"
proof (induction ns)
  case (Cons y ys)
  have "find (\<lambda>n. tn_name n = k) ys = None" if "k < tn_name y"
    using Cons.prems that by (auto simp: find_None_iff)
  with Cons show ?case by auto
qed simp

lemma set_find_Some: "set_find k ns = Some n \<Longrightarrow> n \<in> set ns \<and> tn_name n = k"
  by (induction ns) (auto split: if_splits)

lemma set_find_iff: "sorted_names ns \<Longrightarrow> set_find k ns = Some n \<longleftrightarrow> n \<in> set ns \<and> tn_name n = k"
proof (induction ns)
  case (Cons y ys)
  then show ?case by auto
qed simp

lemma set_find_filter:
  "sorted_names ns \<Longrightarrow>
     set_find k (filter P ns) =
       (case set_find k ns of Some n \<Rightarrow> if P n then Some n else None | None \<Rightarrow> None)"
proof (induction ns)
  case (Cons y ys)
  have "set_find k (filter P ys) = None" if "k \<le> tn_name y"
    using Cons.prems that by (intro set_find_None_less) (auto intro: sorted_names_filter)
  with Cons show ?case by auto
qed simp

lemma set_find_ne_None: "sorted_names ns \<Longrightarrow> set_find k ns \<noteq> None \<longleftrightarrow> k \<in> tn_name ` set ns"
  by (auto simp: set_find_iff)

text \<open>Two sets with the same lookups are the same list.\<close>

lemma sorted_names_ext:
  assumes "sorted_names xs" and "sorted_names ys" and "\<And>k. set_find k xs = set_find k ys"
  shows "xs = ys"
proof (rule map_sorted_distinct_set_unique)
  show eq: "set xs = set ys"
  proof (rule set_eqI)
    show "x \<in> set xs \<longleftrightarrow> x \<in> set ys" for x
      using set_find_iff [OF assms(1), of "tn_name x" x] set_find_iff [OF assms(2), of "tn_name x" x]
        assms(3) by simp
  qed
  show "sorted (map tn_name xs)" and dist: "distinct (map tn_name xs)"
    and "sorted (map tn_name ys)" and "distinct (map tn_name ys)"
    using assms(1,2) by (simp_all add: sorted_names_def strict_sorted_iff)
  show "inj_on tn_name (set xs \<union> set ys)"
    using dist eq by (simp add: distinct_map)
qed

subsection \<open>Removing the nodes of a host\<close>

lemma removeOf_loop_eq: "removeOf_loop h ns = filter (\<lambda>n. tn_host_id n \<noteq> h) ns"
  by (induction ns) auto

lemma removeNotOf_loop_eq: "removeNotOf_loop h ns = filter (\<lambda>n. tn_host_id n = h) ns"
  by (induction ns) auto

lemma owned_byD: "owned_by h n \<Longrightarrow> m \<in> set (n # below n) \<Longrightarrow> tn_host_id m = h"
  by (auto simp: owned_by_def list_all_iff)

lemma owned_by_child: "owned_by h n \<Longrightarrow> c \<in> set (tn_children n) \<Longrightarrow> owned_by h c"
  by (auto simp: owned_by_def list_all_iff below_eq [of n])

lemma uniform_filter [inv_intros]: "uniform ns \<Longrightarrow> uniform (filter P ns)"
  by (simp add: uniform_def list_all_iff)

lemma uniform_owned: "uniform ns \<Longrightarrow> n \<in> set ns \<Longrightarrow> owned_by (tn_host_id n) n"
  by (simp add: uniform_def list_all_iff)

lemma below_setHostID: "m \<in> set (below (setHostID h n)) \<Longrightarrow> tn_host_id m = h"
proof (induction h n rule: setHostID.induct)
  case (1 h ty sz ui gi ati mti cti hi nl nm cs)
  then show ?case by auto
qed

lemma owned_by_setHostID: "owned_by h (setHostID h (with_host h n))"
  using below_setHostID by (auto simp: owned_by_def list_all_iff)

lemma uniform_setHostID: "uniform (tn_children (setHostID h n))"
  using owned_by_setHostID by (auto simp: uniform_def list_all_iff)

lemma children_setHostID_host: "c \<in> set (tn_children (setHostID h n)) \<Longrightarrow> tn_host_id c = h"
  by auto

lemma wf_node_with_host [simp]: "wf_node (with_host h n) = wf_node n"
  by (simp add: wf_node_iff)

lemma wf_node_setHostID [simp]: "wf_node (setHostID h n) = wf_node n"
proof (induction h n rule: setHostID.induct)
  case (1 h ty sz ui gi ati mti cti hi nl nm cs)
  then show ?case by (auto simp: list_all_iff sorted_names_map)
qed

subsection \<open>Merging\<close>

lemma set_merge_loop: "set (merge_loop ns cs) \<subseteq> set ns \<union> set cs"
proof (induction ns arbitrary: cs)
  case (Cons n ns)
  then show ?case
    using set_insert_subset [of n cs] by (fastforce simp: merge_loop_def)
qed (simp add: merge_loop_def)

lemma merge_loop_superset: "set cs \<subseteq> set (merge_loop ns cs)"
proof (induction ns arbitrary: cs)
  case (Cons n ns)
  then show ?case
    using set_insert_superset [of cs n] by (fastforce simp: merge_loop_def)
qed (simp add: merge_loop_def)

lemma sorted_names_merge [inv_intros]: "sorted_names cs \<Longrightarrow> sorted_names (merge_loop ns cs)"
  unfolding merge_loop_def by (rule children.inv_fold)

lemma set_find_merge:
  "sorted_names cs \<Longrightarrow> sorted_names ns \<Longrightarrow>
     set_find k (merge_loop ns cs) =
       (case set_find k cs of Some c \<Rightarrow> Some c | None \<Rightarrow> set_find k ns)"
  unfolding merge_loop_def by (simp add: children.fnd_fold set_find_eq_find [of ns] split: option.split)

lemma merge_loop_Nil: "sorted_names ns \<Longrightarrow> merge_loop ns [] = ns"
  by (rule sorted_names_ext) (simp_all add: sorted_names_merge set_find_merge)

lemma wf_merge_loop [inv_intros]:
  "list_all wf_node ns \<Longrightarrow> list_all wf_node cs \<Longrightarrow> list_all wf_node (merge_loop ns cs)"
  using set_merge_loop by (fastforce simp: list_all_iff)

lemma uniform_merge_loop [inv_intros]:
  "uniform ns \<Longrightarrow> uniform cs \<Longrightarrow> uniform (merge_loop ns cs)"
  using set_merge_loop by (fastforce simp: uniform_def list_all_iff)

text \<open>A host that joins and leaves again leaves no trace among the children of the root.\<close>

lemma filter_merge_loop:
  assumes "sorted_names cs" and "sorted_names ns"
    and "\<forall>c\<in>set cs. tn_host_id c \<noteq> h" and "\<forall>n\<in>set ns. tn_host_id n = h"
  shows "filter (\<lambda>n. tn_host_id n \<noteq> h) (merge_loop ns cs) = cs"
proof (rule sorted_names_ext)
  fix k
  show "set_find k (filter (\<lambda>n. tn_host_id n \<noteq> h) (merge_loop ns cs)) = set_find k cs"
    using assms
    by (auto simp: set_find_filter set_find_merge sorted_names_merge split: option.splits
        dest!: set_find_Some)
qed (simp_all add: assms sorted_names_filter sorted_names_merge)

subsection \<open>Conflicts\<close>

lemma conflict_loop_Nil2 [simp]: "conflict_loop xs [] = []"
  by (cases xs) auto

lemma conflict_loop_eq:
  "sorted_names xs \<Longrightarrow> sorted_names ys \<Longrightarrow>
     conflict_loop xs ys = map tn_name (filter (\<lambda>x. set_find (tn_name x) ys \<noteq> None) xs)"
proof (induction xs ys rule: conflict_loop.induct)
  case (3 x xs y ys)
  consider "tn_name x < tn_name y" | "tn_name y < tn_name x" | "tn_name x = tn_name y"
    using less_linear by blast
  then show ?case
  proof cases
    case 1
    then have "set_find (tn_name x) (y # ys) = None" by auto
    with 1 "3" show ?thesis by (simp add: TreeNode_less_def)
  next
    case 2
    have *: "set_find (tn_name z) (y # ys) = set_find (tn_name z) ys" if "z \<in> set (x # xs)" for z
      using "3.prems"(1) 2 that by (auto dest: less_trans)
    have "filter (\<lambda>z. set_find (tn_name z) (y # ys) \<noteq> None) (x # xs)
        = filter (\<lambda>z. set_find (tn_name z) ys \<noteq> None) (x # xs)"
      by (rule filter_cong [OF refl]) (simp only: *)
    moreover have "\<not> tn_name x < tn_name y"
      using 2 by simp
    ultimately show ?thesis
      using 2 "3.IH"(2) "3.prems" by (simp add: TreeNode_less_def del: filter.simps set_find.simps)
  next
    case 3
    have *: "set_find (tn_name z) (y # ys) = set_find (tn_name z) ys" if "z \<in> set xs" for z
      using "3.prems"(1) 3 that by auto
    have "filter (\<lambda>z. set_find (tn_name z) (y # ys) \<noteq> None) xs
        = filter (\<lambda>z. set_find (tn_name z) ys \<noteq> None) xs"
      by (rule filter_cong [OF refl]) (simp only: *)
    moreover have "set_find (tn_name x) (y # ys) = Some y"
      using 3 by simp
    ultimately show ?thesis
      using 3 "3.IH"(3) "3.prems" by (simp add: TreeNode_less_def del: set_find.simps)
  qed
qed auto

subsection \<open>Finding\<close>

lemma lookup_path_append:
  "lookup_path n (ps @ qs) =
     (case lookup_path n ps of None \<Rightarrow> None | Some m \<Rightarrow> lookup_path m qs)"
  by (induction n ps rule: lookup_path.induct) (auto split: option.splits)

lemma lookup_path_below: "lookup_path n ps = Some m \<Longrightarrow> m \<in> set (n # below n)"
proof (induction n ps rule: lookup_path.induct)
  case (2 n k ks)
  then obtain c where c: "set_find k (tn_children n) = Some c" and m: "m \<in> set (c # below c)"
    by (auto split: option.splits)
  from set_find_Some [OF c] m show ?case
    by (subst below_eq) auto
qed simp

lemma lookup_owner:
  assumes "uniform cs" and "set_find k cs = Some c" and "lookup_path c ks = Some n"
  shows "tn_host_id n = tn_host_id c"
  using set_find_Some [OF assms(2)] lookup_path_below [OF assms(3)] uniform_owned [OF assms(1)]
  by (blast dest: owned_byD)

text \<open>Keeping the children of the root whose host satisfies a predicate.\<close>

lemma lookup_restrict_hosts:
  assumes "sorted_names (tn_children r)" and "uniform (tn_children r)"
  shows "lookup_path (with_children (filter (\<lambda>n. P (tn_host_id n)) (tn_children r)) r) (k # ks) = Some n
     \<longleftrightarrow> lookup_path r (k # ks) = Some n \<and> P (tn_host_id n)"
proof (cases "set_find k (tn_children r)")
  case None
  with assms(1) show ?thesis by (simp add: set_find_filter)
next
  case (Some c)
  with lookup_owner [OF assms(2) Some, of ks n] assms(1) show ?thesis
    by (cases "lookup_path c ks = Some n") (simp_all add: set_find_filter)
qed

lemma restrict_hosts:
  fixes P :: "u64 \<Rightarrow> bool"
  assumes "wf_node r" and "uniform (tn_children r)"
  defines "r' \<equiv> with_children (filter (\<lambda>n. P (tn_host_id n)) (tn_children r)) r"
  shows "wf_node r' \<and> uniform (tn_children r') \<and> (\<forall>m\<in>set (below r'). P (tn_host_id m)) \<and>
    (\<forall>k ks n. lookup_path r' (k # ks) = Some n \<longleftrightarrow> lookup_path r (k # ks) = Some n \<and> P (tn_host_id n))"
proof (intro conjI ballI allI)
  show "wf_node r'"
    using wf_nodeD [OF assms(1)] by (simp add: r'_def sorted_names_filter) (simp add: list_all_iff)
  show "uniform (tn_children r')"
    using assms(2) by (simp add: r'_def uniform_filter)
  show "P (tn_host_id m)" if m: "m \<in> set (below r')" for m
  proof -
    obtain c where "c \<in> set (tn_children r)" "P (tn_host_id c)" "m \<in> set (c # below c)"
      using m below_eq [of r'] by (auto simp: r'_def)
    then show ?thesis
      using owned_byD [OF uniform_owned [OF assms(2)]] by metis
  qed
  show "lookup_path r' (k # ks) = Some n \<longleftrightarrow> lookup_path r (k # ks) = Some n \<and> P (tn_host_id n)" for k ks n
    unfolding r'_def using assms(1,2) by (intro lookup_restrict_hosts) (simp_all add: wf_nodeD)
qed

lemma find_loop_Some:
  "''..'' \<notin> set es \<Longrightarrow>
     find_loop root es (Some n) = Inr (lookup_path n (filter (\<lambda>e. e \<noteq> ''.'') es))"
  by (induction es arbitrary: n) (auto split: option.splits)

lemma find_loop_None:
  "''..'' \<notin> set es \<Longrightarrow>
     find_loop (Some r) es None =
       (case dropWhile (\<lambda>e. e \<noteq> ''/'') es of
          [] \<Rightarrow> Inr None
        | e # rest \<Rightarrow> Inr (lookup_path r (filter (\<lambda>e. e \<noteq> ''.'') rest)))"
  by (induction es) (auto simp: find_loop_Some)

lemma find_loop_wf:
  "find_loop root es node = Inr (Some n) \<Longrightarrow> (\<forall>r. root = Some r \<longrightarrow> wf_node r) \<Longrightarrow> (\<forall>m. node = Some m \<longrightarrow> wf_node m) \<Longrightarrow> wf_node n"
proof (induction root es node rule: find_loop.induct)
  case (2 root e es node)
  have "wf_node c" if "set_find e (tn_children m) = Some c" "wf_node m" for m c
    using set_find_Some [OF that(1)] wf_nodeD [OF that(2)] by (auto simp: list_all_iff)
  with 2 show ?case by (auto split: if_splits option.splits)
qed simp

text \<open>Lookup in a tree whose root has got other children, by the first component.\<close>

lemma lookup_with_children_Cons:
  "lookup_path (with_children cs r) (k # ks) =
     (case set_find k cs of None \<Rightarrow> None | Some c \<Rightarrow> lookup_path c ks)"
  by simp

lemma lookup_path_cong:
  "tn_children a = tn_children b \<Longrightarrow> tn_name a = tn_name b \<Longrightarrow>
     map_option tn_name (lookup_path a ks) = map_option tn_name (lookup_path b ks)"
  by (cases ks) simp_all

lemma lookup_setHostID:
  "map_option tn_name (lookup_path (setHostID h n) ks) = map_option tn_name (lookup_path n ks)"
proof (induction n ks rule: lookup_path.induct)
  case (2 n k ks)
  have find_map: "set_find k (map (\<lambda>c. setHostID h (with_host h c)) cs) =
      map_option (\<lambda>c. setHostID h (with_host h c)) (set_find k cs)" for cs
    by (induction cs) auto
  have lookup_host: "map_option tn_name (lookup_path (setHostID h (with_host h c)) ks) =
      map_option tn_name (lookup_path (setHostID h c) ks)" for c
    by (rule lookup_path_cong) simp_all
  show ?case
    using "2.IH" by (auto simp: find_map lookup_host split: option.splits)
qed simp

subsection \<open>Round trip of the archive\<close>

lemma FileType_of_code_code [simp]: "FileType_of_code (FileType_code t) = Some t"
  by (cases t) (simp_all add: FileType_of_code_def FileTypes_def)

lemma ld_FileType_code [simp]: "ld_FileType (ANum (FileType_code t) # r) = Some (t, r)"
  by (simp add: ld_FileType_def)

lemma TreeNode_load_save: "wf_node n \<Longrightarrow> TreeNode_load (TreeNode_save n) = Some n"
proof (induction n)
  case (TreeNode ty sz ui gi ati mti cti hi nl nm cs)
  then have "those (map (TreeNode_load \<circ> TreeNode_save) cs) = Some cs"
    by (intro those_map_Some) (auto simp: list_all_iff)
  with TreeNode.prems show ?case
    by (subst TreeNode_load.simps) (simp add: merge_loop_Nil)
qed

lemma DirTree_load_save: "wf_tree t \<Longrightarrow> DirTree_load (DirTree_save t) = Some t"
  by (cases t) (simp_all add: wf_tree_def DirTree_load_def DirTree_save_def TreeNode_load_save)

text \<open>What comes out of an archive is well formed, whoever wrote it: the sets sort again.\<close>

lemma those_map_mem:
  "those (map f xs) = Some ys \<Longrightarrow> y \<in> set ys \<Longrightarrow> \<exists>x\<in>set xs. f x = Some y"
  by (induction xs arbitrary: ys) (auto split: option.splits)

lemma TreeNode_load_wf: "TreeNode_load ar = Some n \<Longrightarrow> wf_node n"
proof (induction "size_list size ar" arbitrary: ar n rule: less_induct)
  case less
  obtain a ss b cs where ss: "ld_seq a = Some (ss, b)" and cs: "those (map TreeNode_load ss) = Some cs"
    and ch: "tn_children n = merge_loop cs []" and le: "size_list size a \<le> size_list size ar"
    using less.prems by (subst (asm) TreeNode_load.simps)
      (auto simp: Option.bind_eq_Some_conv dest!: ld_FileType_size ld_word_size ld_str_size)
  have "wf_node c" if c: "c \<in> set cs" for c
  proof -
    obtain x where x: "x \<in> set ss" "TreeNode_load x = Some c"
      using those_map_mem [OF cs c] by blast
    from ld_seq_size [OF ss x(1)] le have "size_list size x < size_list size ar" by simp
    from this x(2) show ?thesis by (rule less.hyps)
  qed
  then have "list_all wf_node cs" by (simp add: list_all_iff)
  then show ?case
    by (subst wf_node_iff) (simp add: ch inv_intros sorted_names_def [of "[]"])
qed

lemma DirTree_load_Some: "DirTree_load ar = Some (Some r) \<Longrightarrow> \<exists>a. TreeNode_load a = Some r"
  unfolding DirTree_load_def by (auto split: list.split_asm arch.split_asm option.split_asm)

lemma DirTree_deserialize_wf: "DirTree_deserialize B s = Inr (Some r) \<Longrightarrow> wf_node r"
  using TreeNode_load_wf DirTree_load_Some
  by (fastforce simp: DirTree_deserialize_def archive_in_def Option.bind_eq_Some_conv)

interpretation tree_archive: serializable DirTree_save DirTree_load wf_tree
  by unfold_locales (rule DirTree_load_save)

lemma DirTree_deserialize_serialize [codec_simps]:
  "archive_lossless B \<Longrightarrow> wf_tree t \<Longrightarrow>
     DirTree_deserialize B (DirTree_serialize B t) = Inr t"
  by (simp add: DirTree_deserialize_def DirTree_serialize_def tree_archive.in_out)

subsection \<open>Small trees for the examples\<close>

definition sample_file :: "u64 \<Rightarrow> string \<Rightarrow> TreeNode" where
  "sample_file h nm = TreeNode REGULAR 22 0 0 0 5 0 h 1 nm []"

definition sample_dir :: "u64 \<Rightarrow> string \<Rightarrow> TreeNode list \<Rightarrow> TreeNode" where
  "sample_dir h nm cs = TreeNode DIRECTORY 0 0 0 0 5 0 h 2 nm cs"

definition master_tree :: TreeNode where
  "master_tree =
     sample_dir 1 [] [sample_dir 1 ''master_dir'' [sample_file 1 ''master_file3''],
                      sample_file 1 ''master_file1'']"

definition standby_tree :: TreeNode where
  "standby_tree = sample_dir 0 [] [sample_file 0 ''master_file1'', sample_file 0 ''standby1_file1'']"

lemmas sample_defs = sample_file_def sample_dir_def master_tree_def standby_tree_def

lemma sample_trees_ok [simp]:
  "wf_node master_tree" "wf_node standby_tree" "uniform (tn_children master_tree)"
  by (simp_all add: sample_defs uniform_def owned_by_def)

subsection \<open>Properties\<close>

text \<open>
  Merging a tree into another keeps the representation invariant, and afterwards a path
  leads to the node of the old tree if the old tree has an entry for its first component, and to
  the node of the merged-in tree otherwise: an entry that exists already wins, whole subtrees at
  a time.
\<close>

theorem merge_find:
  assumes "wf_node r" and "wf_node t"
  shows "\<exists>r'. DirTree_merge (Some t) (Some r) = Inr (Some r') \<and> wf_node r' \<and>
           (\<forall>k ks. lookup_path r' (k # ks) =
              (if set_find k (tn_children r) \<noteq> None then lookup_path r (k # ks)
               else lookup_path t (k # ks)))"
proof (intro exI conjI allI)
  let ?r' = "with_children (merge_loop (tn_children t) (tn_children r)) r"
  show "DirTree_merge (Some t) (Some r) = Inr (Some ?r')"
    by (simp add: DirTree_merge_def)
  show "wf_node ?r'"
    using assms by (simp add: wf_nodeD inv_intros)
  show "lookup_path ?r' (k # ks) =
          (if set_find k (tn_children r) \<noteq> None then lookup_path r (k # ks)
           else lookup_path t (k # ks))" for k ks
    using assms by (auto simp: wf_nodeD set_find_merge)
qed

theorem merge_find_witness:
  "\<exists>r'. DirTree_merge (Some standby_tree) (Some master_tree) = Inr (Some r') \<and> wf_node r' \<and>
     (\<forall>k ks. lookup_path r' (k # ks) =
        (if set_find k (tn_children master_tree) \<noteq> None then lookup_path master_tree (k # ks)
         else lookup_path standby_tree (k # ks)))"
  by (rule merge_find) simp_all

text \<open>
  \<^verbatim>\<open>hasConflict\<close> reports no conflict for any two trees, whatever names they share: the
  range over the children of the joining tree is empty, because \<^verbatim>\<open>last1\<close> is set to
  \<^verbatim>\<open>begin()\<close> instead of \<^verbatim>\<open>end()\<close>.
\<close>

theorem hasConflict_reports_nothing: "DirTree_hasConflict (Some r) (Some t) = Inr []"
  by (simp add: DirTree_hasConflict_def it_range_def)

text \<open>
  The loop of \<^verbatim>\<open>hasConflict\<close> itself is right: over the full ranges of two sets of
  children it returns exactly the names they share, in ascending order.
\<close>

theorem conflict_loop_shared_names:
  assumes "sorted_names xs" and "sorted_names ys"
  shows "set (conflict_loop (it_range 0 (length xs) xs) (it_range 0 (length ys) ys))
           = tn_name ` set xs \<inter> tn_name ` set ys \<and>
         sorted_wrt (<) (conflict_loop (it_range 0 (length xs) xs) (it_range 0 (length ys) ys))"
proof
  show "set (conflict_loop (it_range 0 (length xs) xs) (it_range 0 (length ys) ys))
           = tn_name ` set xs \<inter> tn_name ` set ys"
    using set_find_ne_None [OF assms(2)] by (auto simp: it_range_def conflict_loop_eq [OF assms])
  show "sorted_wrt (<) (conflict_loop (it_range 0 (length xs) xs) (it_range 0 (length ys) ys))"
    using assms(1) sorted_wrt_filter_map [of "(<)" tn_name xs]
    by (simp add: it_range_def conflict_loop_eq [OF assms] sorted_names_def)
qed

theorem conflict_loop_shared_names_witness:
  "set (conflict_loop (it_range 0 2 (tn_children standby_tree)) (it_range 0 2 (tn_children master_tree)))
     = {''master_file1''}"
  using conflict_loop_shared_names [of "tn_children standby_tree" "tn_children master_tree"]
  by (simp add: sample_defs numeral_2_eq_2)

text \<open>
  After \<^verbatim>\<open>removeOf\<close> no node of the host is left anywhere below the root, every path
  that led to a node of another host still leads to the same node, no new path appears, and both
  invariants still hold.
\<close>

theorem removeOf_removes_host:
  assumes "wf_node r" and "uniform (tn_children r)"
  shows "\<exists>r'. DirTree_removeOf h (Some r) = Inr (Some r') \<and> wf_node r' \<and>
           uniform (tn_children r') \<and> (\<forall>m\<in>set (below r'). tn_host_id m \<noteq> h) \<and>
           (\<forall>k ks n. lookup_path r' (k # ks) = Some n \<longleftrightarrow>
                      lookup_path r (k # ks) = Some n \<and> tn_host_id n \<noteq> h)"
proof -
  let ?r' = "with_children (filter (\<lambda>n. tn_host_id n \<noteq> h) (tn_children r)) r"
  have "DirTree_removeOf h (Some r) = Inr (Some ?r')"
    by (simp add: DirTree_removeOf_def removeOf_loop_eq)
  then show ?thesis
    using restrict_hosts [OF assms, of "\<lambda>i. i \<noteq> h"] by blast
qed

theorem removeOf_removes_host_witness:
  "\<exists>r'. DirTree_removeOf 1 (Some master_tree) = Inr (Some r') \<and> wf_node r' \<and>
     uniform (tn_children r') \<and> (\<forall>m\<in>set (below r'). tn_host_id m \<noteq> 1) \<and>
     (\<forall>k ks n. lookup_path r' (k # ks) = Some n \<longleftrightarrow>
                lookup_path master_tree (k # ks) = Some n \<and> tn_host_id n \<noteq> 1)"
  by (rule removeOf_removes_host) simp_all

text \<open>
  After \<^verbatim>\<open>removeNotOf\<close> exactly the nodes of the host are left below the root, each at
  its old path.
\<close>

theorem removeNotOf_keeps_host:
  assumes "wf_node r" and "uniform (tn_children r)"
  shows "\<exists>r'. DirTree_removeNotOf h (Some r) = Inr (Some r') \<and> wf_node r' \<and>
           uniform (tn_children r') \<and> (\<forall>m\<in>set (below r'). tn_host_id m = h) \<and>
           (\<forall>k ks n. lookup_path r' (k # ks) = Some n \<longleftrightarrow>
                      lookup_path r (k # ks) = Some n \<and> tn_host_id n = h)"
proof -
  let ?r' = "with_children (filter (\<lambda>n. tn_host_id n = h) (tn_children r)) r"
  have "DirTree_removeNotOf h (Some r) = Inr (Some ?r')"
    by (simp add: DirTree_removeNotOf_def removeNotOf_loop_eq)
  then show ?thesis
    using restrict_hosts [OF assms, of "\<lambda>i. i = h"] by blast
qed

theorem removeNotOf_keeps_host_witness:
  "\<exists>r'. DirTree_removeNotOf 2 (Some master_tree) = Inr (Some r') \<and> wf_node r' \<and>
     uniform (tn_children r') \<and> (\<forall>m\<in>set (below r'). tn_host_id m = 2) \<and>
     (\<forall>k ks n. lookup_path r' (k # ks) = Some n \<longleftrightarrow>
                lookup_path master_tree (k # ks) = Some n \<and> tn_host_id n = 2)"
  by (rule removeNotOf_keeps_host) simp_all

text \<open>
  Joining and leaving cancel: if no child of the root carries the id \<open>h\<close>, then marking a tree
  with \<open>h\<close>, merging it and removing the nodes of \<open>h\<close> gives the original tree back.
\<close>

theorem join_leave_identity:
  assumes "wf_node r" and "wf_node t" and "\<forall>c\<in>set (tn_children r). tn_host_id c \<noteq> h"
  shows "res_bind (DirTree_merge (Some (setHostID h t)) (Some r)) (DirTree_removeOf h) = Inr (Some r)"
proof -
  have "filter (\<lambda>n. tn_host_id n \<noteq> h) (merge_loop (tn_children (setHostID h t)) (tn_children r))
          = tn_children r"
    using assms by (intro filter_merge_loop wf_nodeD) auto
  then show ?thesis
    by (simp add: DirTree_merge_def DirTree_removeOf_def removeOf_loop_eq del: setHostID_sel)
qed

theorem join_leave_identity_witness:
  "res_bind (DirTree_merge (Some (setHostID 2 standby_tree)) (Some master_tree)) (DirTree_removeOf 2)
     = Inr (Some master_tree)"
  by (rule join_leave_identity) (simp_all add: sample_defs)

text \<open>
  \<^verbatim>\<open>find\<close> implements plain tree lookup. For a path without a \<^verbatim>\<open>..\<close> element it never
  fails: everything up to the first root element is skipped, then each element other than
  \<^verbatim>\<open>.\<close> selects the child of that name; without a root element the result is the null pointer.
\<close>

theorem find_refines_lookup:
  assumes "''..'' \<notin> set (path_elements path)"
  shows "DirTree_find path_elements path (Some r) =
           Inr (case dropWhile (\<lambda>e. e \<noteq> ''/'') (path_elements path) of
                  [] \<Rightarrow> None
                | e # rest \<Rightarrow> lookup_path r (filter (\<lambda>e. e \<noteq> ''.'') rest))"
  unfolding DirTree_find_def find_loop_None [OF assms]
  by (cases "dropWhile (\<lambda>e. e \<noteq> ''/'') (path_elements path)") (simp_all only: list.case)

theorem find_refines_lookup_witness:
  "DirTree_find (\<lambda>_. [''/'', ''.'', ''master_dir'', ''master_file3'']) ''/./master_dir/master_file3''
     (Some master_tree) = Inr (Some (sample_file 1 ''master_file3''))"
  using find_refines_lookup [of "\<lambda>_. [''/'', ''.'', ''master_dir'', ''master_file3'']"
      "''/./master_dir/master_file3''" master_tree]
  by (simp add: sample_defs)

text \<open>
  \<^bold>\<open>C26\<close>. Serializing a well-formed tree and deserializing the text gives the same tree, for every
  archive that returns the items it was given.
\<close>

theorem DirTree_serialize_roundtrip:
  assumes "archive_lossless B" and "wf_tree t"
  shows "DirTree_deserialize B (DirTree_serialize B t) = Inr t"
  using assms by (rule DirTree_deserialize_serialize)

theorem DirTree_serialize_roundtrip_witness:
  "DirTree_deserialize tagged_archive (DirTree_serialize tagged_archive (Some master_tree))
     = Inr (Some master_tree)"
  by (rule DirTree_serialize_roundtrip) (simp_all add: archive_lossless_tagged wf_tree_def)

text \<open>
  \<^verbatim>\<open>setHostID\<close> marks every node below the given one with the host id and changes neither
  the node's own mark nor the shape of the tree: the same paths exist, and they lead to nodes with
  the same name.
\<close>

lemma setHostID_marks_below:
  "(\<forall>m\<in>set (below (setHostID h n)). tn_host_id m = h) \<and>
   tn_host_id (setHostID h n) = tn_host_id n \<and> uniform (tn_children (setHostID h n)) \<and>
   (\<forall>ks. map_option tn_name (lookup_path (setHostID h n) ks) = map_option tn_name (lookup_path n ks))"
  using below_setHostID uniform_setHostID lookup_setHostID by auto

lemma find_loop_dotdot:
  "''..'' \<notin> set es \<Longrightarrow> find_loop root (es @ ''..'' # ds) (Some n) =
     (if lookup_path n (filter (\<lambda>e. e \<noteq> ''.'') es) = None then Inr None else Inl AssertFailed)"
  by (induction es arbitrary: n) (auto split: option.split)

lemma DirTree_find_absolute:
  assumes "path_elements path = ''/'' # es"
  shows "''..'' \<notin> set es \<Longrightarrow> DirTree_find path_elements path (Some r) = Inr (lookup_path r (filter (\<lambda>e. e \<noteq> ''.'') es))"
    and "es = es1 @ ''..'' # es2 \<Longrightarrow> ''..'' \<notin> set es1 \<Longrightarrow> DirTree_find path_elements path (Some r) =
      (if lookup_path r (filter (\<lambda>e. e \<noteq> ''.'') es1) = None then Inr None else Inl AssertFailed)"
  using assms by (simp_all add: DirTree_find_def find_loop_Some find_loop_dotdot)

lemma DirTree_deserialize_cases:
  "case DirTree_deserialize B s of Inl e \<Rightarrow> e = ArchiveException | Inr t \<Rightarrow> t = None \<or> wf_tree t"
proof (cases "DirTree_deserialize B s")
  case (Inl e)
  then show ?thesis by (auto simp: DirTree_deserialize_def archive_in_def of_option_def split: option.splits)
next
  case (Inr t)
  then show ?thesis using DirTree_deserialize_wf by (cases t) (auto simp: wf_tree_def)
qed

text \<open>
  \<^bold>\<open>C25\<close>. The representation of trees is a type, and each operation of the class is a function on it. For trees whose root exists and
  whose sets of children are strictly sorted at every level: \<^verbatim>\<open>merge\<close> returns such a tree, in which the entries of the old tree win;
  \<^verbatim>\<open>removeOf\<close> returns the tree with exactly the top entries of the host gone, \<^verbatim>\<open>removeNotOf\<close> the one with exactly these left;
  \<^verbatim>\<open>setHostID\<close> marks every node below the root and moves none; \<^verbatim>\<open>hasConflict\<close> returns no name. For an absolute path without \<^verbatim>\<open>..\<close>, \<^verbatim>\<open>find\<close>
  returns the node the elements lead to, with \<^verbatim>\<open>.\<close> left out, or a null pointer; at the first \<^verbatim>\<open>..\<close> it fails its assertion, unless the
  elements before it lead nowhere. A node it returns is well formed. Reading an archive from any octets throws the exception of the archive or
  returns a null root or such a tree.
\<close>

theorem DirTree_type_safe:
  assumes "wf_node r" and "wf_node q"
  shows "(\<exists>r'. DirTree_merge (Some q) (Some r) = Inr (Some r') \<and> wf_node r' \<and>
       (\<forall>k. set_find k (tn_children r') = (case set_find k (tn_children r) of None \<Rightarrow> set_find k (tn_children q) | Some c \<Rightarrow> Some c))) \<and>
    (let r' = with_children (filter (\<lambda>c. tn_host_id c \<noteq> h) (tn_children r)) r in DirTree_removeOf h (Some r) = Inr (Some r') \<and> wf_node r') \<and>
    (let r' = with_children (filter (\<lambda>c. tn_host_id c = h) (tn_children r)) r in DirTree_removeNotOf h (Some r) = Inr (Some r') \<and> wf_node r') \<and>
    (wf_node (setHostID h r) \<and> (\<forall>m\<in>set (below (setHostID h r)). tn_host_id m = h) \<and>
       (\<forall>ks. map_option tn_name (lookup_path (setHostID h r) ks) = map_option tn_name (lookup_path r ks))) \<and>
    DirTree_hasConflict (Some r) (Some q) = Inr [] \<and>
    (\<forall>es. path_elements path = ''/'' # es \<and> ''..'' \<notin> set es \<longrightarrow>
       DirTree_find path_elements path (Some r) = Inr (lookup_path r (filter (\<lambda>e. e \<noteq> ''.'') es))) \<and>
    (\<forall>es es'. path_elements path = ''/'' # es @ ''..'' # es' \<and> ''..'' \<notin> set es \<longrightarrow>
       DirTree_find path_elements path (Some r) = (if lookup_path r (filter (\<lambda>e. e \<noteq> ''.'') es) = None then Inr None else Inl AssertFailed)) \<and>
    (\<forall>n. DirTree_find path_elements path (Some r) = Inr (Some n) \<longrightarrow> wf_node n) \<and>
    (case DirTree_deserialize B s of Inl e \<Rightarrow> e = ArchiveException | Inr t \<Rightarrow> t = None \<or> wf_tree t)"
    (is "?merge \<and> ?of \<and> ?not_of \<and> ?mark \<and> ?conflict \<and> ?find \<and> ?dotdot \<and> ?found \<and> ?archive")
proof (intro conjI)
  note r = wf_nodeD [OF assms(1)] and q = wf_nodeD [OF assms(2)]
  have wf_filter: "wf_node (with_children (filter P (tn_children r)) r)" for P
    using r by (simp add: sorted_names_filter) (simp add: list_all_iff)
  show ?merge
    using r q by (intro exI [of _ "with_children (merge_loop (tn_children q) (tn_children r)) r"])
      (simp add: DirTree_merge_def set_find_merge inv_intros split: option.split)
  show ?of using wf_filter by (simp add: DirTree_removeOf_def removeOf_loop_eq)
  show ?not_of using wf_filter by (simp add: DirTree_removeNotOf_def removeNotOf_loop_eq)
  show "wf_node (setHostID h r)" using assms(1) by simp
  show "\<forall>m\<in>set (below (setHostID h r)). tn_host_id m = h" using below_setHostID by blast
  show "\<forall>ks. map_option tn_name (lookup_path (setHostID h r) ks) = map_option tn_name (lookup_path r ks)" using lookup_setHostID by blast
  show ?conflict by (simp add: DirTree_hasConflict_def it_range_def)
  show ?find using DirTree_find_absolute(1) by blast
  show ?dotdot using DirTree_find_absolute(2) by blast
  show ?found using find_loop_wf [of "Some r" "path_elements path" None] assms(1) by (simp add: DirTree_find_def)
  show ?archive by (rule DirTree_deserialize_cases)
qed

theorem DirTree_type_safe_witness:
  "DirTree_removeOf 1 (Some master_tree) = Inr (Some (with_children [] master_tree)) \<and>
   DirTree_removeNotOf 1 (Some master_tree) = Inr (Some master_tree) \<and>
   DirTree_find (\<lambda>_. [''/'', ''master_dir'', ''.'', ''master_file3'']) ''/master_dir/./master_file3'' (Some master_tree) =
     Inr (Some (sample_file 1 ''master_file3'')) \<and>
   DirTree_find (\<lambda>_. [''/'', ''master_dir'', ''..'', ''master_file1'']) ''/master_dir/../master_file1'' (Some master_tree) = Inl AssertFailed"
proof -
  let ?down = "\<lambda>_ :: string. [''/'', ''master_dir'', ''.'', ''master_file3'']" and ?up = "\<lambda>_ :: string. [''/'', ''master_dir'', ''..'', ''master_file1'']"
  have "filter (\<lambda>c. tn_host_id c \<noteq> 1) (tn_children master_tree) = []" "with_children (filter (\<lambda>c. tn_host_id c = 1) (tn_children master_tree)) master_tree = master_tree"
    "lookup_path master_tree [''master_dir'', ''master_file3''] = Some (sample_file 1 ''master_file3'')"
    by (simp_all add: sample_defs with_children_def)
  then have down: "DirTree_removeOf 1 (Some master_tree) = Inr (Some (with_children [] master_tree)) \<and> DirTree_removeNotOf 1 (Some master_tree) = Inr (Some master_tree) \<and>
      DirTree_find ?down ''/master_dir/./master_file3'' (Some master_tree) = Inr (Some (sample_file 1 ''master_file3''))"
    using DirTree_type_safe [OF sample_trees_ok(1,2), of 1 ?down "''/master_dir/./master_file3''" tagged_archive "[]"] by (simp add: Let_def)
  have "\<forall>es es'. ?up ''/master_dir/../master_file1'' = ''/'' # es @ ''..'' # es' \<and> ''..'' \<notin> set es \<longrightarrow>
      DirTree_find ?up ''/master_dir/../master_file1'' (Some master_tree) =
        (if lookup_path master_tree (filter (\<lambda>e. e \<noteq> ''.'') es) = None then Inr None else Inl AssertFailed)"
    using DirTree_type_safe [OF sample_trees_ok(1,2), of 1 ?up "''/master_dir/../master_file1''" tagged_archive "[]"] by (elim conjE)
  from spec [OF spec [OF this, of "[''master_dir'']"], of "[''master_file1'']"]
  have "DirTree_find ?up ''/master_dir/../master_file1'' (Some master_tree) = Inl AssertFailed" by (simp add: sample_defs)
  with down show ?thesis by blast
qed

end
