(* ===== verification/Host.thy ===== *)
theory Host
  imports Archive
begin

section \<open>host.h: the hosts of the group\<close>

text \<open>
  \<^verbatim>\<open>Hosts::Host\<close> is a record, \<^verbatim>\<open>Hosts\<close> the vector of hosts. By the comment on
  \<^verbatim>\<open>_hosts\<close>, entry 1 is the master's host and the entries from 2 on are those of the other
  nodes, in other words the index of a host is its id: \<open>hosts_indexed\<close>. Every client that reads
  \<^verbatim>\<open>_hosts[id]\<close> relies on it.
\<close>

subsection \<open>Definitions\<close>

record Host =
  h_id :: u64
  h_address :: string
  h_working_dir :: string
  h_tcp_port :: u16
  h_ssh_port :: u16

type_synonym Hosts = "Host list"

definition Hosts_size :: "Hosts \<Rightarrow> nat" where
  "Hosts_size hs = length hs"

definition Hosts_push :: "Host \<Rightarrow> Hosts \<Rightarrow> Hosts" where
  "Hosts_push h hs = hs @ [h]"

text \<open>\<^verbatim>\<open>operator[]\<close> of \<^verbatim>\<open>std::vector\<close> does not check the index: outside it is undefined.\<close>

definition Hosts_at :: "Hosts \<Rightarrow> u64 \<Rightarrow> Host result" where
  "Hosts_at hs n = (if unat n < length hs then Inr (hs ! unat n) else Inl OutOfBounds)"

definition Host_save :: "Host \<Rightarrow> arch list" where
  "Host_save h =
     [ANum (unat (h_id h)), AStr (h_address h), AStr (h_working_dir h),
      ANum (unat (h_tcp_port h)), ANum (unat (h_ssh_port h))]"

definition Host_load :: "arch list \<Rightarrow> Host option" where
  "Host_load ar =
     Option.bind (ld_word ar) (\<lambda>(i, ar).
     Option.bind (ld_str ar) (\<lambda>(a, ar).
     Option.bind (ld_str ar) (\<lambda>(w, ar).
     Option.bind (ld_word ar) (\<lambda>(t, ar).
     Option.bind (ld_word ar) (\<lambda>(s, ar).
       Some \<lparr>h_id = i, h_address = a, h_working_dir = w, h_tcp_port = t, h_ssh_port = s\<rparr>)))))"

definition Hosts_save :: "Hosts \<Rightarrow> arch list" where
  "Hosts_save hs = [ASeq (map Host_save hs)]"

definition Hosts_load :: "arch list \<Rightarrow> Hosts option" where
  "Hosts_load ar = Option.bind (ld_seq ar) (\<lambda>(ss, ar). those (map Host_load ss))"

definition Host_serialize :: "boost_archive \<Rightarrow> Host \<Rightarrow> bytes" where
  "Host_serialize B h = archive_out B Host_save h"

definition Host_deserialize :: "boost_archive \<Rightarrow> bytes \<Rightarrow> Host result" where
  "Host_deserialize B s = archive_in B Host_load s"

definition Hosts_serialize :: "boost_archive \<Rightarrow> Hosts \<Rightarrow> bytes" where
  "Hosts_serialize B hs = archive_out B Hosts_save hs"

definition Hosts_deserialize :: "boost_archive \<Rightarrow> bytes \<Rightarrow> Hosts result" where
  "Hosts_deserialize B s = archive_in B Hosts_load s"

text \<open>From index 1 on the index is the id; index 0 is not used for lookups.\<close>

definition hosts_indexed :: "Hosts \<Rightarrow> bool" where
  "hosts_indexed hs \<longleftrightarrow> (\<forall>i\<in>{1..<length hs}. unat (h_id (hs ! i)) = i)"

subsection \<open>Lemmas\<close>

lemma Host_load_save: "Host_load (Host_save h) = Some h"
  by (cases h) (simp add: Host_load_def Host_save_def)

lemma Hosts_load_save: "Hosts_load (Hosts_save hs) = Some hs"
  by (simp add: Hosts_load_def Hosts_save_def Host_load_save those_map_Some)

interpretation host_archive: serializable Host_save Host_load "\<lambda>_. True"
  by unfold_locales (rule Host_load_save)

interpretation hosts_archive: serializable Hosts_save Hosts_load "\<lambda>_. True"
  by unfold_locales (rule Hosts_load_save)

lemma Host_deserialize_serialize [codec_simps]:
  "archive_lossless B \<Longrightarrow> Host_deserialize B (Host_serialize B h) = Inr h"
  by (simp add: Host_deserialize_def Host_serialize_def host_archive.in_out)

lemma Hosts_deserialize_serialize [codec_simps]:
  "archive_lossless B \<Longrightarrow> Hosts_deserialize B (Hosts_serialize B hs) = Inr hs"
  by (simp add: Hosts_deserialize_def Hosts_serialize_def hosts_archive.in_out)

lemma Hosts_push_length [simp]: "length (Hosts_push h hs) = Suc (length hs)"
  by (simp add: Hosts_push_def)

lemma Hosts_at_push_old: "unat n < length hs \<Longrightarrow> Hosts_at (Hosts_push h hs) n = Hosts_at hs n"
  by (simp add: Hosts_at_def Hosts_push_def nth_append)

lemma Hosts_at_push_new: "unat n = length hs \<Longrightarrow> Hosts_at (Hosts_push h hs) n = Inr h"
  by (simp add: Hosts_at_def Hosts_push_def)

lemma hosts_indexed_push [inv_intros]:
  "hosts_indexed hs \<Longrightarrow> hs = [] \<or> unat (h_id h) = length hs \<Longrightarrow> hosts_indexed (Hosts_push h hs)"
  by (auto simp: hosts_indexed_def Hosts_push_def nth_append less_Suc_eq)

lemma hosts_indexed_at:
  "hosts_indexed hs \<Longrightarrow> 0 < unat n \<Longrightarrow> unat n < length hs \<Longrightarrow>
     \<exists>h. Hosts_at hs n = Inr h \<and> h_id h = n"
  by (auto simp: hosts_indexed_def Hosts_at_def Suc_le_eq word_unat_eq_iff)

subsection \<open>Properties\<close>

definition sample_host :: "u64 \<Rightarrow> Host" where
  "sample_host i =
     \<lparr>h_id = i, h_address = ''192.168.1.101'', h_working_dir = ''/master/'', h_tcp_port = 10000,
      h_ssh_port = 22\<rparr>"

text \<open>
  A host and a vector of hosts survive serialization, for every archive that returns the
  items it was given.
\<close>

theorem Hosts_serialize_roundtrip:
  assumes "archive_lossless B"
  shows "Host_deserialize B (Host_serialize B h) = Inr h \<and>
         Hosts_deserialize B (Hosts_serialize B hs) = Inr hs"
  using assms by (simp add: codec_simps)

theorem Hosts_serialize_roundtrip_witness:
  "Host_deserialize tagged_archive (Host_serialize tagged_archive (sample_host 1)) = Inr (sample_host 1) \<and>
   Hosts_deserialize tagged_archive (Hosts_serialize tagged_archive [sample_host 1, sample_host 1])
     = Inr [sample_host 1, sample_host 1]"
  by (rule Hosts_serialize_roundtrip) (rule archive_lossless_tagged)

end
