(* ===== verification/Bytes_Order.thy ===== *)
theory Bytes_Order
  imports Gsfs_Prelude
begin

section \<open>bytes_order.h: numbers on the wire\<close>

text \<open>
  The conversions of \<^verbatim>\<open>src/bytes_order.h\<close> between integers and octet sequences, for 16, 32
  and 64 bits, in the form that returns a \<^verbatim>\<open>std::string\<close> and in the form that writes
  through a pointer. The locale \<open>wire_num\<close> is the contract the packet layer and the protocol
  parser rely on; it is interpreted for the three widths, the 64-bit one with the side
  condition the code really needs.
\<close>

subsection \<open>Definitions\<close>

text \<open>\<open>octet host s\<close> is the C++ expression \<^verbatim>\<open>host >> s & 0xff\<close> stored in an octet.\<close>

definition octet :: "'a::len word \<Rightarrow> nat \<Rightarrow> u8" where
  "octet host s = ucast (drop_bit s host AND 0xff)"

definition host_to_network_16_ptr :: "bytes \<Rightarrow> u16 \<Rightarrow> bytes result" where
  "host_to_network_16_ptr network host =
     (if length network < 2 then Inl OutOfBounds
      else Inr (network[0 := octet host 0, 1 := octet host 8]))"

definition host_to_network_16 :: "u16 \<Rightarrow> bytes" where
  "host_to_network_16 host = [octet host 0, octet host 8]"

text \<open>
  The operands \<^verbatim>\<open>network[i]\<close> are promoted to the 32-bit type \<^verbatim>\<open>int\<close> before they are
  shifted; the result is converted to the type of the target.
\<close>

definition network_to_host_16 :: "bytes \<Rightarrow> u16 result" where
  "network_to_host_16 network =
     (if length network < 2 then Inl OutOfBounds
      else Inr (ucast ((ucast (network ! 0) :: u32) OR push_bit 8 (ucast (network ! 1)))))"

definition host_to_network_32_ptr :: "bytes \<Rightarrow> u32 \<Rightarrow> bytes result" where
  "host_to_network_32_ptr network host =
     (if length network < 4 then Inl OutOfBounds
      else Inr (network[0 := octet host 0, 1 := octet host 8, 2 := octet host 16,
                        3 := octet host 24]))"

definition host_to_network_32 :: "u32 \<Rightarrow> bytes" where
  "host_to_network_32 host = [octet host 0, octet host 8, octet host 16, octet host 24]"

definition network_to_host_32 :: "bytes \<Rightarrow> u32 result" where
  "network_to_host_32 network =
     (if length network < 4 then Inl OutOfBounds
      else Inr (push_bit 0 (ucast (network ! 0)) OR push_bit 8 (ucast (network ! 1)) OR
                push_bit 16 (ucast (network ! 2)) OR push_bit 24 (ucast (network ! 3))))"

definition host_to_network_64_ptr :: "bytes \<Rightarrow> u64 \<Rightarrow> bytes result" where
  "host_to_network_64_ptr network host =
     (if length network < 8 then Inl OutOfBounds
      else Inr (network[0 := octet host 0, 1 := octet host 8, 2 := octet host 16,
                        3 := octet host 24, 4 := octet host 32, 5 := octet host 40,
                        6 := octet host 48, 7 := octet host 56]))"

definition host_to_network_64 :: "u64 \<Rightarrow> bytes" where
  "host_to_network_64 host =
     [octet host 0, octet host 8, octet host 16, octet host 24,
      octet host 32, octet host 40, octet host 48, octet host 56]"

text \<open>
  The 64-bit reader takes \<^verbatim>\<open>network[6]\<close> for both of the two highest octets and never looks
  at \<^verbatim>\<open>network[7]\<close>, so seven readable octets are enough for it.
\<close>

definition network_to_host_64 :: "bytes \<Rightarrow> u64 result" where
  "network_to_host_64 network =
     (if length network < 7 then Inl OutOfBounds
      else Inr (push_bit 0 (ucast (network ! 0)) OR push_bit 8 (ucast (network ! 1)) OR
                push_bit 16 (ucast (network ! 2)) OR push_bit 24 (ucast (network ! 3)) OR
                push_bit 32 (ucast (network ! 4)) OR push_bit 40 (ucast (network ! 5)) OR
                push_bit 48 (ucast (network ! 6)) OR push_bit 56 (ucast (network ! 6))))"

text \<open>The values the 64-bit pair carries unchanged: the two highest octets agree.\<close>

definition wire_safe :: "u64 \<Rightarrow> bool" where
  "wire_safe x \<longleftrightarrow> octet x 56 = octet x 48"

subsection \<open>Bits of octets\<close>

lemma bit_octet [bit_simps]: "bit (octet w s) n \<longleftrightarrow> n < 8 \<and> bit w (s + n)"
proof -
  have *: "(0xff :: 'a word) = mask 8"
    by (simp add: mask_eq_exp_minus_1)
  show ?thesis
    unfolding octet_def * by (auto simp: bit_simps dest: bit_imp_le_length)
qed

lemma octet_eq_iff: "octet v s = octet w t \<longleftrightarrow> (\<forall>n<8. bit v (s + n) = bit w (t + n))"
  by (auto simp: bit_eq_iff bit_octet)

text \<open>Shifting an octet back to its place recovers exactly that field of the number.\<close>

lemma bit_push_octet:
  "bit (push_bit s (ucast (octet w t) :: 'b::len word)) n \<longleftrightarrow>
     n < LENGTH('b) \<and> s \<le> n \<and> n < s + 8 \<and> bit w (n - s + t)"
  by (auto simp: bit_simps ac_simps)

lemma bit_ucast_octet:
  "bit (ucast (octet w t) :: 'b::len word) n \<longleftrightarrow> n < LENGTH('b) \<and> n < 8 \<and> bit w (n + t)"
  using bit_push_octet [of 0 w t n, where 'b = 'b] by simp

lemma octet_small:
  assumes "unat w < 2 ^ s" and "s \<le> t"
  shows "octet w t = 0"
proof (rule bit_word_eqI)
  fix n
  have "(2::nat) ^ s \<le> 2 ^ (t + n)"
    using assms(2) by (intro power_increasing) auto
  with assms(1) have "unat w div 2 ^ (t + n) = 0"
    by (intro div_less) linarith
  then have "\<not> bit (unat w) (t + n)"
    by (simp add: bit_iff_odd)
  then show "bit (octet w t) n \<longleftrightarrow> bit (0 :: u8) n"
    by (simp add: bit_octet bit_unsigned_iff)
qed

lemma wire_safe_small: "unat x < 2 ^ 48 \<Longrightarrow> wire_safe x"
  by (simp add: wire_safe_def octet_small [of _ 48])

subsection \<open>The contract of a number on the wire\<close>

text \<open>
  \<open>enc\<close> writes a number in \<open>width\<close> octets and \<open>dec\<close> reads it back from the front of
  any longer buffer, for the numbers that are \<open>ok\<close>.
\<close>

locale wire_num =
  fixes enc :: "'a \<Rightarrow> bytes"
    and dec :: "bytes \<Rightarrow> 'a result"
    and ok :: "'a \<Rightarrow> bool"
    and width :: nat
  assumes dec_enc: "ok x \<Longrightarrow> dec (enc x @ rest) = Inr x"
    and length_enc: "length (enc x) = width"
begin

lemma dec_enc_exact: "ok x \<Longrightarrow> dec (enc x) = Inr x"
  using dec_enc [of x "[]"] by simp

lemma enc_eqD:
  assumes "ok x" and "ok y" and eq: "enc x = enc y"
  shows "x = y"
  by (rule Inr_eqD [OF dec_enc_exact [OF assms(1)]]) (unfold eq, rule dec_enc_exact [OF assms(2)])

lemma enc_inj_on: "inj_on enc {x. ok x}"
  by (rule inj_onI) (rule enc_eqD, simp_all)

lemma enc_prefix_free:
  assumes "ok x" and "ok y" and eq: "enc x @ xs = enc y @ ys"
  shows "x = y \<and> xs = ys"
proof -
  from eq have "enc x = enc y" and "xs = ys"
    by (simp_all add: length_enc append_eq_append_conv)
  with enc_eqD [OF assms(1,2)] show ?thesis by blast
qed

text \<open>Reading a field and stepping over it: the idiom of the protocol parser.\<close>

lemma read_field:
  "ok x \<Longrightarrow> res_bind (dec (enc x @ rest)) (\<lambda>v. res_bind (advance width (enc x @ rest)) (f v)) = f x rest"
  by (simp add: dec_enc advance_def length_enc)

end

subsection \<open>The three widths\<close>

lemma network_to_host_16_host_to_network_16:
  "network_to_host_16 (host_to_network_16 x @ rest) = Inr x"
proof -
  have "ucast ((ucast (octet x 0) :: u32) OR push_bit 8 (ucast (octet x 8))) = x"
    by (rule bit_word_eqI) (auto simp: bit_simps)
  then show ?thesis
    by (simp add: network_to_host_16_def host_to_network_16_def)
qed

lemma network_to_host_32_host_to_network_32:
  "network_to_host_32 (host_to_network_32 x @ rest) = Inr x"
proof -
  have "push_bit 0 (ucast (octet x 0)) OR push_bit 8 (ucast (octet x 8)) OR
        push_bit 16 (ucast (octet x 16)) OR push_bit 24 (ucast (octet x 24)) = x" (is "?w = x")
  proof (rule bit_word_eqI)
    fix n :: nat assume "n < LENGTH(32)"
    then consider "n < 8" | "8 \<le> n" "n < 16" | "16 \<le> n" "n < 24" | "24 \<le> n" "n < 32"
      by fastforce
    then show "bit ?w n = bit x n"
      by cases (auto simp: bit_or_iff bit_push_octet bit_ucast_octet)
  qed
  then show ?thesis
    by (simp add: network_to_host_32_def host_to_network_32_def)
qed

text \<open>What the 64-bit reader makes of the octets the writer produced, bit by bit.\<close>

definition wire_image :: "u64 \<Rightarrow> u64" where
  "wire_image x =
     push_bit 0 (ucast (octet x 0)) OR push_bit 8 (ucast (octet x 8)) OR
     push_bit 16 (ucast (octet x 16)) OR push_bit 24 (ucast (octet x 24)) OR
     push_bit 32 (ucast (octet x 32)) OR push_bit 40 (ucast (octet x 40)) OR
     push_bit 48 (ucast (octet x 48)) OR push_bit 56 (ucast (octet x 48))"

lemma bit_wire_image:
  "n < 64 \<Longrightarrow> bit (wire_image x) n \<longleftrightarrow> bit x (if n < 56 then n else n - 8)"
proof -
  assume "n < 64"
  then consider "n < 8" | "8 \<le> n" "n < 16" | "16 \<le> n" "n < 24" | "24 \<le> n" "n < 32"
    | "32 \<le> n" "n < 40" | "40 \<le> n" "n < 48" | "48 \<le> n" "n < 56" | "56 \<le> n" "n < 64"
    by linarith
  then show ?thesis
    by cases (auto simp: wire_image_def bit_or_iff bit_push_octet bit_ucast_octet)
qed

lemma network_to_host_64_host_to_network_64:
  "network_to_host_64 (host_to_network_64 x @ rest) = Inr (wire_image x)"
  by (simp add: network_to_host_64_def host_to_network_64_def wire_image_def)

lemma wire_image_fixed_octets:
  assumes "wire_image x = x" and "k < 8"
  shows "bit x (56 + k) = bit x (48 + k)"
  using bit_wire_image [of "56 + k" x] assms by simp

lemma wire_safe_bits:
  assumes "wire_safe x" and "n < 64" and "56 \<le> n"
  shows "bit x (n - 8) = bit x n"
proof -
  obtain k where "n = 56 + k"
    using assms(3) le_Suc_ex by blast
  with assms show ?thesis
    by (simp add: wire_safe_def octet_eq_iff)
qed

lemma wire_image_safe: "wire_safe x \<Longrightarrow> wire_image x = x"
  by (rule bit_word_eqI) (simp add: bit_wire_image wire_safe_bits)

lemma wire_image_eq_iff: "wire_image x = x \<longleftrightarrow> wire_safe x"
proof
  show "wire_safe x" if "wire_image x = x"
    unfolding wire_safe_def octet_eq_iff using wire_image_fixed_octets [OF that] by blast
qed (rule wire_image_safe)

interpretation wire16: wire_num host_to_network_16 network_to_host_16 "\<lambda>_. True" 2
  by unfold_locales (rule network_to_host_16_host_to_network_16, simp add: host_to_network_16_def)

interpretation wire32: wire_num host_to_network_32 network_to_host_32 "\<lambda>_. True" 4
  by unfold_locales (rule network_to_host_32_host_to_network_32, simp add: host_to_network_32_def)

interpretation wire64: wire_num host_to_network_64 network_to_host_64 wire_safe 8
proof unfold_locales
  show "network_to_host_64 (host_to_network_64 x @ rest) = Inr x" if "wire_safe x" for x rest
    using that by (simp add: network_to_host_64_host_to_network_64 wire_image_eq_iff)
qed (simp add: host_to_network_64_def)

lemmas [codec_simps] = wire16.dec_enc wire32.dec_enc wire64.dec_enc
  wire16.dec_enc_exact wire32.dec_enc_exact wire64.dec_enc_exact
  wire16.length_enc wire32.length_enc wire64.length_enc

lemma unat_octet: "unat (octet w s) = unat w div 2 ^ s mod 256"
proof -
  have *: "(0xff :: 'a word) = mask 8"
    by (simp add: mask_eq_exp_minus_1)
  have "unat (octet w s) = take_bit 8 (drop_bit s (unat w))"
    unfolding octet_def *
    by (simp add: unsigned_ucast_eq unsigned_and_eq unsigned_drop_bit_eq flip: take_bit_eq_mask)
      (rule bit_eqI, auto simp: bit_simps)
  then show ?thesis
    by (simp add: take_bit_eq_mod drop_bit_eq_div)
qed

subsection \<open>Properties\<close>

text \<open>
  \<^bold>\<open>C28\<close>. The 64-bit conversion pair returns a number unchanged exactly when the two highest octets
  of the number are equal. (The reader uses \<^verbatim>\<open>network[6]\<close> where \<^verbatim>\<open>network[7]\<close> is
  meant, \<^verbatim>\<open>src/bytes_order.h\<close> line 122.)
\<close>

theorem wire64_roundtrip_iff:
  "network_to_host_64 (host_to_network_64 x @ rest) = Inr x \<longleftrightarrow> octet x 56 = octet x 48"
  by (simp add: network_to_host_64_host_to_network_64 wire_image_eq_iff wire_safe_def)

text \<open>
  Every number below 2 to the 48, so every length and every host id that occurs in
  practice, survives the 64-bit round trip, whatever follows it in the buffer.
\<close>

lemma wire64_roundtrip_small:
  assumes "unat x < 2 ^ 48"
  shows "network_to_host_64 (host_to_network_64 x @ rest) = Inr x"
  by (rule wire64.dec_enc [OF wire_safe_small [OF assms]])

text \<open>
  The 16-bit and the 32-bit pairs lose nothing, for every number.
\<close>

lemma wire16_wire32_roundtrip:
  "network_to_host_16 (host_to_network_16 x @ rest) = Inr x \<and>
   network_to_host_32 (host_to_network_32 y @ rest) = Inr y"
  by (simp add: wire16.dec_enc wire32.dec_enc)

text \<open>
  \<^bold>\<open>C40\<close>. The layout on the wire is little-endian: octet \<open>k\<close> of the sequence is digit \<open>k\<close>, from the
  least significant one, of the number in base 256. (\<^verbatim>\<open>src/tcp_messager.h\<close> line 29 and the
  name of the header call it big-endian, the network order.)
\<close>

theorem wire64_little_endian:
  assumes "k < 8"
  shows "unat (host_to_network_64 x ! k) = unat x div 256 ^ k mod 256"
proof -
  have "host_to_network_64 x ! k = octet x (8 * k)"
    using assms by (auto simp: host_to_network_64_def less_Suc_eq numeral_eq_Suc)
  then show ?thesis
    by (simp add: unat_octet power_mult)
qed

theorem wire64_little_endian_witness:
  "unat (host_to_network_64 0x0102 ! 1) = unat (0x0102 :: u64) div 256 ^ 1 mod 256"
  by (rule wire64_little_endian) simp

text \<open>
  The pointer form of the 64-bit writer stores the octets of the string form at the front of
  the target and leaves the rest of it alone.
\<close>

lemma host_to_network_64_ptr_eq:
  assumes "8 \<le> length dst"
  shows "host_to_network_64_ptr dst x = Inr (host_to_network_64 x @ drop 8 dst)"
proof -
  obtain a b c d e f g h rest where "dst = a # b # c # d # e # f # g # h # rest"
    using assms by (auto simp: numeral_eq_Suc Suc_le_length_iff)
  then show ?thesis
    by (simp add: host_to_network_64_ptr_def host_to_network_64_def)
qed

end
