(* ===== verification/Tcp_Messager.thy ===== *)
theory Tcp_Messager
  imports Bytes_Order
begin

section \<open>tcp_messager.h, tcp_messager.cc: packets, connections, send queues\<close>

text \<open>
  \<^verbatim>\<open>Packet\<close>, the state of the two messagers and the operations that stay inside them. The
  completion handlers, which call back into the manager and the file system, are in theory
  \<open>Tcp_Callbacks\<close>.

  Boost.Asio is not part of the repository. What the messagers ask of it is recorded in the state:
  \<open>read_op\<close> is the outstanding \<^verbatim>\<open>async_read\<close> of a connection, the writing flag says that an
  \<^verbatim>\<open>async_write\<close> of the front of the queue is outstanding, and closures given to
  \<^verbatim>\<open>io_service::post\<close> wait in a list. The service runs the closures and completion handlers
  one at a time on the thread of the messager.

  The list \<^verbatim>\<open>_connections\<close> only ever grows, at the front, and its iterators are never
  invalidated: a connection is known by its age. The model keeps the list oldest first, so that the
  handle of a connection is its index; \<^verbatim>\<open>begin()\<close> is the last element.

  The locale \<open>send_queue\<close> is the contract of a queue with at most one write under way. It is
  interpreted for the connections of the master and for the slave.
\<close>

subsection \<open>Packet\<close>

record Packet =
  pkt_size :: u64
  pkt_data :: bytes

definition Packet_new :: Packet where
  "Packet_new = \<lparr>pkt_size = 0, pkt_data = []\<rparr>"

definition Packet_encodeData :: "bytes \<Rightarrow> Packet" where
  "Packet_encodeData data =
     (let n = of_nat (length data)
      in \<lparr>pkt_size = n + 8, pkt_data = host_to_network_64 n @ data\<rparr>)"

definition Packet_decodeSize :: "bytes \<Rightarrow> Packet \<Rightarrow> Packet result" where
  "Packet_decodeSize hdr p =
     res_bind (network_to_host_64 hdr) (\<lambda>n. Inr (p\<lparr>pkt_size := n\<rparr>))"

definition Packet_setData :: "bytes \<Rightarrow> Packet \<Rightarrow> Packet result" where
  "Packet_setData data p =
     res_bind (read_n (unat (pkt_size p)) data) (\<lambda>d. Inr (p\<lparr>pkt_data := d\<rparr>))"

definition Packet_sizeLength :: nat where
  "Packet_sizeLength = 8"

text \<open>What \<^verbatim>\<open>asio::buffer(p.data(), p.size())\<close> hands to the network.\<close>

definition Packet_wire :: "Packet \<Rightarrow> bytes" where
  "Packet_wire p = take (unat (pkt_size p)) (c_str (pkt_data p))"

subsection \<open>State\<close>

datatype read_op = NoRead | ReadHeader | ReadBody

record master_conn =
  mc_open :: bool
  mc_buffer :: bytes
  mc_packet :: Packet
  mc_queue :: "Packet list"
  mc_slave_id :: u64
  mc_read :: read_op
  mc_writing :: bool

datatype master_post = PostWrite Packet | PostWriteTo Packet nat | PostStop

record TCPMasterMessager =
  mm_endpoints :: "string list"
  mm_accepting :: bool
  mm_stopped :: bool
  mm_connections :: "master_conn list"
  mm_posted :: "master_post list"

datatype slave_post = SlavePostWrite Packet | SlavePostStop

record TCPSlaveMessager =
  sm_endpoints :: "string list"
  sm_connecting :: bool
  sm_stopped :: bool
  sm_open :: bool
  sm_buffer :: bytes
  sm_packet :: Packet
  sm_queue :: "Packet list"
  sm_read :: read_op
  sm_writing :: bool
  sm_posted :: "slave_post list"

definition TCPMasterMessager_new :: TCPMasterMessager where
  "TCPMasterMessager_new =
     \<lparr>mm_endpoints = [], mm_accepting = False, mm_stopped = False, mm_connections = [],
      mm_posted = []\<rparr>"

definition TCPSlaveMessager_new :: TCPSlaveMessager where
  "TCPSlaveMessager_new =
     \<lparr>sm_endpoints = [], sm_connecting = False, sm_stopped = False, sm_open = False,
      sm_buffer = [], sm_packet = Packet_new, sm_queue = [], sm_read = NoRead,
      sm_writing = False, sm_posted = []\<rparr>"

subsection \<open>The slave's messager\<close>

text \<open>
  The resolver is a parameter: it returns the end points of an address and port, and whether
  there was an error.
\<close>

definition TCPSlaveMessager_init ::
    "(string \<Rightarrow> u16 \<Rightarrow> string list \<times> bool) \<Rightarrow> string \<Rightarrow> u16 \<Rightarrow> TCPSlaveMessager
       \<Rightarrow> bool \<times> TCPSlaveMessager" where
  "TCPSlaveMessager_init resolve addr port m =
     (let (eps, ec) = resolve addr port in (ec, m\<lparr>sm_endpoints := eps\<rparr>))"

definition slave_do_connect :: "TCPSlaveMessager \<Rightarrow> TCPSlaveMessager" where
  "slave_do_connect m = m\<lparr>sm_connecting := True, sm_open := True\<rparr>"

definition TCPSlaveMessager_start :: "TCPSlaveMessager \<Rightarrow> TCPSlaveMessager" where
  "TCPSlaveMessager_start m = slave_do_connect m"

definition TCPSlaveMessager_stop :: "TCPSlaveMessager \<Rightarrow> TCPSlaveMessager" where
  "TCPSlaveMessager_stop m = m\<lparr>sm_posted := sm_posted m @ [SlavePostStop]\<rparr>"

definition TCPSlaveMessager_write :: "Packet \<Rightarrow> TCPSlaveMessager \<Rightarrow> TCPSlaveMessager" where
  "TCPSlaveMessager_write p m = m\<lparr>sm_posted := sm_posted m @ [SlavePostWrite p]\<rparr>"

definition slave_do_write :: "TCPSlaveMessager \<Rightarrow> TCPSlaveMessager" where
  "slave_do_write m = m\<lparr>sm_writing := True\<rparr>"

text \<open>The closure \<^verbatim>\<open>write\<close> posts.\<close>

definition slave_enqueue :: "Packet \<Rightarrow> TCPSlaveMessager \<Rightarrow> TCPSlaveMessager" where
  "slave_enqueue p m =
     (let write_in_progress = sm_queue m \<noteq> [];
          m' = m\<lparr>sm_queue := sm_queue m @ [p]\<rparr>
      in if \<not> write_in_progress then slave_do_write m' else m')"

definition slave_do_read_header :: "TCPSlaveMessager \<Rightarrow> TCPSlaveMessager result" where
  "slave_do_read_header m =
     res_bind (vec_resize Packet_sizeLength (sm_buffer m)) (\<lambda>b.
       Inr (m\<lparr>sm_buffer := b, sm_read := ReadHeader\<rparr>))"

definition slave_do_read_body :: "TCPSlaveMessager \<Rightarrow> TCPSlaveMessager result" where
  "slave_do_read_body m =
     res_bind (vec_resize (unat (pkt_size (sm_packet m))) (sm_buffer m)) (\<lambda>b.
       Inr (m\<lparr>sm_buffer := b, sm_read := ReadBody\<rparr>))"

text \<open>The branch of the write handler for a complete write.\<close>

definition slave_write_finished :: "TCPSlaveMessager \<Rightarrow> TCPSlaveMessager" where
  "slave_write_finished m =
     (let m' = m\<lparr>sm_queue := tl (sm_queue m), sm_writing := False\<rparr>
      in if sm_queue m' \<noteq> [] then slave_do_write m' else m')"

subsection \<open>The master's messager\<close>

definition TCPMasterMessager_init ::
    "(string \<Rightarrow> u16 \<Rightarrow> string list \<times> bool) \<Rightarrow> string \<Rightarrow> u16 \<Rightarrow> TCPMasterMessager
       \<Rightarrow> bool \<times> TCPMasterMessager" where
  "TCPMasterMessager_init resolve addr port m =
     (let (eps, ec) = resolve addr port;
          m' = m\<lparr>mm_endpoints := eps\<rparr>
      in case eps of
           [] \<Rightarrow> (True, m')
         | [e] \<Rightarrow> (ec, m')
         | _ \<Rightarrow> (True, m'))"

text \<open>
  \<open>listen_error\<close> is the error code after opening, configuring, binding and listening; the
  service runs, and accepts, only without an error.
\<close>

definition TCPMasterMessager_start :: "bool \<Rightarrow> TCPMasterMessager \<Rightarrow> TCPMasterMessager" where
  "TCPMasterMessager_start listen_error m =
     (if listen_error then m else m\<lparr>mm_accepting := True\<rparr>)"

definition TCPMasterMessager_stop :: "TCPMasterMessager \<Rightarrow> TCPMasterMessager" where
  "TCPMasterMessager_stop m = m\<lparr>mm_posted := mm_posted m @ [PostStop]\<rparr>"

definition TCPMasterMessager_write :: "Packet \<Rightarrow> TCPMasterMessager \<Rightarrow> TCPMasterMessager" where
  "TCPMasterMessager_write p m = m\<lparr>mm_posted := mm_posted m @ [PostWrite p]\<rparr>"

definition TCPMasterMessager_writeTo :: "Packet \<Rightarrow> nat \<Rightarrow> TCPMasterMessager \<Rightarrow> TCPMasterMessager" where
  "TCPMasterMessager_writeTo p h m = m\<lparr>mm_posted := mm_posted m @ [PostWriteTo p h]\<rparr>"

definition conn_do_write :: "master_conn \<Rightarrow> master_conn" where
  "conn_do_write c = c\<lparr>mc_writing := True\<rparr>"

definition conn_enqueue :: "Packet \<Rightarrow> master_conn \<Rightarrow> master_conn" where
  "conn_enqueue p c =
     (let write_in_progress = mc_queue c \<noteq> [];
          c' = c\<lparr>mc_queue := mc_queue c @ [p]\<rparr>
      in if \<not> write_in_progress then conn_do_write c' else c')"

text \<open>
  The closures of \<^verbatim>\<open>write\<close> (all open connections) and \<^verbatim>\<open>writeTo\<close> (one connection, open or
  not). A handle that is no index does not occur: handles come from the list itself.
\<close>

definition run_write :: "Packet \<Rightarrow> TCPMasterMessager \<Rightarrow> TCPMasterMessager" where
  "run_write p m =
     m\<lparr>mm_connections := map (\<lambda>c. if mc_open c then conn_enqueue p c else c) (mm_connections m)\<rparr>"

definition run_writeTo :: "Packet \<Rightarrow> nat \<Rightarrow> TCPMasterMessager \<Rightarrow> TCPMasterMessager" where
  "run_writeTo p h m =
     (if h < length (mm_connections m)
      then m\<lparr>mm_connections := (mm_connections m)[h := conn_enqueue p (mm_connections m ! h)]\<rparr>
      else m)"

definition conn_do_read_header :: "master_conn \<Rightarrow> master_conn result" where
  "conn_do_read_header c =
     res_bind (vec_resize Packet_sizeLength (mc_buffer c)) (\<lambda>b.
       Inr (c\<lparr>mc_buffer := b, mc_read := ReadHeader\<rparr>))"

definition conn_do_read_body :: "master_conn \<Rightarrow> master_conn result" where
  "conn_do_read_body c =
     res_bind (vec_resize (unat (pkt_size (mc_packet c))) (mc_buffer c)) (\<lambda>b.
       Inr (c\<lparr>mc_buffer := b, mc_read := ReadBody\<rparr>))"

definition conn_write_finished :: "master_conn \<Rightarrow> master_conn" where
  "conn_write_finished c =
     (let c' = c\<lparr>mc_queue := tl (mc_queue c), mc_writing := False\<rparr>
      in if mc_queue c' \<noteq> [] then conn_do_write c' else c')"

text \<open>The part of \<^verbatim>\<open>close\<close> before the callback: the socket and the queue.\<close>

definition conn_close :: "master_conn \<Rightarrow> master_conn" where
  "conn_close c = c\<lparr>mc_open := False, mc_queue := []\<rparr>"

text \<open>A freshly accepted connection, before its first header is requested.\<close>

definition conn_new :: master_conn where
  "conn_new =
     \<lparr>mc_open = True, mc_buffer = [], mc_packet = Packet_new, mc_queue = [], mc_slave_id = 0,
      mc_read = NoRead, mc_writing = False\<rparr>"

definition do_new_connection :: "master_conn \<Rightarrow> master_conn result" where
  "do_new_connection c = conn_do_read_header c"

text \<open>The handler of \<^verbatim>\<open>do_accept\<close>; it always asks for the next connection.\<close>

definition master_accept :: "bool \<Rightarrow> TCPMasterMessager \<Rightarrow> TCPMasterMessager result" where
  "master_accept ec m =
     (if \<not> ec then
        res_bind (do_new_connection conn_new) (\<lambda>c.
          Inr (m\<lparr>mm_connections := mm_connections m @ [c], mm_accepting := True\<rparr>))
      else Inr (m\<lparr>mm_accepting := True\<rparr>))"

subsection \<open>The contract of a send queue\<close>

text \<open>
  \<open>push\<close> adds a packet and starts a write if none is under way, \<open>finish\<close> is the completion of
  the write of the front. While the connection is \<open>live\<close>, a write is under way exactly when the
  queue is not empty.
\<close>

datatype 'p queue_event = Push 'p | Finish

locale send_queue =
  fixes push :: "'p \<Rightarrow> 's \<Rightarrow> 's"
    and finish :: "'s \<Rightarrow> 's"
    and queue :: "'s \<Rightarrow> 'p list"
    and writing :: "'s \<Rightarrow> bool"
  assumes queue_push: "queue (push p s) = queue s @ [p]"
    and writing_push: "writing s = (queue s \<noteq> []) \<Longrightarrow> writing (push p s)"
    and queue_finish: "queue (finish s) = tl (queue s)"
    and writing_finish: "writing (finish s) \<longleftrightarrow> tl (queue s) \<noteq> []"
begin

definition in_step :: "'s \<Rightarrow> bool" where
  "in_step s \<longleftrightarrow> writing s = (queue s \<noteq> [])"

lemma in_step_push: "in_step s \<Longrightarrow> in_step (push p s)"
  by (simp add: in_step_def queue_push writing_push)

lemma in_step_finish: "in_step (finish s)"
  by (simp add: in_step_def queue_finish writing_finish)

text \<open>
  A run of pushes and completions; the packets that went out are collected in order. A completion
  can only be reported for a write that is under way.
\<close>

fun run :: "'p queue_event list \<Rightarrow> 's \<Rightarrow> 'p list \<times> 's" where
  "run [] s = ([], s)"
| "run (Push p # es) s = run es (push p s)"
| "run (Finish # es) s =
     (if writing s \<and> queue s \<noteq> []
      then (let (out, s') = run es (finish s) in (hd (queue s) # out, s'))
      else run es s)"

lemma run_fifo:
  "fst (run es s) @ queue (snd (run es s)) = queue s @ concat (map (\<lambda>e. case e of Push p \<Rightarrow> [p] | Finish \<Rightarrow> []) es)"
  by (induction es s rule: run.induct) (auto simp: queue_push queue_finish split: prod.splits)

lemma run_in_step: "in_step s \<Longrightarrow> in_step (snd (run es s))"
  by (induction es s rule: run.induct) (auto simp: in_step_push in_step_finish split: prod.splits)

text \<open>As many completions as packets wait empty the queue.\<close>

lemma run_drain:
  "in_step s \<Longrightarrow> run (replicate (length (queue s)) Finish) s = (queue s, (finish ^^ length (queue s)) s)"
proof (induction "length (queue s)" arbitrary: s)
  case (Suc n)
  then obtain p ps where ps: "queue s = p # ps" "length ps = n"
    by (cases "queue s") auto
  then have "run (replicate n Finish) (finish s) = (ps, (finish ^^ n) (finish s))"
    using Suc.hyps(1) [of "finish s"] in_step_finish by (simp add: queue_finish)
  with Suc.prems ps show ?case
    by (simp add: in_step_def funpow_swap1)
qed simp

end

interpretation master_queue: send_queue conn_enqueue conn_write_finished mc_queue mc_writing
  by unfold_locales
    (simp_all add: conn_enqueue_def conn_write_finished_def conn_do_write_def Let_def)

interpretation slave_queue: send_queue slave_enqueue slave_write_finished sm_queue sm_writing
  by unfold_locales
    (simp_all add: slave_enqueue_def slave_write_finished_def slave_do_write_def Let_def)

subsection \<open>Framing\<close>

lemma unat_of_nat_small: "n < 2 ^ 48 \<Longrightarrow> unat (of_nat n :: u64) = n"
  by (simp add: unat_of_nat)

lemma Packet_size_small: "length m < 2 ^ 48 \<Longrightarrow> unat (pkt_size (Packet_encodeData m)) = length m + 8"
  by (simp add: Packet_encodeData_def Let_def unat_word_ariths unat_of_nat_small)

lemma Packet_wire_encode:
  "length m < 2 ^ 48 \<Longrightarrow>
     Packet_wire (Packet_encodeData m) = host_to_network_64 (of_nat (length m)) @ m"
  by (simp add: Packet_wire_def Packet_size_small)
    (simp add: Packet_encodeData_def Let_def c_str_def wire64.length_enc)

lemma decode_header:
  "length m < 2 ^ 48 \<Longrightarrow>
     Packet_decodeSize (host_to_network_64 (of_nat (length m))) p = Inr (p\<lparr>pkt_size := of_nat (length m)\<rparr>)"
  using wire64.dec_enc_exact [OF wire_safe_small [of "of_nat (length m)"]]
  by (simp add: Packet_decodeSize_def unat_of_nat_small)

text \<open>
  The receiving side alternates between a header of fixed length and a body of the announced
  length. \<open>receive_loop\<close> is that alternation over the octets that have arrived so far, with the
  packet object that is used over and over; it stops where more octets are needed.
\<close>

function receive_loop :: "bytes \<Rightarrow> Packet \<Rightarrow> Packet list \<times> bytes" where
  "receive_loop s p =
     (if length s < Packet_sizeLength then ([], s)
      else case Packet_decodeSize (take Packet_sizeLength s) p of
             Inl e \<Rightarrow> ([], s)
           | Inr p1 \<Rightarrow>
               (let body = drop Packet_sizeLength s; n = unat (pkt_size p1)
                in if length body < n then ([], s)
                   else case Packet_setData (take n body) p1 of
                          Inl e \<Rightarrow> ([], s)
                        | Inr p2 \<Rightarrow>
                            (let (ps, r) = receive_loop (drop n body) p2 in (p2 # ps, r))))"
  by pat_completeness auto
termination
  by (relation "measure (\<lambda>(s, p). length s)") (auto simp: Packet_sizeLength_def)

declare receive_loop.simps [simp del]

lemma receive_loop_packet:
  assumes "length m < 2 ^ 48"
  shows "receive_loop (Packet_wire (Packet_encodeData m) @ s) p =
     (let q = \<lparr>pkt_size = of_nat (length m), pkt_data = m\<rparr>; (ps, r) = receive_loop s q in (q # ps, r))"
  using assms
  by (cases p, subst receive_loop.simps)
    (simp add: Let_def Packet_wire_encode Packet_sizeLength_def wire64.length_enc decode_header
      unat_of_nat_small Packet_setData_def read_n_def)

lemma receive_loop_short: "length s < 8 \<Longrightarrow> receive_loop s p = ([], s)"
  by (subst receive_loop.simps) (simp add: Packet_sizeLength_def)

subsection \<open>Properties\<close>

text \<open>
  \<^bold>\<open>C24\<close>. Framing: a receiver that runs the header and body cycle over the octets of any sequence of
  packets, as the sender puts them on the stream one after the other, gets the messages back, one
  packet each, in order and with nothing left over. The messages are assumed shorter than 2 to the
  48, the range in which the length field survives.
\<close>

theorem packet_framing:
  assumes "\<forall>m\<in>set ms. length m < 2 ^ 48"
  shows "receive_loop (concat (map (\<lambda>m. Packet_wire (Packet_encodeData m)) ms)) p =
           (map (\<lambda>m. \<lparr>pkt_size = of_nat (length m), pkt_data = m\<rparr>) ms, [])"
  using assms
  by (induction ms arbitrary: p) (simp_all add: receive_loop_short receive_loop_packet)

theorem packet_framing_witness:
  "receive_loop (concat (map (\<lambda>m. Packet_wire (Packet_encodeData m)) [[1, 2, 3], []])) Packet_new =
     (map (\<lambda>m. \<lparr>pkt_size = of_nat (length m), pkt_data = m\<rparr>) [[1, 2, 3], []], [])"
  by (rule packet_framing) simp

text \<open>
  The send queue of a connection of the master is first in, first out: over any sequence of
  pushes and write completions, what has gone out followed by what still waits is what waited at
  the start followed by what was pushed, in this order; and a write is under way exactly when
  something waits, if that was so at the start.
\<close>

theorem master_send_queue_fifo:
  assumes "mc_writing c = (mc_queue c \<noteq> [])"
  shows "fst (master_queue.run es c) @ mc_queue (snd (master_queue.run es c))
           = mc_queue c @ concat (map (\<lambda>e. case e of Push p \<Rightarrow> [p] | Finish \<Rightarrow> []) es) \<and>
         mc_writing (snd (master_queue.run es c)) = (mc_queue (snd (master_queue.run es c)) \<noteq> [])"
  using master_queue.run_fifo [of es c] master_queue.run_in_step [of c es] assms
  by (simp add: master_queue.in_step_def)

theorem master_send_queue_fifo_witness:
  "fst (master_queue.run [Push Packet_new, Finish] conn_new)
     @ mc_queue (snd (master_queue.run [Push Packet_new, Finish] conn_new)) = [Packet_new]"
  using master_send_queue_fifo [of conn_new "[Push Packet_new, Finish]"]
  by (simp add: conn_new_def)

end
