(* ===== verification/Tcp_Manager.thy ===== *)
theory Tcp_Manager
  imports Tcp_Messager
begin

section \<open>tcp_manager.h, tcp_manager.cc: the manager of the connections\<close>

text \<open>
  \<^verbatim>\<open>TCPManager\<close> owns the messager of the node's role and turns messages into packets. Here are
  its own state and operations, and the two steps its parser is made of: a number, and a length
  followed by that many octets. The parser proper, \<^verbatim>\<open>read\<close>, calls the file system and is in
  theory \<open>Tcp_Callbacks\<close>.

  The thread a manager starts is not state of the model: \<open>TCPManager_start\<close> performs what the
  thread does before it enters the event loop of the service.
\<close>

subsection \<open>Definitions\<close>

record TCPManager =
  tm_is_master :: bool
  tm_is_slave :: bool
  tm_master :: "TCPMasterMessager option"
  tm_slave :: "TCPSlaveMessager option"

definition TCPManager_new :: TCPManager where
  "TCPManager_new = \<lparr>tm_is_master = False, tm_is_slave = False, tm_master = None, tm_slave = None\<rparr>"

definition TCPManager_initialize ::
    "(string \<Rightarrow> u16 \<Rightarrow> string list \<times> bool) \<Rightarrow> bool \<Rightarrow> string \<Rightarrow> u16 \<Rightarrow> TCPManager
       \<Rightarrow> bool \<times> TCPManager" where
  "TCPManager_initialize resolve is_master addr port tm =
     (if is_master then
        let (err, m) = TCPMasterMessager_init resolve addr port TCPMasterMessager_new
        in (err, tm\<lparr>tm_is_master := True, tm_master := Some m, tm_slave := None\<rparr>)
      else
        let (err, m) = TCPSlaveMessager_init resolve addr port TCPSlaveMessager_new
        in (err, tm\<lparr>tm_is_slave := True, tm_master := None, tm_slave := Some m\<rparr>))"

definition TCPManager_start :: "bool \<Rightarrow> TCPManager \<Rightarrow> TCPManager result" where
  "TCPManager_start listen_error tm =
     (if tm_is_master tm then
        res_bind (of_option NullDeref (tm_master tm)) (\<lambda>m.
          Inr (tm\<lparr>tm_master := Some (TCPMasterMessager_start listen_error m)\<rparr>))
      else if tm_is_slave tm then
        res_bind (of_option NullDeref (tm_slave tm)) (\<lambda>m.
          Inr (tm\<lparr>tm_slave := Some (TCPSlaveMessager_start m)\<rparr>))
      else Inr tm)"

text \<open>The destructor stops the messagers that exist, then waits for the thread.\<close>

definition TCPManager_stop :: "TCPManager \<Rightarrow> TCPManager" where
  "TCPManager_stop tm =
     tm\<lparr>tm_master := map_option TCPMasterMessager_stop (tm_master tm),
        tm_slave := map_option TCPSlaveMessager_stop (tm_slave tm)\<rparr>"

definition TCPManager_write :: "bytes \<Rightarrow> TCPManager \<Rightarrow> TCPManager result" where
  "TCPManager_write message tm =
     (let packet = Packet_encodeData message
      in if tm_is_master tm then
           res_bind (of_option NullDeref (tm_master tm)) (\<lambda>m.
             Inr (tm\<lparr>tm_master := Some (TCPMasterMessager_write packet m)\<rparr>))
         else if tm_is_slave tm then
           res_bind (of_option NullDeref (tm_slave tm)) (\<lambda>m.
             Inr (tm\<lparr>tm_slave := Some (TCPSlaveMessager_write packet m)\<rparr>))
         else Inr tm)"

definition TCPManager_writeTo :: "bytes \<Rightarrow> nat \<Rightarrow> TCPManager \<Rightarrow> TCPManager result" where
  "TCPManager_writeTo message h tm =
     res_bind (of_option NullDeref (tm_master tm)) (\<lambda>m.
       Inr (tm\<lparr>tm_master := Some (TCPMasterMessager_writeTo (Packet_encodeData message) h m)\<rparr>))"

text \<open>
  \<open>read_u64\<close> is \<^verbatim>\<open>network_to_host_64(data)\<close> and \<^verbatim>\<open>data += sizeof(uint64_t)\<close>;
  \<open>read_seq\<close> is such a number \<open>n\<close>, \<^verbatim>\<open>std::string(data, n)\<close> and \<^verbatim>\<open>data += n\<close>.
\<close>

definition read_u64 :: "bytes \<Rightarrow> (u64 \<times> bytes) result" where
  "read_u64 data =
     res_bind (network_to_host_64 data) (\<lambda>n.
     res_bind (advance 8 data) (\<lambda>data. Inr (n, data)))"

definition read_seq :: "bytes \<Rightarrow> (bytes \<times> bytes) result" where
  "read_seq data =
     res_bind (read_u64 data) (\<lambda>(n, data).
     res_bind (read_n (unat n) data) (\<lambda>s.
     res_bind (advance (unat n) data) (\<lambda>data. Inr (s, data))))"

text \<open>The sending side of \<open>read_seq\<close>.\<close>

definition put_len_seq :: "bytes \<Rightarrow> bytes" where
  "put_len_seq s = host_to_network_64 (of_nat (length s)) @ s"

subsection \<open>Lemmas\<close>

lemma read_u64_append [codec_simps]:
  "wire_safe n \<Longrightarrow> read_u64 (host_to_network_64 n @ rest) = Inr (n, rest)"
  by (simp add: read_u64_def wire64.dec_enc wire64.length_enc)

lemma read_seq_append [codec_simps]:
  assumes "length s < 2 ^ 48"
  shows "read_seq (put_len_seq s @ rest) = Inr (s, rest)"
proof -
  have "unat (of_nat (length s) :: u64) = length s"
    using assms by (rule unat_of_nat_small)
  moreover from this have "wire_safe (of_nat (length s))"
    using assms by (intro wire_safe_small) simp
  ultimately show ?thesis
    using assms by (simp add: read_seq_def put_len_seq_def read_u64_append)
qed

lemma wire_safe_numeral [codec_simps]: "wire_safe 0" "wire_safe 1" "wire_safe 2"
  by (simp_all add: wire_safe_small)

text \<open>A buffer that is too short is read out of bounds.\<close>

lemma read_u64_short: "length data < 7 \<Longrightarrow> read_u64 data = Inl OutOfBounds"
  by (simp add: read_u64_def network_to_host_64_def)

lemma TCPManager_write_master:
  "tm_is_master tm \<Longrightarrow> tm_master tm = Some m \<Longrightarrow>
     TCPManager_write msg tm = Inr (tm\<lparr>tm_master := Some (TCPMasterMessager_write (Packet_encodeData msg) m)\<rparr>)"
  by (simp add: TCPManager_write_def)

lemma TCPManager_write_slave:
  "\<not> tm_is_master tm \<Longrightarrow> tm_is_slave tm \<Longrightarrow> tm_slave tm = Some m \<Longrightarrow>
     TCPManager_write msg tm = Inr (tm\<lparr>tm_slave := Some (TCPSlaveMessager_write (Packet_encodeData msg) m)\<rparr>)"
  by (simp add: TCPManager_write_def)

end
