(* ===== verification/Libssh_Wrapper.thy ===== *)
theory Libssh_Wrapper
  imports Gsfs_Prelude
begin

section \<open>libssh_wrapper.h, libssh_wrapper.cc: one SFTP session\<close>

text \<open>
  \<^verbatim>\<open>SSHSession\<close> keeps three pointers of the libssh library and the path of the file that is open.
  The constructor does not initialise the pointers, so a pointer is \<open>Uninit\<close>, \<open>Null\<close> or the
  address of an object; a test of an indeterminate pointer, or passing it on, is a crash.

  libssh is not part of the repository. Its functions are the fields of a record \<open>libssh\<close>, an
  argument of every operation; they act on a state of the library and the network, of any type.
  A function that reports success or failure returns a truth value, true for success.
\<close>

subsection \<open>Definitions\<close>

datatype ptr = Uninit | Null | Ptr nat

record 'w libssh =
  l_ssh_new :: "'w \<Rightarrow> nat option \<times> 'w"
  l_ssh_options_set_host :: "nat \<Rightarrow> string \<Rightarrow> 'w \<Rightarrow> bool \<times> 'w"
  l_ssh_options_set_port :: "nat \<Rightarrow> u32 \<Rightarrow> 'w \<Rightarrow> bool \<times> 'w"
  l_ssh_connect :: "nat \<Rightarrow> 'w \<Rightarrow> bool \<times> 'w"
  l_ssh_userauth_publickey_auto :: "nat \<Rightarrow> 'w \<Rightarrow> bool \<times> 'w"
  l_sftp_new :: "nat \<Rightarrow> 'w \<Rightarrow> nat option \<times> 'w"
  l_sftp_init :: "nat \<Rightarrow> 'w \<Rightarrow> bool \<times> 'w"
  l_sftp_open :: "nat \<Rightarrow> string \<Rightarrow> 'w \<Rightarrow> nat option \<times> 'w"
  l_sftp_seek64 :: "nat \<Rightarrow> u64 \<Rightarrow> 'w \<Rightarrow> bool \<times> 'w"
  l_sftp_read :: "nat \<Rightarrow> u64 \<Rightarrow> 'w \<Rightarrow> (int \<times> bytes) \<times> 'w"
  l_sftp_close :: "nat \<Rightarrow> 'w \<Rightarrow> 'w"
  l_sftp_free :: "nat \<Rightarrow> 'w \<Rightarrow> 'w"
  l_ssh_disconnect :: "nat option \<Rightarrow> 'w \<Rightarrow> 'w"
  l_ssh_free :: "nat option \<Rightarrow> 'w \<Rightarrow> 'w"

record SSHSession =
  ss_address :: string
  ss_port :: u32
  ss_ssh_session :: ptr
  ss_sftp_session :: ptr
  ss_file_handle :: ptr
  ss_file_open :: string

definition SSHSession_new :: "string \<Rightarrow> u16 \<Rightarrow> SSHSession" where
  "SSHSession_new host port =
     \<lparr>ss_address = host, ss_port = ucast port, ss_ssh_session = Uninit, ss_sftp_session = Uninit,
      ss_file_handle = Uninit, ss_file_open = []\<rparr>"

text \<open>The test \<^verbatim>\<open>if (p)\<close> and the passing of a pointer that may be null.\<close>

fun ptr_test :: "ptr \<Rightarrow> nat option result" where
  "ptr_test Uninit = Inl UninitRead"
| "ptr_test Null = Inr None"
| "ptr_test (Ptr a) = Inr (Some a)"

definition ptr_of :: "nat option \<Rightarrow> ptr" where
  "ptr_of m = (case m of None \<Rightarrow> Null | Some a \<Rightarrow> Ptr a)"

definition SSHSession_disconnect :: "'w libssh \<Rightarrow> SSHSession \<Rightarrow> 'w \<Rightarrow> (SSHSession \<times> 'w) result" where
  "SSHSession_disconnect L s w =
     res_bind (ptr_test (ss_file_handle s)) (\<lambda>f.
     res_bind (ptr_test (ss_sftp_session s)) (\<lambda>t.
     res_bind (ptr_test (ss_ssh_session s)) (\<lambda>h.
       let w = (case f of None \<Rightarrow> w | Some a \<Rightarrow> l_sftp_close L a w);
           w = (case t of None \<Rightarrow> w | Some a \<Rightarrow> l_sftp_free L a w);
           w = l_ssh_disconnect L h w;
           w = l_ssh_free L h w
       in Inr (s\<lparr>ss_file_open := [], ss_file_handle := Null, ss_sftp_session := Null,
                 ss_ssh_session := Null\<rparr>, w))))"

text \<open>The destructor; what is left is the state of the library.\<close>

definition SSHSession_destroy :: "'w libssh \<Rightarrow> SSHSession \<Rightarrow> 'w \<Rightarrow> 'w result" where
  [simp]: "SSHSession_destroy L s w = res_bind (SSHSession_disconnect L s w) (\<lambda>(s, w). Inr w)"

text \<open>\<open>do_connect\<close> returns true on error, like the source; each step that fails ends it.\<close>

definition SSHSession_do_connect ::
    "'w libssh \<Rightarrow> string \<Rightarrow> SSHSession \<Rightarrow> 'w \<Rightarrow> bool \<times> SSHSession \<times> 'w" where
  "SSHSession_do_connect L path s w =
     (case l_ssh_new L w of
        (None, w) \<Rightarrow> (True, s\<lparr>ss_ssh_session := Null\<rparr>, w)
      | (Some h, w) \<Rightarrow>
          let s = s\<lparr>ss_ssh_session := Ptr h\<rparr>;
              (ok1, w) = l_ssh_options_set_host L h (ss_address s) w;
              (ok2, w) = (if ok1 then l_ssh_options_set_port L h (ss_port s) w else (False, w))
          in if \<not> (ok1 \<and> ok2) then (True, s, w) else
          let (ok, w) = l_ssh_connect L h w in if \<not> ok then (True, s, w) else
          let (ok, w) = l_ssh_userauth_publickey_auto L h w in if \<not> ok then (True, s, w) else
          let (t, w) = l_sftp_new L h w; s = s\<lparr>ss_sftp_session := ptr_of t\<rparr> in
          (case t of None \<Rightarrow> (True, s, w)
           | Some t \<Rightarrow>
               let (ok, w) = l_sftp_init L t w in if \<not> ok then (True, s, w) else
               let (f, w) = l_sftp_open L t path w; s = s\<lparr>ss_file_handle := ptr_of f\<rparr> in
               (case f of None \<Rightarrow> (True, s, w)
                | Some f \<Rightarrow> (False, s\<lparr>ss_file_open := path\<rparr>, w))))"

definition SSHSession_connect ::
    "'w libssh \<Rightarrow> string \<Rightarrow> SSHSession \<Rightarrow> 'w \<Rightarrow> (bool \<times> SSHSession \<times> 'w) result" where
  "SSHSession_connect L path s w =
     (let (err, s, w) = SSHSession_do_connect L path s w
      in if err then res_bind (SSHSession_disconnect L s w) (\<lambda>(s, w). Inr (True, s, w))
         else Inr (False, s, w))"

text \<open>The result is the number of octets read, or a negative number, and the octets.\<close>

definition SSHSession_do_read ::
    "'w libssh \<Rightarrow> u64 \<Rightarrow> u64 \<Rightarrow> SSHSession \<Rightarrow> 'w \<Rightarrow> ((int \<times> bytes) \<times> 'w) result" where
  "SSHSession_do_read L offset n s w =
     res_bind (ptr_test (ss_file_handle s)) (\<lambda>f.
     res_bind (of_option NullDeref f) (\<lambda>f.
       let (ok, w) = l_sftp_seek64 L f offset w
       in if \<not> ok then Inr ((-1, []), w) else Inr (l_sftp_read L f n w)))"

definition SSHSession_fresh_read ::
    "'w libssh \<Rightarrow> string \<Rightarrow> u64 \<Rightarrow> u64 \<Rightarrow> SSHSession \<Rightarrow> 'w
       \<Rightarrow> ((int \<times> bytes) \<times> SSHSession \<times> 'w) result" where
  "SSHSession_fresh_read L path offset n s w =
     res_bind (SSHSession_connect L path s w) (\<lambda>(err, s, w).
       if err then Inr ((-1, []), s, w)
       else res_bind (SSHSession_do_read L offset n s w) (\<lambda>((k, d), w).
         if k \<ge> 0 then Inr ((k, d), s, w)
         else res_bind (SSHSession_disconnect L s w) (\<lambda>(s, w). Inr ((k, d), s, w))))"

definition SSHSession_read ::
    "'w libssh \<Rightarrow> string \<Rightarrow> u64 \<Rightarrow> u64 \<Rightarrow> SSHSession \<Rightarrow> 'w
       \<Rightarrow> ((int \<times> bytes) \<times> SSHSession \<times> 'w) result" where
  "SSHSession_read L path offset n s w =
     res_bind (if ss_file_open s = path then ptr_test (ss_sftp_session s) else Inr None) (\<lambda>t.
       if t \<noteq> None then
         res_bind (SSHSession_do_read L offset n s w) (\<lambda>((k, d), w).
           if k \<ge> 0 then Inr ((k, d), s, w)
           else res_bind (SSHSession_disconnect L s w) (\<lambda>(s, w).
                  SSHSession_fresh_read L path offset n s w))
       else SSHSession_fresh_read L path offset n s w)"

text \<open>
  The states a session can be in between calls: never connected, closed, or open on a file.
\<close>

definition session_closed :: "SSHSession \<Rightarrow> bool" where
  "session_closed s \<longleftrightarrow>
     ss_ssh_session s = Null \<and> ss_sftp_session s = Null \<and> ss_file_handle s = Null \<and>
     ss_file_open s = []"

definition session_open :: "string \<Rightarrow> SSHSession \<Rightarrow> bool" where
  "session_open path s \<longleftrightarrow>
     (\<exists>h. ss_ssh_session s = Ptr h) \<and> (\<exists>t. ss_sftp_session s = Ptr t) \<and>
     (\<exists>f. ss_file_handle s = Ptr f) \<and> ss_file_open s = path"

definition session_good :: "SSHSession \<Rightarrow> bool" where
  "session_good s \<longleftrightarrow> session_closed s \<or> session_open (ss_file_open s) s"

definition session_inited :: "SSHSession \<Rightarrow> bool" where
  "session_inited s \<longleftrightarrow>
     ss_ssh_session s \<noteq> Uninit \<and> ss_sftp_session s \<noteq> Uninit \<and> ss_file_handle s \<noteq> Uninit"

subsection \<open>Lemmas\<close>

lemmas session_defs = session_closed_def session_open_def session_good_def session_inited_def

lemma ptr_of_ne_Uninit [simp]: "ptr_of m \<noteq> Uninit"
  by (cases m) (simp_all add: ptr_of_def)

lemma ptr_of_Some [simp]: "ptr_of (Some a) = Ptr a"
  by (simp add: ptr_of_def)

lemma ptr_test_ok: "p \<noteq> Uninit \<Longrightarrow> \<exists>m. ptr_test p = Inr m"
  by (cases p) auto

lemma session_good_inited: "session_good s \<Longrightarrow> session_inited s"
  by (auto simp: session_defs)

lemma disconnect_ok:
  assumes "session_inited s"
  shows "\<exists>s' w'. SSHSession_disconnect L s w = Inr (s', w') \<and> session_closed s' \<and>
    ss_address s' = ss_address s \<and> ss_port s' = ss_port s"
proof -
  obtain f t h where "ptr_test (ss_file_handle s) = Inr f" "ptr_test (ss_sftp_session s) = Inr t"
      "ptr_test (ss_ssh_session s) = Inr h"
    using assms ptr_test_ok unfolding session_inited_def by metis
  then show ?thesis
    by (simp add: SSHSession_disconnect_def session_closed_def Let_def)
qed

text \<open>
  What an attempt to connect leaves behind: on success an open session on the path, on failure
  pointers that are initialised if they were before.
\<close>

lemma do_connect_cases:
  assumes "SSHSession_do_connect L path s w = (err, s', w')"
  shows "ss_address s' = ss_address s \<and> ss_port s' = ss_port s \<and>
    (err \<or> session_open path s') \<and> (session_inited s \<longrightarrow> session_inited s')"
  using assms
  by (auto simp: SSHSession_do_connect_def session_open_def session_inited_def Let_def ptr_of_def
      split: prod.splits option.splits if_splits)

lemma connect_ok:
  assumes "session_inited s"
  shows "\<exists>err s' w'. SSHSession_connect L path s w = Inr (err, s', w') \<and>
    (if err then session_closed s' else session_open path s') \<and>
    ss_address s' = ss_address s \<and> ss_port s' = ss_port s"
proof -
  obtain err s1 w1 where c: "SSHSession_do_connect L path s w = (err, s1, w1)"
    by (metis prod_cases3)
  note c' = do_connect_cases [OF c]
  show ?thesis
  proof (cases err)
    case True
    with c' assms have "session_inited s1" by simp
    then obtain s2 w2 where "SSHSession_disconnect L s1 w1 = Inr (s2, w2)" "session_closed s2"
        "ss_address s2 = ss_address s1" "ss_port s2 = ss_port s1"
      using disconnect_ok [of s1 L w1] by blast
    with c True c' show ?thesis by (auto simp: SSHSession_connect_def)
  next
    case False
    with c c' show ?thesis by (auto simp: SSHSession_connect_def)
  qed
qed

lemma do_read_ok: "session_open path s \<Longrightarrow> \<exists>k d w'. SSHSession_do_read L offset n s w = Inr ((k, d), w')"
  by (auto simp: session_open_def SSHSession_do_read_def split: prod.splits) (metis surj_pair)

definition read_outcome :: "string \<Rightarrow> SSHSession \<Rightarrow> ((int \<times> bytes) \<times> SSHSession \<times> 'w) result \<Rightarrow> bool" where
  "read_outcome path s r \<longleftrightarrow>
     (\<exists>k d s' w'. r = Inr ((k, d), s', w') \<and>
        (if 0 \<le> k then session_open path s' else session_closed s') \<and>
        ss_address s' = ss_address s \<and> ss_port s' = ss_port s)"

lemma fresh_read_outcome:
  assumes "session_inited s"
  shows "read_outcome path s (SSHSession_fresh_read L path offset n s w)"
proof -
  obtain err s1 w1 where c: "SSHSession_connect L path s w = Inr (err, s1, w1)"
    and c1: "if err then session_closed s1 else session_open path s1"
    and c2: "ss_address s1 = ss_address s" "ss_port s1 = ss_port s"
    using connect_ok [OF assms, of L path w] by blast
  show ?thesis
  proof (cases err)
    case True
    with c c1 c2 show ?thesis by (simp add: SSHSession_fresh_read_def read_outcome_def)
  next
    case False
    with c1 have o: "session_open path s1" by simp
    then obtain k d w2 where r: "SSHSession_do_read L offset n s1 w1 = Inr ((k, d), w2)"
      using do_read_ok [of path s1 L offset n w1] by blast
    from o have "session_inited s1" by (auto simp: session_defs)
    from disconnect_ok [OF this, of L w2] c c2 False o r show ?thesis
      by (auto simp: SSHSession_fresh_read_def read_outcome_def)
  qed
qed

lemma read_cached:
  "session_open path s \<Longrightarrow>
     SSHSession_read L path offset n s w =
       res_bind (SSHSession_do_read L offset n s w) (\<lambda>((k, d), w).
         if k \<ge> 0 then Inr ((k, d), s, w)
         else res_bind (SSHSession_disconnect L s w) (\<lambda>(s, w). SSHSession_fresh_read L path offset n s w))"
  by (auto simp: SSHSession_read_def session_open_def)

lemma read_uncached:
  "session_closed s \<or> ss_file_open s \<noteq> path \<Longrightarrow>
     SSHSession_read L path offset n s w = SSHSession_fresh_read L path offset n s w"
  by (auto simp: SSHSession_read_def session_closed_def)

lemma read_good_outcome:
  assumes "session_good s"
  shows "read_outcome path s (SSHSession_read L path offset n s w)"
proof (cases "session_open path s")
  case True
  then obtain k d w1 where r: "SSHSession_do_read L offset n s w = Inr ((k, d), w1)"
    using do_read_ok [of path s L offset n w] by blast
  obtain s2 w2 where d: "SSHSession_disconnect L s w1 = Inr (s2, w2)" and d1: "session_closed s2"
    and d2: "ss_address s2 = ss_address s" "ss_port s2 = ss_port s"
    using disconnect_ok [OF session_good_inited [OF assms], of L w1] by blast
  from d1 have "session_inited s2" by (simp add: session_defs)
  then have "read_outcome path s (SSHSession_fresh_read L path offset n s2 w2)"
    using fresh_read_outcome [of s2 path L offset n w2] d2 by (simp add: read_outcome_def)
  with True r d show ?thesis
    by (simp add: read_cached) (simp add: read_outcome_def)
next
  case False
  with assms have "session_closed s \<or> ss_file_open s \<noteq> path"
    by (auto simp: session_good_def)
  then show ?thesis
    using fresh_read_outcome [OF session_good_inited [OF assms], of path L offset n w]
    by (simp add: read_uncached)
qed

subsection \<open>Two concrete libraries\<close>

text \<open>
  \<open>tracking_libssh\<close> always succeeds. Its state is the number of the next session and the list of
  the SSH sessions that have been created and not freed; every file holds three octets.
  \<open>unreachable_libssh\<close> is the same except that no connection can be made.
\<close>

definition tracking_libssh :: "(nat \<times> nat list) libssh" where
  "tracking_libssh =
     \<lparr>l_ssh_new = (\<lambda>(n, live). (Some n, (Suc n, live @ [n]))),
      l_ssh_options_set_host = (\<lambda>h a w. (True, w)),
      l_ssh_options_set_port = (\<lambda>h p w. (True, w)),
      l_ssh_connect = (\<lambda>h w. (True, w)),
      l_ssh_userauth_publickey_auto = (\<lambda>h w. (True, w)),
      l_sftp_new = (\<lambda>h w. (Some h, w)),
      l_sftp_init = (\<lambda>t w. (True, w)),
      l_sftp_open = (\<lambda>t p w. (Some t, w)),
      l_sftp_seek64 = (\<lambda>f off w. (True, w)),
      l_sftp_read = (\<lambda>f k w. ((3, [1, 2, 3]), w)),
      l_sftp_close = (\<lambda>f w. w),
      l_sftp_free = (\<lambda>t w. w),
      l_ssh_disconnect = (\<lambda>h w. w),
      l_ssh_free = (\<lambda>h (n, live). (n, case h of None \<Rightarrow> live | Some a \<Rightarrow> filter (\<lambda>b. b \<noteq> a) live))\<rparr>"

definition unreachable_libssh :: "(nat \<times> nat list) libssh" where
  "unreachable_libssh = tracking_libssh\<lparr>l_ssh_connect := (\<lambda>h w. (False, w))\<rparr>"

definition closed_session :: SSHSession where
  "closed_session =
     (SSHSession_new ''10.0.0.2'' 22)\<lparr>ss_ssh_session := Null, ss_sftp_session := Null, ss_file_handle := Null\<rparr>"

lemma tracking_connect:
  "SSHSession_connect tracking_libssh path s (n, live) =
     Inr (False, s\<lparr>ss_ssh_session := Ptr n, ss_sftp_session := Ptr n, ss_file_handle := Ptr n, ss_file_open := path\<rparr>,
          (Suc n, live @ [n]))"
  by (simp add: SSHSession_connect_def SSHSession_do_connect_def tracking_libssh_def)

lemma tracking_read:
  "ss_file_open s \<noteq> path \<Longrightarrow> SSHSession_read tracking_libssh path off k s (n, live) =
     Inr ((3, [1, 2, 3]), s\<lparr>ss_ssh_session := Ptr n, ss_sftp_session := Ptr n, ss_file_handle := Ptr n, ss_file_open := path\<rparr>,
          (Suc n, live @ [n]))"
  by (simp add: SSHSession_read_def SSHSession_fresh_read_def tracking_connect SSHSession_do_read_def)
    (simp add: tracking_libssh_def)

subsection \<open>Properties\<close>

text \<open>
  A session that is closed or open on a file can always be read from: the call ends without a
  crash; a non-negative result leaves the session open on the requested path, a negative one
  leaves it closed; address and port stay as they are.
\<close>

theorem session_read_outcome:
  assumes "session_good s"
  shows "\<exists>k d s' w'. SSHSession_read L path offset n s w = Inr ((k, d), s', w') \<and>
           (if 0 \<le> k then session_open path s' else session_closed s') \<and>
           ss_address s' = ss_address s \<and> ss_port s' = ss_port s"
  using read_good_outcome [OF assms, of path L offset n w] by (simp add: read_outcome_def)

theorem session_read_outcome_witness:
  "\<exists>k d s' w'. SSHSession_read tracking_libssh ''/a'' 0 3 closed_session (0, []) = Inr ((k, d), s', w') \<and>
     (if 0 \<le> k then session_open ''/a'' s' else session_closed s') \<and>
     ss_address s' = ss_address closed_session \<and> ss_port s' = ss_port closed_session"
  by (rule session_read_outcome)
    (simp add: closed_session_def session_good_def session_closed_def SSHSession_new_def)

text \<open>
  Reading again from the file that is open uses the open handle: if seeking and reading
  succeed, the session is unchanged and nothing but these two calls reaches the library.
\<close>

lemma session_read_reuses_handle:
  assumes "session_open path s" and "ss_file_handle s = Ptr f"
    and "l_sftp_seek64 L f offset w = (True, w1)" and "l_sftp_read L f n w1 = ((k, d), w2)"
    and "0 \<le> k"
  shows "SSHSession_read L path offset n s w = Inr ((k, d), s, w2)"
  using assms by (simp add: read_cached SSHSession_do_read_def)

text \<open>
  The first read of a session from a host that cannot be reached does not return an error but
  makes a decision on an indeterminate pointer: the failed attempt to connect calls
  \<^verbatim>\<open>disconnect\<close>, which tests \<^verbatim>\<open>_file_handle\<close>, and nothing has set it.
\<close>

theorem unreachable_host_tests_indeterminate_pointer:
  assumes "l_ssh_new L w = (Some h, w1)"
    and "l_ssh_options_set_host L h a w1 = (True, w2)"
    and "l_ssh_options_set_port L h (ucast p) w2 = (True, w3)"
    and "l_ssh_connect L h w3 = (False, w4)"
    and "path \<noteq> []"
  shows "SSHSession_read L path offset n (SSHSession_new a p) w = Inl UninitRead"
  using assms
  by (simp add: SSHSession_read_def SSHSession_fresh_read_def SSHSession_connect_def
      SSHSession_do_connect_def SSHSession_disconnect_def SSHSession_new_def)

theorem unreachable_host_tests_indeterminate_pointer_witness:
  "SSHSession_read unreachable_libssh ''/a'' 0 3 (SSHSession_new ''10.0.0.2'' 22) (0, []) = Inl UninitRead"
  by (rule unreachable_host_tests_indeterminate_pointer
      [where h = 0 and ?w1.0 = "(1, [0])" and ?w2.0 = "(1, [0])" and ?w3.0 = "(1, [0])"
        and ?w4.0 = "(1, [0])"])
    (simp_all add: unreachable_libssh_def tracking_libssh_def)

text \<open>
  Changing the file leaks the SSH session of the previous file: after reading one path and then
  another through the same \<^verbatim>\<open>SSHSession\<close>, two library sessions are alive and only the second
  one is still referenced.
\<close>

theorem changing_file_leaks_session:
  "res_bind (SSHSession_read tracking_libssh ''/a'' 0 3 (SSHSession_new ''10.0.0.2'' 22) (0, []))
     (\<lambda>(r, s, w). SSHSession_read tracking_libssh ''/b'' 0 3 s w)
   = Inr ((3, [1, 2, 3]),
          \<lparr>ss_address = ''10.0.0.2'', ss_port = 22, ss_ssh_session = Ptr 1, ss_sftp_session = Ptr 1,
           ss_file_handle = Ptr 1, ss_file_open = ''/b''\<rparr>,
          (2, [0, 1]))"
  by (simp add: tracking_read SSHSession_new_def)

end
