(* ===== verification/Ssh_Manager.thy ===== *)
theory Ssh_Manager
  imports Libssh_Wrapper
begin

section \<open>ssh_manager.h: the SFTP sessions by host\<close>

text \<open>
  \<^verbatim>\<open>SSHManager\<close> maps host ids to sessions it has allocated. The map owns each session through
  one pointer only, so the model maps ids to the sessions themselves. A session that is replaced
  in the map is replaced as a whole, since \<^verbatim>\<open>read\<close> changes it in place.
\<close>

subsection \<open>Definitions\<close>

type_synonym SSHManager = "u64 \<Rightarrow> SSHSession option"

definition SSHManager_new :: SSHManager where
  "SSHManager_new = (\<lambda>_. None)"

definition SSHManager_findHost :: "u64 \<Rightarrow> SSHManager \<Rightarrow> bool" where
  "SSHManager_findHost i m \<longleftrightarrow> m i \<noteq> None"

text \<open>\<^verbatim>\<open>emplace\<close> keeps an entry that exists; the result is true in that case.\<close>

definition SSHManager_insertHost :: "u64 \<Rightarrow> string \<Rightarrow> u16 \<Rightarrow> SSHManager \<Rightarrow> bool \<times> SSHManager" where
  "SSHManager_insertHost i addr port m =
     (if m i = None then (False, m(i \<mapsto> SSHSession_new addr port)) else (True, m))"

definition SSHManager_removeHost :: "u64 \<Rightarrow> SSHManager \<Rightarrow> bool \<times> SSHManager" where
  "SSHManager_removeHost i m = (m i = None, m(i := None))"

definition SSHManager_read ::
    "'w libssh \<Rightarrow> u64 \<Rightarrow> string \<Rightarrow> u64 \<Rightarrow> u64 \<Rightarrow> SSHManager \<Rightarrow> 'w
       \<Rightarrow> ((int \<times> bytes) \<times> SSHManager \<times> 'w) result" where
  "SSHManager_read L i path offset n m w =
     (case m i of
        None \<Rightarrow> Inr ((-1, []), m, w)
      | Some s \<Rightarrow>
          res_bind (SSHSession_read L path offset n s w) (\<lambda>(r, s, w). Inr (r, m(i \<mapsto> s), w)))"

text \<open>The destructor deletes the sessions, in the order the map yields their ids.\<close>

fun SSHManager_destroy :: "'w libssh \<Rightarrow> u64 list \<Rightarrow> SSHManager \<Rightarrow> 'w \<Rightarrow> 'w result" where
  "SSHManager_destroy L [] m w = Inr w"
| "SSHManager_destroy L (i # is) m w =
     (case m i of
        None \<Rightarrow> SSHManager_destroy L is m w
      | Some s \<Rightarrow> res_bind (SSHSession_destroy L s w) (SSHManager_destroy L is m))"

subsection \<open>Properties\<close>

text \<open>
  The manager behaves as a map: a host is found after it was inserted and not after it was
  removed, inserting does not touch the other hosts, and inserting a host that is there changes
  nothing and reports it.
\<close>

lemma ssh_manager_map_laws:
  "SSHManager_findHost j (snd (SSHManager_insertHost i a p m)) = (j = i \<or> SSHManager_findHost j m) \<and>
   SSHManager_findHost j (snd (SSHManager_removeHost i m)) = (j \<noteq> i \<and> SSHManager_findHost j m) \<and>
   fst (SSHManager_insertHost i a p m) = SSHManager_findHost i m \<and>
   fst (SSHManager_removeHost i m) = (\<not> SSHManager_findHost i m) \<and>
   (if SSHManager_findHost i m then snd (SSHManager_insertHost i a p m) = m
    else snd (SSHManager_insertHost i a p m) i = Some (SSHSession_new a p))"
  by (auto simp: SSHManager_findHost_def SSHManager_insertHost_def SSHManager_removeHost_def)

text \<open>
  A session that was inserted and never read from makes the destructor of the manager decide on
  an indeterminate pointer. This is the fate of the session a node inserts for its own files, which
  it reads locally.
\<close>

theorem destroy_of_unused_session_crashes:
  "SSHManager_destroy L (i # is) (snd (SSHManager_insertHost i a p SSHManager_new)) w = Inl UninitRead"
  by (simp add: SSHManager_insertHost_def SSHManager_new_def SSHSession_new_def
      SSHSession_disconnect_def)

end
