(* ===== verification/User_Fs.thy ===== *)
theory User_Fs
  imports Dir_Tree Host Tcp_Manager Ssh_Manager
begin

section \<open>user_fs.h, user_fs.cc: the node\<close>

text \<open>
  \<^verbatim>\<open>UserFS\<close> is the state of a node: its tree, its hosts, the managers of its connections. Each
  operation of the class is one definition here. Operations that hold \<^verbatim>\<open>_access\<close> while they
  change the tree and the hosts do so in one step; the semaphore is a counter.

  Parameters stand for what lies outside: the archive, the resolver and the listening socket, the
  file system that is shared (a snapshot, \<open>dir_entry\<close>), the current time, libssh.

  The lemmas on scanning are here; the invariant of a master is in theory \<open>Master_Inv\<close>.
\<close>

subsection \<open>State\<close>

record UserFS =
  u_main_thread_is_waiting :: bool
  u_slave_wait_sem :: nat
  u_host_id :: u64
  u_working_dir :: string
  u_max_host_id :: u64
  u_dir_tree :: DirTree
  u_hosts :: Hosts
  u_tcp_manager :: TCPManager
  u_ssh_manager :: SSHManager

definition UserFS_new :: UserFS where
  "UserFS_new =
     \<lparr>u_main_thread_is_waiting = True, u_slave_wait_sem = 0, u_host_id = 0, u_working_dir = [],
      u_max_host_id = 2, u_dir_tree = None, u_hosts = [], u_tcp_manager = TCPManager_new,
      u_ssh_manager = SSHManager_new\<rparr>"

definition UserFS_setMaster :: "UserFS \<Rightarrow> UserFS" where
  "UserFS_setMaster fs = fs\<lparr>u_host_id := 1\<rparr>"

subsection \<open>Scanning the shared directory\<close>

text \<open>
  A snapshot of the shared directory as \<^verbatim>\<open>boost::filesystem\<close> shows it. \<open>None\<close> stands for a
  query that throws: the size of something that has none, a directory that cannot be listed. The type
  \<open>status_error\<close> stands for an entry whose type cannot be determined, for which \<^verbatim>\<open>symlink_status\<close> throws.
\<close>

datatype boost_file_type =
    directory_file | regular_file | character_file | block_file | fifo_file | symlink_file
  | socket_file | type_unknown | other_type | status_error

datatype dir_entry = Entry
  (e_name: string)
  (e_type: boost_file_type)
  (e_file_size: "u64 option")
  (e_last_write_time: "u64 option")
  (e_hard_link_count: "u64 option")
  (e_contents: "dir_entry list option")

fun treenode_type :: "boost_file_type \<Rightarrow> FileType" where
  "treenode_type directory_file = DIRECTORY"
| "treenode_type regular_file = REGULAR"
| "treenode_type character_file = CHRDEVICE"
| "treenode_type block_file = BLKDEVICE"
| "treenode_type fifo_file = FIFO"
| "treenode_type symlink_file = SYMLINK"
| "treenode_type socket_file = SOCKET"
| "treenode_type type_unknown = UNKNOWN"
| "treenode_type other_type = UNKNOWN"
| "treenode_type status_error = UNKNOWN"

text \<open>
  \<^verbatim>\<open>insert_rtv.first\<close> refers to the element of the set with the name; the recursion fills its
  children in place.
\<close>

definition children_at :: "string \<Rightarrow> TreeNode list \<Rightarrow> TreeNode list" where
  "children_at nm cs = (case set_find nm cs of None \<Rightarrow> [] | Some n \<Rightarrow> tn_children n)"

definition replace_children_at :: "string \<Rightarrow> TreeNode list \<Rightarrow> TreeNode list \<Rightarrow> TreeNode list" where
  "replace_children_at nm sub cs = map (\<lambda>n. if tn_name n = nm then with_children sub n else n) cs"

text \<open>
  \<open>junk p\<close> is the object \<^verbatim>\<open>TreeNode()\<close> yields for the entry with path \<open>p\<close>: the constructor
  sets no number, and \<^verbatim>\<open>uid\<close>, \<^verbatim>\<open>gid\<close>, \<^verbatim>\<open>atime\<close>, \<^verbatim>\<open>ctime\<close> stay as they happen to be.
\<close>

fun traverseDirectory ::
    "(string \<Rightarrow> TreeNode) \<Rightarrow> u64 \<Rightarrow> string \<Rightarrow> dir_entry list \<Rightarrow> TreeNode list \<Rightarrow> TreeNode list result" where
  "traverseDirectory junk h dir [] cs = Inr cs"
| "traverseDirectory junk h dir (Entry nm ty sz mt nl cont # es) cs =
     (let p = dir @ ''/'' @ nm; j = junk p; t = treenode_type ty
      in if ty = status_error then Inl FilesystemError
         else if t = UNKNOWN then traverseDirectory junk h dir es cs
         else if t = DIRECTORY then
           res_bind (of_option FilesystemError mt) (\<lambda>mt.
           res_bind (of_option FilesystemError nl) (\<lambda>nl.
             let dirnode = TreeNode t 0 (tn_uid j) (tn_gid j) (tn_atime j) mt (tn_ctime j) h nl nm [];
                 cs1 = set_insert dirnode cs
             in (case cont of
                   None \<Rightarrow> Inl FilesystemError
                 | Some sub_entries \<Rightarrow>
                     res_bind (traverseDirectory junk h p sub_entries (children_at nm cs1)) (\<lambda>sub.
                       traverseDirectory junk h dir es (replace_children_at nm sub cs1)))))
         else
           res_bind (of_option FilesystemError sz) (\<lambda>sz.
           res_bind (of_option FilesystemError mt) (\<lambda>mt.
           res_bind (of_option FilesystemError nl) (\<lambda>nl.
             let filenode = TreeNode t sz (tn_uid j) (tn_gid j) (tn_atime j) mt (tn_ctime j) h nl nm []
             in traverseDirectory junk h dir es (set_insert filenode cs)))))"

text \<open>
  \<open>absolute\<close> is the library function; \<open>root_links\<close> and \<open>entries\<close> are what the file system
  says about the directory itself, \<open>now\<close> is \<^verbatim>\<open>time(nullptr)\<close>.
\<close>

definition add_trailing_slash :: "string \<Rightarrow> string" where
  "add_trailing_slash d = (if d \<noteq> [] \<and> last d \<noteq> CHR ''/'' then d @ ''/'' else d)"

definition UserFS_initDirTree ::
    "(string \<Rightarrow> string) \<Rightarrow> (string \<Rightarrow> TreeNode) \<Rightarrow> u64 \<Rightarrow> u64 option \<Rightarrow> dir_entry list option
       \<Rightarrow> string \<Rightarrow> UserFS \<Rightarrow> UserFS result" where
  "UserFS_initDirTree absolute junk now root_links entries working_dir fs =
     (let wd = add_trailing_slash (absolute working_dir); j = junk []
      in res_bind (of_option FilesystemError root_links) (\<lambda>nl.
         res_bind (of_option FilesystemError entries) (\<lambda>es.
         res_bind (traverseDirectory junk (u_host_id fs) wd es []) (\<lambda>cs.
           Inr (fs\<lparr>u_working_dir := wd,
                   u_dir_tree := Some (TreeNode DIRECTORY 0 (tn_uid j) (tn_gid j) (tn_atime j) now
                     (tn_ctime j) (u_host_id fs) nl [] cs)\<rparr>)))))"

subsection \<open>Starting\<close>

definition UserFS_initHost :: "string \<Rightarrow> u16 \<Rightarrow> u16 \<Rightarrow> UserFS \<Rightarrow> UserFS" where
  "UserFS_initHost addr tcp_port ssh_port fs =
     fs\<lparr>u_hosts := Hosts_push
          \<lparr>h_id = u_host_id fs, h_address = addr, h_working_dir = u_working_dir fs,
           h_tcp_port = tcp_port, h_ssh_port = ssh_port\<rparr> (u_hosts fs)\<rparr>"

text \<open>The message of type 0, by which a slave introduces itself.\<close>

definition hello_message :: "bytes \<Rightarrow> bytes \<Rightarrow> bytes" where
  "hello_message dir_tree_seq host_seq =
     host_to_network_64 0x00 @ put_len_seq dir_tree_seq @ put_len_seq host_seq"

text \<open>
  \<open>UserFS_pushMaster\<close> is the statement \<^verbatim>\<open>_hosts.push(_hosts[0])\<close>. It runs after the thread of
  the manager has been started and without the lock, so callbacks of that thread may run before it.
\<close>

definition UserFS_pushMaster :: "UserFS \<Rightarrow> UserFS result" where
  "UserFS_pushMaster fs =
     res_bind (Hosts_at (u_hosts fs) 0) (\<lambda>self. Inr (fs\<lparr>u_hosts := Hosts_push self (u_hosts fs)\<rparr>))"

text \<open>
  \<open>initTCPNetwork\<close> up to the point where a slave waits for the semaphore; \<open>UserFS_wait\<close> is the
  wait, \<open>None\<close> as long as it blocks. The result is true on error.
\<close>

definition UserFS_initTCPNetwork ::
    "boost_archive \<Rightarrow> (string \<Rightarrow> u16 \<Rightarrow> string list \<times> bool) \<Rightarrow> bool \<Rightarrow> string \<Rightarrow> u16 \<Rightarrow> UserFS
       \<Rightarrow> (bool \<times> UserFS) result" where
  "UserFS_initTCPNetwork B resolve listen_error addr port fs =
     (let is_master = (u_host_id fs = 1);
          (init_rtv, tm) = TCPManager_initialize resolve is_master addr port (u_tcp_manager fs)
      in if init_rtv then Inr (True, fs\<lparr>u_tcp_manager := tm\<rparr>)
         else
           res_bind (TCPManager_start listen_error tm) (\<lambda>tm.
             if is_master then
               res_bind (UserFS_pushMaster (fs\<lparr>u_tcp_manager := tm\<rparr>)) (\<lambda>fs. Inr (False, fs))
             else
               res_bind (Hosts_at (u_hosts fs) 0) (\<lambda>self.
               res_bind (TCPManager_write
                   (hello_message (DirTree_serialize B (u_dir_tree fs)) (Host_serialize B self)) tm)
                 (\<lambda>tm. Inr (False, fs\<lparr>u_tcp_manager := tm\<rparr>)))))"

definition UserFS_wait :: "UserFS \<Rightarrow> UserFS option" where
  "UserFS_wait fs =
     (if 0 < u_slave_wait_sem fs then Some (fs\<lparr>u_slave_wait_sem := u_slave_wait_sem fs - 1\<rparr>) else None)"

subsection \<open>Serving the file system\<close>

definition UserFS_find :: "(string \<Rightarrow> string list) \<Rightarrow> string \<Rightarrow> UserFS \<Rightarrow> TreeNode option result" where
  "UserFS_find path_elements path fs = DirTree_find path_elements path (u_dir_tree fs)"

text \<open>
  A local file as an input stream sees it. If it cannot be opened, seeking and reading do nothing
  and \<^verbatim>\<open>gcount()\<close> is 0, but \<^verbatim>\<open>bad()\<close> is false. Offsets and counts are converted to
  signed 64-bit numbers; a negative one makes the stream fail before anything is read.
\<close>

datatype local_file = NoFile | Unreadable | Contents bytes

definition ifstream_read :: "local_file \<Rightarrow> u64 \<Rightarrow> u64 \<Rightarrow> int \<times> bytes" where
  "ifstream_read f offset n =
     (case f of
        NoFile \<Rightarrow> (0, [])
      | Unreadable \<Rightarrow> (-1, [])
      | Contents c \<Rightarrow>
          let d = (if unat offset < 2 ^ 63 \<and> unat n < 2 ^ 63
                   then take (unat n) (drop (unat offset) c) else [])
          in (int (length d), d))"

text \<open>\<open>path_append\<close> is \<^verbatim>\<open>operator/=\<close> of \<^verbatim>\<open>boost::filesystem::path\<close>.\<close>

definition UserFS_read ::
    "(string \<Rightarrow> string \<Rightarrow> string) \<Rightarrow> (string \<Rightarrow> local_file) \<Rightarrow> 'w libssh \<Rightarrow> u64 \<Rightarrow> string \<Rightarrow> u64 \<Rightarrow> u64
       \<Rightarrow> UserFS \<Rightarrow> 'w \<Rightarrow> ((int \<times> bytes) \<times> UserFS \<times> 'w) result" where
  "UserFS_read path_append files L node_id path offset n fs w =
     res_bind
       (if \<not> SSHManager_findHost node_id (u_ssh_manager fs) then
          res_bind (Hosts_at (u_hosts fs) node_id) (\<lambda>host.
            Inr (SSHManager_insertHost node_id (h_address host) (h_ssh_port host) (u_ssh_manager fs)))
        else Inr (False, u_ssh_manager fs))
       (\<lambda>(rtv, sm).
          let fs = fs\<lparr>u_ssh_manager := sm\<rparr>
          in if rtv then Inr ((-1, []), fs, w)
             else
               res_bind (Hosts_at (u_hosts fs) node_id) (\<lambda>host.
               if path = [] then Inl OutOfBounds
               else
                 let rel = (if hd path = CHR ''/'' then drop 1 path else path);
                     remote_path = path_append (h_working_dir host) rel
                 in if node_id = u_host_id fs
                    then Inr (ifstream_read (files remote_path) offset n, fs, w)
                    else res_bind (SSHManager_read L node_id remote_path offset n sm w)
                           (\<lambda>(r, sm, w). Inr (r, fs\<lparr>u_ssh_manager := sm\<rparr>, w))))"

subsection \<open>Messages to the other nodes\<close>

definition update_message :: "bytes \<Rightarrow> bytes \<Rightarrow> bytes" where
  "update_message dir_tree_seq hosts_seq =
     host_to_network_64 0x02 @ put_len_seq dir_tree_seq @ put_len_seq hosts_seq"

definition recognition_message :: "u64 \<Rightarrow> bytes \<Rightarrow> bytes \<Rightarrow> bytes" where
  "recognition_message slave_id dir_tree_seq hosts_seq =
     host_to_network_64 0x01 @ host_to_network_64 slave_id @
     put_len_seq dir_tree_seq @ put_len_seq hosts_seq"

definition UserFS_sendUpdate_seq :: "bytes \<Rightarrow> bytes \<Rightarrow> UserFS \<Rightarrow> UserFS result" where
  "UserFS_sendUpdate_seq dir_tree_seq hosts_seq fs =
     res_bind (TCPManager_write (update_message dir_tree_seq hosts_seq) (u_tcp_manager fs))
       (\<lambda>tm. Inr (fs\<lparr>u_tcp_manager := tm\<rparr>))"

definition UserFS_sendUpdate :: "boost_archive \<Rightarrow> UserFS \<Rightarrow> UserFS result" where
  "UserFS_sendUpdate B fs =
     UserFS_sendUpdate_seq (DirTree_serialize B (u_dir_tree fs)) (Hosts_serialize B (u_hosts fs)) fs"

subsection \<open>Callbacks of a slave\<close>

definition deploy_tree :: "DirTree \<Rightarrow> DirTree \<Rightarrow> DirTree result" where
  "deploy_tree self merged =
     res_bind (deref self) (\<lambda>r. res_bind (deref merged) (\<lambda>m. Inr (Some (with_children (tn_children m) r))))"

definition UserFS_slaveRecognized :: "boost_archive \<Rightarrow> u64 \<Rightarrow> bytes \<Rightarrow> bytes \<Rightarrow> UserFS \<Rightarrow> UserFS result" where
  "UserFS_slaveRecognized B slave_id dir_tree_seq hosts_seq fs =
     res_bind (DirTree_deserialize B dir_tree_seq) (\<lambda>merged_tree.
     let fs = fs\<lparr>u_host_id := slave_id\<rparr> in
     res_bind (Hosts_deserialize B hosts_seq) (\<lambda>merged_hosts.
     res_bind (deploy_tree (u_dir_tree fs) merged_tree) (\<lambda>t.
       Inr (fs\<lparr>u_dir_tree := t, u_hosts := merged_hosts, u_main_thread_is_waiting := False,
               u_slave_wait_sem := Suc (u_slave_wait_sem fs)\<rparr>))))"

definition UserFS_updateInfo :: "boost_archive \<Rightarrow> bytes \<Rightarrow> bytes \<Rightarrow> UserFS \<Rightarrow> UserFS result" where
  "UserFS_updateInfo B dir_tree_seq hosts_seq fs =
     res_bind (DirTree_deserialize B dir_tree_seq) (\<lambda>new_tree.
     res_bind (Hosts_deserialize B hosts_seq) (\<lambda>merged_hosts.
     res_bind (deploy_tree (u_dir_tree fs) new_tree) (\<lambda>t.
       Inr (fs\<lparr>u_dir_tree := t, u_hosts := merged_hosts\<rparr>))))"

definition UserFS_disconnect :: "UserFS \<Rightarrow> UserFS result" where
  "UserFS_disconnect fs =
     res_bind (DirTree_removeNotOf (u_host_id fs) (u_dir_tree fs)) (\<lambda>t.
       let fs = fs\<lparr>u_dir_tree := t\<rparr>
       in if u_main_thread_is_waiting fs
          then Inr (fs\<lparr>u_main_thread_is_waiting := False, u_slave_wait_sem := Suc (u_slave_wait_sem fs)\<rparr>)
          else Inr fs)"

text \<open>
  A messager reports to its owner, a \<^verbatim>\<open>TCPManager\<close>, and that to the \<^verbatim>\<open>UserFS\<close>. These functions, here and
  below, only pass the call on; the simplifier unfolds them.
\<close>

definition TCPManager_disconnect :: "UserFS \<Rightarrow> UserFS result" where
  [simp]: "TCPManager_disconnect fs = UserFS_disconnect fs"

definition TCPSlaveMessager_disconnect :: "UserFS \<Rightarrow> UserFS result" where
  [simp]: "TCPSlaveMessager_disconnect fs = TCPManager_disconnect fs"

subsection \<open>Callbacks of the master\<close>

text \<open>Access to a connection through its handle.\<close>

definition conn_at :: "nat \<Rightarrow> UserFS \<Rightarrow> master_conn result" where
  "conn_at h fs =
     res_bind (of_option NullDeref (tm_master (u_tcp_manager fs))) (\<lambda>m.
       if h < length (mm_connections m) then Inr (mm_connections m ! h) else Inl OutOfBounds)"

definition map_master :: "(TCPMasterMessager \<Rightarrow> TCPMasterMessager) \<Rightarrow> UserFS \<Rightarrow> UserFS" where
  "map_master f fs =
     fs\<lparr>u_tcp_manager := (u_tcp_manager fs)\<lparr>tm_master := map_option f (tm_master (u_tcp_manager fs))\<rparr>\<rparr>"

definition set_conn :: "nat \<Rightarrow> master_conn \<Rightarrow> UserFS \<Rightarrow> UserFS" where
  "set_conn h c fs = map_master (\<lambda>m. m\<lparr>mm_connections := (mm_connections m)[h := c]\<rparr>) fs"

definition UserFS_disconnect_slave :: "boost_archive \<Rightarrow> nat \<Rightarrow> UserFS \<Rightarrow> UserFS result" where
  "UserFS_disconnect_slave B handle fs =
     res_bind (conn_at handle fs) (\<lambda>c.
       if mc_slave_id c = 0 then Inr fs
       else
         res_bind (DirTree_removeOf (mc_slave_id c) (u_dir_tree fs)) (\<lambda>t.
           UserFS_sendUpdate B (set_conn handle (c\<lparr>mc_slave_id := 0\<rparr>) (fs\<lparr>u_dir_tree := t\<rparr>))))"

definition TCPManager_disconnect_slave :: "boost_archive \<Rightarrow> nat \<Rightarrow> UserFS \<Rightarrow> UserFS result" where
  [simp]: "TCPManager_disconnect_slave B handle fs = UserFS_disconnect_slave B handle fs"

definition TCPMasterMessager_disconnect :: "boost_archive \<Rightarrow> nat \<Rightarrow> UserFS \<Rightarrow> UserFS result" where
  [simp]: "TCPMasterMessager_disconnect B handle fs = TCPManager_disconnect_slave B handle fs"

definition TCPMasterMessager_close :: "boost_archive \<Rightarrow> nat \<Rightarrow> UserFS \<Rightarrow> UserFS result" where
  "TCPMasterMessager_close B handle fs =
     res_bind (conn_at handle fs) (\<lambda>c.
       if mc_open c then TCPMasterMessager_disconnect B handle (set_conn handle (conn_close c) fs)
       else Inr fs)"

definition TCPManager_close :: "boost_archive \<Rightarrow> nat \<Rightarrow> UserFS \<Rightarrow> UserFS result" where
  [simp]: "TCPManager_close B handle fs = TCPMasterMessager_close B handle fs"

text \<open>\<open>remote\<close> is the address of the peer as the socket reports it.\<close>

definition UserFS_newConnection ::
    "boost_archive \<Rightarrow> string \<Rightarrow> bytes \<Rightarrow> bytes \<Rightarrow> nat \<Rightarrow> UserFS \<Rightarrow> UserFS result" where
  "UserFS_newConnection B remote dir_tree_seq host_seq handle fs =
     res_bind (DirTree_deserialize B dir_tree_seq) (\<lambda>slave_dir_tree.
     res_bind (Host_deserialize B host_seq) (\<lambda>slave_host.
     res_bind (DirTree_hasConflict (u_dir_tree fs) slave_dir_tree) (\<lambda>conflicts.
       if conflicts \<noteq> [] then TCPManager_close B handle fs
       else
         let slave_id = u_max_host_id fs;
             fs = fs\<lparr>u_max_host_id := u_max_host_id fs + 1\<rparr>;
             slave_host = slave_host\<lparr>h_address := remote, h_id := slave_id\<rparr>
         in
         res_bind (deref slave_dir_tree) (\<lambda>slave_root.
         res_bind (conn_at handle fs) (\<lambda>c.
         let fs = set_conn handle (c\<lparr>mc_slave_id := slave_id\<rparr>) fs in
         res_bind (DirTree_merge (Some (setHostID slave_id slave_root)) (u_dir_tree fs)) (\<lambda>t.
         let fs = fs\<lparr>u_dir_tree := t, u_hosts := Hosts_push slave_host (u_hosts fs)\<rparr>;
             merged_dir_tree_seq = DirTree_serialize B (u_dir_tree fs);
             merged_hosts_seq = Hosts_serialize B (u_hosts fs)
         in
         res_bind (TCPManager_writeTo
             (recognition_message slave_id merged_dir_tree_seq merged_hosts_seq) handle
             (u_tcp_manager fs)) (\<lambda>tm.
           UserFS_sendUpdate_seq merged_dir_tree_seq merged_hosts_seq (fs\<lparr>u_tcp_manager := tm\<rparr>))))))))"

subsection \<open>Scanning\<close>

text \<open>A node with the data the scan takes from an entry.\<close>

definition scanned :: "u64 \<Rightarrow> TreeNode \<Rightarrow> dir_entry \<Rightarrow> bool" where
  "scanned h n e \<longleftrightarrow>
     tn_host_id n = h \<and> tn_name n = e_name e \<and> tn_type n = treenode_type (e_type e) \<and>
     e_last_write_time e = Some (tn_mtime n) \<and> e_hard_link_count e = Some (tn_num_links n) \<and>
     (if tn_type n = DIRECTORY then tn_size n = 0 else e_file_size e = Some (tn_size n))"

text \<open>The three kinds of entries.\<close>

lemma traverse_dir:
  assumes "treenode_type ty = DIRECTORY"
    and "traverseDirectory junk h dir (Entry nm ty sz mt nl cont # es) cs = Inr cs'"
  obtains d sub_entries sub where "scanned h d (Entry nm ty sz mt nl cont)" and "tn_children d = []"
    and "cont = Some sub_entries"
    and "traverseDirectory junk h (dir @ ''/'' @ nm) sub_entries (children_at nm (set_insert d cs)) = Inr sub"
    and "traverseDirectory junk h dir es (replace_children_at nm sub (set_insert d cs)) = Inr cs'"
proof (cases "ty = status_error"; cases mt; cases nl; cases cont)
  fix m l sub_entries
  assume eqs: "ty \<noteq> status_error" "mt = Some m" "nl = Some l" "cont = Some sub_entries"
  let ?j = "junk (dir @ ''/'' @ nm)"
  let ?d = "TreeNode DIRECTORY 0 (tn_uid ?j) (tn_gid ?j) (tn_atime ?j) m (tn_ctime ?j) h l nm []"
  have "res_bind (traverseDirectory junk h (dir @ ''/'' @ nm) sub_entries (children_at nm (set_insert ?d cs)))
    (\<lambda>sub. traverseDirectory junk h dir es (replace_children_at nm sub (set_insert ?d cs))) = Inr cs'"
    using assms eqs by (simp add: Let_def)
  then obtain sub where
    "traverseDirectory junk h (dir @ ''/'' @ nm) sub_entries (children_at nm (set_insert ?d cs)) = Inr sub"
    "traverseDirectory junk h dir es (replace_children_at nm sub (set_insert ?d cs)) = Inr cs'"
    unfolding res_bind_eq_Inr by blast
  with eqs assms(1) show thesis by (intro that [of ?d sub_entries sub]) (simp_all add: scanned_def)
qed (use assms in \<open>simp_all add: Let_def\<close>)

lemma traverse_file:
  assumes "treenode_type ty \<noteq> UNKNOWN" and "treenode_type ty \<noteq> DIRECTORY"
    and "traverseDirectory junk h dir (Entry nm ty sz mt nl cont # es) cs = Inr cs'"
  obtains d where "scanned h d (Entry nm ty sz mt nl cont)" and "tn_children d = []"
    and "traverseDirectory junk h dir es (set_insert d cs) = Inr cs'"
proof (cases "ty = status_error"; cases sz; cases mt; cases nl)
  fix s m l
  assume eqs: "ty \<noteq> status_error" "sz = Some s" "mt = Some m" "nl = Some l"
  let ?j = "junk (dir @ ''/'' @ nm)"
  let ?d = "TreeNode (treenode_type ty) s (tn_uid ?j) (tn_gid ?j) (tn_atime ?j) m (tn_ctime ?j) h l nm []"
  have "traverseDirectory junk h dir es (set_insert ?d cs) = Inr cs'"
    using assms eqs by (simp add: Let_def)
  with eqs assms(2) show thesis by (intro that [of ?d]) (simp_all add: scanned_def)
qed (use assms in \<open>simp_all add: Let_def\<close>)

text \<open>Induction over a scan that succeeds: over the entries and the entries below.\<close>

lemma traverse_induct [consumes 1, case_names Nil Skip Dir File]:
  assumes scan: "traverseDirectory junk h dir es cs = Inr cs'"
    and Nil: "\<And>cs. P [] cs cs"
    and Skip: "\<And>e es cs cs'. treenode_type (e_type e) = UNKNOWN \<Longrightarrow> P es cs cs' \<Longrightarrow> P (e # es) cs cs'"
    and Dir: "\<And>e es cs cs' d sub_entries sub.
      treenode_type (e_type e) = DIRECTORY \<Longrightarrow> scanned h d e \<Longrightarrow> tn_children d = [] \<Longrightarrow>
      e_contents e = Some sub_entries \<Longrightarrow>
      P sub_entries (children_at (e_name e) (set_insert d cs)) sub \<Longrightarrow>
      P es (replace_children_at (e_name e) sub (set_insert d cs)) cs' \<Longrightarrow> P (e # es) cs cs'"
    and File: "\<And>e es cs cs' d. treenode_type (e_type e) \<noteq> UNKNOWN \<Longrightarrow>
      treenode_type (e_type e) \<noteq> DIRECTORY \<Longrightarrow> scanned h d e \<Longrightarrow> tn_children d = [] \<Longrightarrow>
      P es (set_insert d cs) cs' \<Longrightarrow> P (e # es) cs cs'"
  shows "P es cs cs'"
  using scan
proof (induction "size_list size es" arbitrary: dir es cs cs' rule: less_induct)
  case less
  show ?case
  proof (cases es)
    case Nil
    with less.prems assms(2) show ?thesis by simp
  next
    case (Cons e rest)
    obtain nm ty sz mt nl cont where e: "e = Entry nm ty sz mt nl cont" by (cases e)
    have smaller: "size_list size rest < size_list size es" by (simp add: Cons)
    consider "treenode_type ty = UNKNOWN" | "treenode_type ty = DIRECTORY"
      | "treenode_type ty \<noteq> UNKNOWN" "treenode_type ty \<noteq> DIRECTORY" by blast
    then show ?thesis
    proof cases
      case 1
      with less.prems have "traverseDirectory junk h dir rest cs = Inr cs'" by (simp add: Cons e Let_def split: if_splits)
      from less.hyps [OF smaller this] 1 show ?thesis unfolding Cons e by (intro Skip) simp_all
    next
      case 2
      obtain d sub_entries sub where d: "scanned h d (Entry nm ty sz mt nl cont)" "tn_children d = []" and cont: "cont = Some sub_entries"
        and below: "traverseDirectory junk h (dir @ ''/'' @ nm) sub_entries (children_at nm (set_insert d cs)) = Inr sub"
        and rest: "traverseDirectory junk h dir rest (replace_children_at nm sub (set_insert d cs)) = Inr cs'"
        by (rule traverse_dir [OF 2 less.prems [unfolded Cons e]]) (rule that)
      have "size_list size sub_entries < size_list size es" by (simp add: Cons e cont)
      from less.hyps [OF this below] less.hyps [OF smaller rest] d cont 2 show ?thesis
        unfolding Cons by (intro Dir [of e d sub_entries]) (simp_all add: e)
    next
      case 3
      obtain d where d: "scanned h d (Entry nm ty sz mt nl cont)" "tn_children d = []"
        and rest: "traverseDirectory junk h dir rest (set_insert d cs) = Inr cs'"
        by (rule traverse_file [OF 3 less.prems [unfolded Cons e]]) (rule that)
      from less.hyps [OF smaller rest] d 3 show ?thesis
        unfolding Cons by (intro File [of e d]) (simp_all add: e)
    qed
  qed
qed

lemma owned_by_iff: "owned_by h n \<longleftrightarrow> tn_host_id n = h \<and> list_all (owned_by h) (tn_children n)"
  by (auto simp: owned_by_def list_all_iff below_eq [of n])

definition scan_inv :: "u64 \<Rightarrow> TreeNode list \<Rightarrow> bool" where
  "scan_inv h cs \<longleftrightarrow> sorted_names cs \<and> list_all wf_node cs \<and> list_all (owned_by h) cs"

lemma scan_inv_insert:
  assumes "scan_inv h cs" and "wf_node n" and "owned_by h n"
  shows "scan_inv h (set_insert n cs)"
proof -
  have "set (set_insert n cs) \<subseteq> insert n (set cs)" by (rule set_insert_subset)
  with assms show ?thesis
    by (auto simp: scan_inv_def sorted_names_insert list_all_iff)
qed

lemma owned_by_with_children:
  "tn_host_id n = h \<Longrightarrow> list_all (owned_by h) sub \<Longrightarrow> owned_by h (with_children sub n)"
  by (subst owned_by_iff) simp

lemma scan_inv_children: "wf_node n \<Longrightarrow> owned_by h n \<Longrightarrow> scan_inv h (tn_children n)"
  using wf_nodeD [of n] owned_by_iff [of h n] by (simp add: scan_inv_def)

lemma scan_inv_member: "scan_inv h cs \<Longrightarrow> n \<in> set cs \<Longrightarrow> wf_node n \<and> owned_by h n"
  by (simp add: scan_inv_def list_all_iff)

lemma scan_inv_children_at:
  assumes "scan_inv h cs"
  shows "scan_inv h (children_at nm cs)"
proof (cases "set_find nm cs")
  case None
  then show ?thesis by (simp add: children_at_def scan_inv_def)
next
  case (Some n)
  then have "n \<in> set cs" by (simp add: set_find_Some)
  then show ?thesis
    using Some scan_inv_member [OF assms] by (simp add: children_at_def scan_inv_children)
qed

lemma scan_inv_replace:
  assumes "scan_inv h cs" and "scan_inv h sub"
  shows "scan_inv h (replace_children_at nm sub cs)"
proof -
  have "sorted_names (replace_children_at nm sub cs)"
    using assms(1) by (simp add: scan_inv_def replace_children_at_def sorted_names_map)
  moreover have "owned_by h (with_children sub n)" if "n \<in> set cs" for n
    using assms(2) scan_inv_member [OF assms(1) that]
    by (intro owned_by_with_children) (simp_all add: scan_inv_def owned_by_def [of h n])
  moreover have "wf_node (with_children sub n)" for n
    using assms(2) by (simp add: scan_inv_def)
  ultimately show ?thesis
    using scan_inv_member [OF assms(1)] by (auto simp: scan_inv_def replace_children_at_def list_all_iff)
qed

lemma scanned_leaf_ok: "scanned h d e \<Longrightarrow> tn_children d = [] \<Longrightarrow> wf_node d \<and> owned_by h d"
  using wf_node_iff [of d] by (simp add: scanned_def owned_by_iff [of h d])

lemma traverseDirectory_scan_inv:
  assumes "traverseDirectory junk h dir es cs = Inr cs'" and "scan_inv h cs"
  shows "scan_inv h cs'"
  using assms
proof (induction rule: traverse_induct)
  case (Dir e es cs cs' d sub_entries sub)
  have ins: "scan_inv h (set_insert d cs)"
    using Dir.hyps scanned_leaf_ok Dir.prems by (blast intro: scan_inv_insert)
  then have "scan_inv h sub" by (intro Dir.IH(1) scan_inv_children_at)
  with ins show ?case by (intro Dir.IH(2) scan_inv_replace)
next
  case (File e es cs cs' d)
  then show ?case using scanned_leaf_ok by (blast intro: scan_inv_insert)
qed

text \<open>
  The scan is complete and adds nothing. \<open>entry_at\<close> is the lookup in the snapshot; entries of a
  type the program does not know are invisible. \<open>mirrors\<close> relates a node to an entry with
  everything below them.
\<close>

definition find_entry :: "string \<Rightarrow> dir_entry list \<Rightarrow> dir_entry option" where
  "find_entry k es = find (\<lambda>e. treenode_type (e_type e) \<noteq> UNKNOWN \<and> e_name e = k) es"

definition entries_below :: "dir_entry \<Rightarrow> dir_entry list" where
  "entries_below e =
     (if treenode_type (e_type e) = DIRECTORY then case e_contents e of None \<Rightarrow> [] | Some es \<Rightarrow> es else [])"

fun entry_at :: "dir_entry list \<Rightarrow> string \<Rightarrow> string list \<Rightarrow> dir_entry option" where
  "entry_at es k [] = find_entry k es"
| "entry_at es k (l # ls) = (case find_entry k es of None \<Rightarrow> None | Some e \<Rightarrow> entry_at (entries_below e) l ls)"

fun distinct_names :: "dir_entry list \<Rightarrow> bool" where
  "distinct_names [] \<longleftrightarrow> True"
| "distinct_names (Entry nm ty sz mt nl cont # es) \<longleftrightarrow>
     nm \<notin> e_name ` set es \<and> (case cont of None \<Rightarrow> True | Some sub_entries \<Rightarrow> distinct_names sub_entries) \<and>
     distinct_names es"

inductive mirrors :: "u64 \<Rightarrow> TreeNode \<Rightarrow> dir_entry \<Rightarrow> bool" where
  "scanned h n e \<Longrightarrow>
   (\<And>k. find_entry k (entries_below e) = None \<Longrightarrow> set_find k (tn_children n) = None) \<Longrightarrow>
   (\<And>k f. find_entry k (entries_below e) = Some f \<Longrightarrow>
      \<exists>m. set_find k (tn_children n) = Some m \<and> mirrors h m f) \<Longrightarrow>
   mirrors h n e"

inductive_cases mirrorsE: "mirrors h n e"

lemma distinct_names_Cons:
  "distinct_names (e # es) \<longleftrightarrow>
     e_name e \<notin> e_name ` set es \<and> (case e_contents e of None \<Rightarrow> True | Some s \<Rightarrow> distinct_names s) \<and> distinct_names es"
  by (cases e) simp

lemma find_entry_Cons:
  "find_entry k (e # es) =
     (if treenode_type (e_type e) \<noteq> UNKNOWN \<and> e_name e = k then Some e else find_entry k es)"
  by (simp add: find_entry_def)

lemma find_entry_name: "find_entry k es = Some e \<Longrightarrow> k \<in> e_name ` set es"
  by (auto simp: find_entry_def find_Some_iff)

lemma set_find_replace:
  "set_find k (replace_children_at nm sub cs) =
     (if k = nm then map_option (with_children sub) (set_find k cs) else set_find k cs)"
  by (induction cs) (auto simp: replace_children_at_def)

lemma traverseDirectory_mirrors:
  assumes "traverseDirectory junk h dir es cs = Inr cs'" and "sorted_names cs" and "distinct_names es"
    and "\<forall>e\<in>set es. set_find (e_name e) cs = None"
  shows "(find_entry k es = None \<longrightarrow> set_find k cs' = set_find k cs) \<and>
    (\<forall>e. find_entry k es = Some e \<longrightarrow> (\<exists>n. set_find k cs' = Some n \<and> mirrors h n e))"
  using assms
proof (induction arbitrary: k rule: traverse_induct)
  case (Nil cs)
  then show ?case by (simp add: find_entry_def)
next
  case (Skip e es cs cs')
  then show ?case by (simp add: find_entry_Cons distinct_names_Cons)
next
  case (Dir e es cs cs' d sub_entries sub)
  have nm: "tn_name d = e_name e" using Dir.hyps(2) by (simp add: scanned_def)
  have find_ins: "set_find k (set_insert d cs) = (if k = e_name e then Some d else set_find k cs)" for k
    using Dir.prems(1,3) by (auto simp: set_find_insert nm split: option.split)
  then have no_children: "children_at (e_name e) (set_insert d cs) = []"
    by (simp add: children_at_def Dir.hyps(3))
  have below: "entries_below e = sub_entries"
    using Dir.hyps(1,4) by (simp add: entries_below_def)
  have "distinct_names sub_entries"
    using Dir.prems(2) Dir.hyps(4) by (simp add: distinct_names_Cons)
  from Dir.IH(1) [unfolded no_children, OF _ this]
  have "mirrors h (with_children sub d) e"
    using Dir.hyps(2) by (intro mirrors.intros) (simp_all add: below scanned_def)
  moreover have "sorted_names (replace_children_at (e_name e) sub (set_insert d cs))"
    using Dir.prems(1) by (simp add: replace_children_at_def sorted_names_map sorted_names_insert)
  moreover have "\<forall>f\<in>set es. set_find (e_name f) (replace_children_at (e_name e) sub (set_insert d cs)) = None"
    using Dir.prems(2,3) by (auto simp: distinct_names_Cons set_find_replace find_ins image_iff)
  moreover have "distinct_names es" "find_entry (e_name e) es = None"
    using Dir.prems(2) find_entry_name [of "e_name e" es] by (auto simp: distinct_names_Cons)
  ultimately show ?case
    using Dir.IH(2) [of k] Dir.hyps(1)
    by (cases "k = e_name e") (simp_all add: find_entry_Cons set_find_replace find_ins)
next
  case (File e es cs cs' d)
  have nm: "tn_name d = e_name e" using File.hyps(3) by (simp add: scanned_def)
  have find_ins: "set_find k (set_insert d cs) = (if k = e_name e then Some d else set_find k cs)" for k
    using File.prems(1,3) by (auto simp: set_find_insert nm split: option.split)
  have "mirrors h d e"
    using File.hyps by (intro mirrors.intros) (simp_all add: entries_below_def find_entry_def)
  moreover have "\<forall>f\<in>set es. set_find (e_name f) (set_insert d cs) = None"
    using File.prems(2,3) by (auto simp: distinct_names_Cons find_ins image_iff)
  moreover have "distinct_names es" "find_entry (e_name e) es = None"
    using File.prems(2) find_entry_name [of "e_name e" es] by (auto simp: distinct_names_Cons)
  ultimately show ?case
    using File.IH [of k] File.hyps(1,2) sorted_names_insert [OF File.prems(1)]
    by (cases "k = e_name e") (simp_all add: find_entry_Cons find_ins)
qed

lemma mirrors_lookup:
  assumes "\<And>k. find_entry k es = None \<Longrightarrow> set_find k (tn_children n) = None"
    and "\<And>k e. find_entry k es = Some e \<Longrightarrow> \<exists>m. set_find k (tn_children n) = Some m \<and> mirrors h m e"
  shows "rel_option (scanned h) (lookup_path n (k # ks)) (entry_at es k ks)"
  using assms
proof (induction es k ks arbitrary: n rule: entry_at.induct)
  case (1 es k)
  then show ?case by (cases "find_entry k es") (fastforce elim: mirrorsE)+
next
  case (2 es k l ls)
  show ?case
  proof (cases "find_entry k es")
    case None
    with "2.prems"(1) show ?thesis by simp
  next
    case (Some e)
    with "2.prems"(2) obtain m where m: "set_find k (tn_children n) = Some m" "mirrors h m e" by blast
    from m(2) have "rel_option (scanned h) (lookup_path m (l # ls)) (entry_at (entries_below e) l ls)"
      by (intro "2.IH" [OF Some]) (auto elim: mirrorsE)
    with m(1) Some show ?thesis by simp
  qed
qed

text \<open>What \<^verbatim>\<open>initDirTree\<close> leaves in the state.\<close>

lemma initDirTree_ok:
  assumes "UserFS_initDirTree absolute junk now nl es wd fs = Inr fs'"
  obtains r entries cs where "es = Some entries" and "u_dir_tree fs' = Some r"
    and "traverseDirectory junk (u_host_id fs) (u_working_dir fs') entries [] = Inr cs"
    and "tn_children r = cs" and "tn_type r = DIRECTORY"
    and "fs' = fs\<lparr>u_working_dir := add_trailing_slash (absolute wd), u_dir_tree := Some r\<rparr>"
  using assms
  by (auto simp: UserFS_initDirTree_def Let_def res_bind_eq_Inr elim!: that)

lemma initDirTree_scan_inv:
  assumes "UserFS_initDirTree absolute junk now nl es wd fs = Inr fs'"
  obtains r where "fs' = fs\<lparr>u_working_dir := add_trailing_slash (absolute wd), u_dir_tree := Some r\<rparr>"
    and "scan_inv (u_host_id fs) (tn_children r)"
proof (rule initDirTree_ok [OF assms])
  fix r entries cs
  assume "traverseDirectory junk (u_host_id fs) (u_working_dir fs') entries [] = Inr cs"
    and r: "tn_children r = cs" "fs' = fs\<lparr>u_working_dir := add_trailing_slash (absolute wd), u_dir_tree := Some r\<rparr>"
  from this(1) have "scan_inv (u_host_id fs) cs"
    by (rule traverseDirectory_scan_inv) (simp add: scan_inv_def)
  then show thesis unfolding r(1) [symmetric] by (rule that [OF r(2)])
qed

text \<open>Reading a file of this host; the first time the host is entered into the table of sessions.\<close>

text \<open>A path leads to a node exactly if it leads to an entry of the directory.\<close>

lemma initDirTree_lookup:
  assumes "UserFS_initDirTree absolute junk now nl (Some es) wd fs = Inr fs'" and "distinct_names es" and "u_dir_tree fs' = Some r"
  shows "rel_option (scanned (u_host_id fs)) (lookup_path r (k # ks)) (entry_at es k ks)"
proof (rule initDirTree_ok [OF assms(1)])
  fix q entries cs
  assume "Some es = Some entries" and "u_dir_tree fs' = Some q" "tn_children q = cs"
    and "traverseDirectory junk (u_host_id fs) (u_working_dir fs') entries [] = Inr cs"
  with traverseDirectory_mirrors assms(2,3) show ?thesis by (intro mirrors_lookup) auto
qed

lemma UserFS_read_local:
  assumes "Hosts_at (u_hosts fs) (u_host_id fs) = Inr host"
  shows "\<exists>sm. UserFS_read path_append files L (u_host_id fs) (CHR ''/'' # rel) offset n fs w =
    Inr (ifstream_read (files (path_append (h_working_dir host) rel)) offset n, fs\<lparr>u_ssh_manager := sm\<rparr>, w)"
proof (cases "SSHManager_findHost (u_host_id fs) (u_ssh_manager fs)")
  case True
  then show ?thesis using assms by (auto simp: UserFS_read_def Let_def intro: exI [of _ "u_ssh_manager fs"])
next
  case False
  then show ?thesis
    using assms by (auto simp: UserFS_read_def Let_def SSHManager_findHost_def SSHManager_insertHost_def)
qed

text \<open>
  Reading a file of another host goes through the SSH session of that host: the one in the
  table, or else a new one to the address and SSH port that the vector of hosts has at the host's
  id. The path is the working directory of that host with the path appended; the result is the
  session's, and only the session of this host changes.
\<close>

theorem remote_read:
  fixes fs :: UserFS
  assumes "Hosts_at (u_hosts fs) i = Inr host" and "i \<noteq> u_host_id fs" and "path = CHR ''/'' # rel"
  defines "s \<equiv> (case u_ssh_manager fs i of None \<Rightarrow> SSHSession_new (h_address host) (h_ssh_port host) | Some s \<Rightarrow> s)"
  shows "UserFS_read path_append files L i path offset n fs w =
    res_bind (SSHSession_read L (path_append (h_working_dir host) rel) offset n s w)
      (\<lambda>(r, s', w'). Inr (r, fs\<lparr>u_ssh_manager := (u_ssh_manager fs)(i \<mapsto> s')\<rparr>, w'))"
proof -
  have swap: "res_bind (res_bind m (\<lambda>(r, s, w). Inr (r, f s, w))) (\<lambda>(r, sm, w). Inr (r, g sm, w)) =
      res_bind m (\<lambda>(r, s, w). Inr (r, g (f s), w))" for m :: "'e + 'r \<times> 's \<times> 'v" and f g
    by (cases m) auto
  show ?thesis
    using assms(1-3) swap
    by (cases "u_ssh_manager fs i")
      (simp_all add: UserFS_read_def SSHManager_findHost_def SSHManager_insertHost_def SSHManager_read_def s_def Let_def)
qed

subsection \<open>Properties\<close>

definition sample_entries :: "dir_entry list" where
  "sample_entries =
     [Entry ''b.txt'' regular_file (Some 22) (Some 5) (Some 1) None,
      Entry ''pipe'' other_type None None None None,
      Entry ''a'' directory_file None (Some 6) (Some 2)
        (Some [Entry ''c.txt'' regular_file (Some 7) (Some 8) (Some 1) None])]"

definition sample_scan :: "u64 \<Rightarrow> UserFS" where
  "sample_scan h = UserFS_new\<lparr>u_host_id := h, u_working_dir := ''/master/'',
     u_dir_tree := Some (sample_dir h [] [TreeNode DIRECTORY 0 0 0 0 6 0 h 2 ''a''
         [TreeNode REGULAR 7 0 0 0 8 0 h 1 ''c.txt'' []],
       TreeNode REGULAR 22 0 0 0 5 0 h 1 ''b.txt'' []])\<rparr>"

lemma sample_scan_eq:
  "UserFS_initDirTree id (\<lambda>_. sample_file 0 []) 5 (Some 2) (Some sample_entries) ''/master''
     (UserFS_new\<lparr>u_host_id := h\<rparr>) = Inr (sample_scan h)"
  by (simp add: UserFS_initDirTree_def add_trailing_slash_def sample_entries_def sample_scan_def Let_def
      sample_defs children_at_def replace_children_at_def with_children_def TreeNode_less_def)

text \<open>
  \<^bold>\<open>C22\<close>. Scanning is complete and exact: when \<^verbatim>\<open>initDirTree\<close> succeeds on a directory tree in
  which no directory lists a name twice, a path leads to a node of the new tree exactly when it
  leads to an entry of the shared directory whose type the program knows, and the node has the
  name, type, size, modification time and link count of that entry and the id of this host. The
  children are sorted by name at every level.
\<close>

theorem initDirTree_mirrors_directory:
  assumes "UserFS_initDirTree absolute junk now nl (Some es) wd fs = Inr fs'" and "distinct_names es"
  shows "\<exists>r. u_dir_tree fs' = Some r \<and> wf_node r \<and> uniform (tn_children r) \<and>
           (\<forall>k ks. rel_option (scanned (u_host_id fs)) (lookup_path r (k # ks)) (entry_at es k ks))"
proof (rule initDirTree_ok [OF assms(1)])
  fix r entries cs
  assume es: "Some es = Some entries" and r: "u_dir_tree fs' = Some r" "tn_children r = cs"
    and scan: "traverseDirectory junk (u_host_id fs) (u_working_dir fs') entries [] = Inr cs"
  have inv: "scan_inv (u_host_id fs) cs"
    using scan by (rule traverseDirectory_scan_inv) (simp add: scan_inv_def)
  then have "wf_node r" "uniform (tn_children r)"
    using wf_node_iff [of r] scan_inv_member [OF inv]
    by (auto simp: r scan_inv_def uniform_def list_all_iff owned_by_def)
  with r(1) initDirTree_lookup [OF assms r(1)] show ?thesis by blast
qed

theorem initDirTree_mirrors_directory_witness:
  "\<exists>r. u_dir_tree (sample_scan 1) = Some r \<and> wf_node r \<and> uniform (tn_children r) \<and>
     (\<forall>k ks. rel_option (scanned 1) (lookup_path r (k # ks)) (entry_at sample_entries k ks))"
  using initDirTree_mirrors_directory [OF sample_scan_eq [of 1]]
  by (simp add: sample_entries_def)

theorem remote_read_witness:
  "\<exists>fs'. UserFS_read (@) (\<lambda>_. NoFile) tracking_libssh 2 ''/a'' 0 3
     ((sample_scan 1)\<lparr>u_hosts := [sample_host 1, sample_host 1, sample_host 2]\<rparr>) (0, []) =
     Inr ((3, [1, 2, 3]), fs', (1, [0]))"
proof -
  let ?fs = "(sample_scan 1)\<lparr>u_hosts := [sample_host 1, sample_host 1, sample_host 2]\<rparr>"
  have fs: "Hosts_at (u_hosts ?fs) 2 = Inr (sample_host 2)" "(2 :: u64) \<noteq> u_host_id ?fs" "u_ssh_manager (sample_scan 1) 2 = None"
    by (simp_all add: Hosts_at_def sample_scan_def UserFS_new_def SSHManager_new_def)
  show ?thesis
    by (subst remote_read [OF fs(1,2) refl]) (simp add: fs(3) tracking_read SSHSession_new_def)
qed

text \<open>
  A slave that loses its master, or never reaches it, keeps exactly the nodes of its own
  host, each at its path; the waiting main thread is woken once, and being told again changes
  nothing.
\<close>

theorem slave_disconnect:
  assumes "u_dir_tree fs = Some r" and "wf_node r" and "uniform (tn_children r)"
  shows "\<exists>fs' r'. UserFS_disconnect fs = Inr fs' \<and> u_dir_tree fs' = Some r' \<and> wf_node r' \<and>
           (\<forall>k ks n. lookup_path r' (k # ks) = Some n \<longleftrightarrow>
              lookup_path r (k # ks) = Some n \<and> tn_host_id n = u_host_id fs) \<and>
           \<not> u_main_thread_is_waiting fs' \<and>
           u_slave_wait_sem fs' = u_slave_wait_sem fs + (if u_main_thread_is_waiting fs then 1 else 0) \<and>
           (u_main_thread_is_waiting fs \<longrightarrow> UserFS_wait fs' \<noteq> None) \<and>
           UserFS_disconnect fs' = Inr fs'"
proof -
  let ?cs = "filter (\<lambda>n. tn_host_id n = u_host_id fs) (tn_children r)"
  let ?r' = "with_children ?cs r"
  define fs' where "fs' = (if u_main_thread_is_waiting fs
    then fs\<lparr>u_dir_tree := Some ?r', u_main_thread_is_waiting := False, u_slave_wait_sem := Suc (u_slave_wait_sem fs)\<rparr>
    else fs\<lparr>u_dir_tree := Some ?r'\<rparr>)"
  have "UserFS_disconnect fs = Inr fs'"
    by (simp add: fs'_def UserFS_disconnect_def assms(1) DirTree_removeNotOf_def removeNotOf_loop_eq Let_def)
  moreover have "UserFS_disconnect fs' = Inr fs'"
    by (simp add: fs'_def UserFS_disconnect_def DirTree_removeNotOf_def removeNotOf_loop_eq Let_def with_children_def)
  moreover have "u_dir_tree fs' = Some ?r'" "\<not> u_main_thread_is_waiting fs'"
    "u_slave_wait_sem fs' = u_slave_wait_sem fs + (if u_main_thread_is_waiting fs then 1 else 0)"
    "u_main_thread_is_waiting fs \<longrightarrow> UserFS_wait fs' \<noteq> None"
    by (simp_all add: fs'_def UserFS_wait_def)
  ultimately show ?thesis
    using restrict_hosts [OF assms(2,3), of "\<lambda>i. i = u_host_id fs"] by blast
qed

theorem slave_disconnect_witness:
  "\<exists>fs' r'. UserFS_disconnect (sample_scan 1) = Inr fs' \<and> u_dir_tree fs' = Some r' \<and>
     UserFS_disconnect fs' = Inr fs' \<and> UserFS_wait fs' \<noteq> None"
proof -
  obtain r where r: "u_dir_tree (sample_scan 1) = Some r" by (simp add: sample_scan_def)
  then have "wf_node r" "uniform (tn_children r)"
    by (auto simp: sample_scan_def sample_defs uniform_def owned_by_def)
  moreover have "u_main_thread_is_waiting (sample_scan 1)" by (simp add: sample_scan_def UserFS_new_def)
  ultimately show ?thesis using slave_disconnect [OF r] by blast
qed

end
