(* ===== verification/Master_Inv.thy ===== *)
theory Master_Inv
  imports User_Fs
begin

section \<open>The invariant of a master; joining and leaving\<close>

text \<open>
  The metadata of a master: which nodes its tree has, which hosts it lists, which ids its
  connections carry. \<open>master_inv\<close> is the invariant. \<open>joined\<close> and \<open>left\<close> specify what the callbacks
  \<^verbatim>\<open>newConnection\<close> and \<^verbatim>\<open>disconnect(handle)\<close> do to the metadata; the callbacks implement
  them and post the messages that tell the slaves. The properties are at the end.
\<close>

subsection \<open>The invariant of a master\<close>

text \<open>
  \<^item> the tree is well formed and uniform, and each child of the root belongs to the master or to the
    slave of some connection;
  \<^item> the hosts are indexed by their ids, and the next id is the next index;
  \<^item> the ids of the connections have been handed out, no two connections have the same one, and only
    an open connection has one.
\<close>

definition conns :: "UserFS \<Rightarrow> master_conn list" where
  "conns fs = (case tm_master (u_tcp_manager fs) of None \<Rightarrow> [] | Some m \<Rightarrow> mm_connections m)"

definition root_children :: "UserFS \<Rightarrow> TreeNode list" where
  "root_children fs = (case u_dir_tree fs of None \<Rightarrow> [] | Some r \<Rightarrow> tn_children r)"

definition master_role :: "UserFS \<Rightarrow> bool" where
  "master_role fs \<longleftrightarrow>
     u_host_id fs = 1 \<and> tm_is_master (u_tcp_manager fs) \<and> tm_master (u_tcp_manager fs) \<noteq> None"

definition tree_inv :: "UserFS \<Rightarrow> bool" where
  "tree_inv fs \<longleftrightarrow>
     wf_tree (u_dir_tree fs) \<and> uniform (root_children fs) \<and>
     list_all (\<lambda>c. tn_host_id c = 1 \<or> tn_host_id c \<in> set (map mc_slave_id (conns fs)) - {0})
       (root_children fs)"

definition hosts_inv :: "UserFS \<Rightarrow> bool" where
  "hosts_inv fs \<longleftrightarrow>
     hosts_indexed (u_hosts fs) \<and> length (u_hosts fs) = unat (u_max_host_id fs) \<and>
     2 \<le> unat (u_max_host_id fs)"

definition slave_ids :: "UserFS \<Rightarrow> u64 list" where
  "slave_ids fs = filter (\<lambda>i. i \<noteq> 0) (map mc_slave_id (conns fs))"

definition conns_inv :: "UserFS \<Rightarrow> bool" where
  "conns_inv fs \<longleftrightarrow>
     distinct (slave_ids fs) \<and>
     list_all (\<lambda>i. 2 \<le> unat i \<and> unat i < unat (u_max_host_id fs)) (slave_ids fs) \<and>
     list_all (\<lambda>c. mc_slave_id c = 0 \<or> mc_open c) (conns fs)"

definition master_inv :: "UserFS \<Rightarrow> bool" where
  "master_inv fs \<longleftrightarrow> master_role fs \<and> tree_inv fs \<and> hosts_inv fs \<and> conns_inv fs"

subsection \<open>Access lemmas\<close>

lemma conn_at_eq:
  "tm_master (u_tcp_manager fs) \<noteq> None \<Longrightarrow>
     conn_at h fs = (if h < length (conns fs) then Inr (conns fs ! h) else Inl OutOfBounds)"
  by (auto simp: conn_at_def conns_def)

lemma map_master_sel [simp]:
  "u_host_id (map_master f fs) = u_host_id fs" "u_dir_tree (map_master f fs) = u_dir_tree fs"
  "u_hosts (map_master f fs) = u_hosts fs" "u_max_host_id (map_master f fs) = u_max_host_id fs"
  "tm_is_master (u_tcp_manager (map_master f fs)) = tm_is_master (u_tcp_manager fs)"
  "tm_master (u_tcp_manager (map_master f fs)) = map_option f (tm_master (u_tcp_manager fs))"
  by (simp_all add: map_master_def)

lemma set_conn_sel [simp]:
  "u_host_id (set_conn h c fs) = u_host_id fs" "u_dir_tree (set_conn h c fs) = u_dir_tree fs"
  "u_hosts (set_conn h c fs) = u_hosts fs" "u_max_host_id (set_conn h c fs) = u_max_host_id fs"
  "tm_is_master (u_tcp_manager (set_conn h c fs)) = tm_is_master (u_tcp_manager fs)"
  "(tm_master (u_tcp_manager (set_conn h c fs)) = None) = (tm_master (u_tcp_manager fs) = None)"
  by (simp_all add: set_conn_def)

lemma conns_set_conn [simp]: "conns (set_conn h c fs) = (conns fs)[h := c]"
  by (simp add: set_conn_def conns_def split: option.split)

lemma conns_update [simp]:
  "conns (fs\<lparr>u_dir_tree := t\<rparr>) = conns fs" "conns (fs\<lparr>u_hosts := hs\<rparr>) = conns fs"
  "conns (fs\<lparr>u_max_host_id := n\<rparr>) = conns fs" "conns (fs\<lparr>u_dir_tree := t, u_hosts := hs\<rparr>) = conns fs"
  by (simp_all add: conns_def)

lemma root_children_update [simp]:
  "root_children (fs\<lparr>u_dir_tree := t\<rparr>) = (case t of None \<Rightarrow> [] | Some r \<Rightarrow> tn_children r)"
  "root_children (set_conn h c fs) = root_children fs"
  "root_children (fs\<lparr>u_tcp_manager := tm\<rparr>) = root_children fs"
  by (simp_all add: root_children_def set_conn_def)

text \<open>
  Everything but the posted closures. Writing only posts closures, so a write changes no part of
  the state the invariant speaks of.
\<close>

definition posted :: "UserFS \<Rightarrow> master_post list" where
  "posted fs = (case tm_master (u_tcp_manager fs) of None \<Rightarrow> [] | Some m \<Rightarrow> mm_posted m)"

definition same_but_posted :: "UserFS \<Rightarrow> UserFS \<Rightarrow> bool" where
  "same_but_posted fs fs' \<longleftrightarrow>
     u_host_id fs' = u_host_id fs \<and> u_dir_tree fs' = u_dir_tree fs \<and> u_hosts fs' = u_hosts fs \<and>
     u_max_host_id fs' = u_max_host_id fs \<and> conns fs' = conns fs \<and>
     (master_role fs \<longrightarrow> master_role fs')"

lemma same_but_posted_root: "same_but_posted fs fs' \<Longrightarrow> root_children fs' = root_children fs"
  by (simp add: same_but_posted_def root_children_def)

lemma master_inv_same:
  assumes "same_but_posted fs fs'" and "master_inv fs"
  shows "master_inv fs'"
  using assms same_but_posted_root [OF assms(1)]
  by (simp add: same_but_posted_def master_inv_def tree_inv_def hosts_inv_def conns_inv_def slave_ids_def)

lemma sendUpdate_seq_master:
  assumes "tm_is_master (u_tcp_manager fs)" and "tm_master (u_tcp_manager fs) \<noteq> None"
  shows "\<exists>fs'. UserFS_sendUpdate_seq ts hs fs = Inr fs' \<and> same_but_posted fs fs' \<and>
    posted fs' = posted fs @ [PostWrite (Packet_encodeData (update_message ts hs))]"
  using assms
  by (auto simp: UserFS_sendUpdate_seq_def TCPManager_write_def same_but_posted_def posted_def
      conns_def master_role_def TCPMasterMessager_write_def)

subsection \<open>Joining and leaving\<close>

text \<open>
  What the two callbacks of the master do to its metadata, as functions on the state. \<open>joined\<close>
  gives the slave of a connection the next id, adds its marked tree and its host; \<open>left\<close> closes a
  connection and takes the nodes of its slave away. The callbacks implement them and post the
  messages that tell the slaves.
\<close>

definition joined :: "string \<Rightarrow> TreeNode \<Rightarrow> Host \<Rightarrow> nat \<Rightarrow> UserFS \<Rightarrow> UserFS" where
  "joined remote t host h fs =
     (let i = u_max_host_id fs
      in (set_conn h ((conns fs ! h)\<lparr>mc_slave_id := i\<rparr>) fs)
           \<lparr>u_max_host_id := i + 1,
            u_dir_tree := map_option
              (\<lambda>r. with_children (merge_loop (tn_children (setHostID i t)) (tn_children r)) r) (u_dir_tree fs),
            u_hosts := Hosts_push (host\<lparr>h_address := remote, h_id := i\<rparr>) (u_hosts fs)\<rparr>)"

definition left :: "nat \<Rightarrow> UserFS \<Rightarrow> UserFS" where
  "left h fs =
     (let c = conns fs ! h
      in (set_conn h ((conn_close c)\<lparr>mc_slave_id := 0\<rparr>) fs)
           \<lparr>u_dir_tree := map_option
              (\<lambda>r. with_children (filter (\<lambda>n. mc_slave_id c = 0 \<or> tn_host_id n \<noteq> mc_slave_id c) (tn_children r)) r)
              (u_dir_tree fs)\<rparr>)"

lemma conns_joined [simp]: "conns (joined remote t host h fs) = (conns fs)[h := (conns fs ! h)\<lparr>mc_slave_id := u_max_host_id fs\<rparr>]"
proof -
  have "conns (s\<lparr>u_max_host_id := n, u_dir_tree := d, u_hosts := hs\<rparr>) = conns s" for s n d hs
    by (simp add: conns_def)
  then show ?thesis by (simp add: joined_def Let_def)
qed

lemma joined_sel [simp]:
  "u_max_host_id (joined remote t host h fs) = u_max_host_id fs + 1"
  "u_hosts (joined remote t host h fs) =
     u_hosts fs @ [host\<lparr>h_address := remote, h_id := u_max_host_id fs\<rparr>]"
  "u_dir_tree (joined remote t host h fs) = map_option
     (\<lambda>r. with_children (merge_loop (tn_children (setHostID (u_max_host_id fs) t)) (tn_children r)) r) (u_dir_tree fs)"
  "u_host_id (joined remote t host h fs) = u_host_id fs"
  by (simp_all add: joined_def Let_def Hosts_push_def)

lemma left_sel [simp]:
  "conns (left h fs) = (conns fs)[h := (conn_close (conns fs ! h))\<lparr>mc_slave_id := 0\<rparr>]"
  "u_hosts (left h fs) = u_hosts fs" "u_max_host_id (left h fs) = u_max_host_id fs"
  "u_host_id (left h fs) = u_host_id fs"
  by (simp_all add: left_def Let_def)

lemma master_role_joined [simp]: "master_role (joined remote t host h fs) = master_role fs"
  by (simp add: joined_def Let_def master_role_def)

lemma master_role_left [simp]: "master_role (left h fs) = master_role fs"
  by (simp add: left_def Let_def master_role_def)

lemma master_roleD:
  "master_role fs \<Longrightarrow> tm_is_master (u_tcp_manager fs)"
  "master_role fs \<Longrightarrow> tm_master (u_tcp_manager fs) \<noteq> None"
  by (simp_all add: master_role_def)

text \<open>A child of the root that belongs to nobody does not exist.\<close>

lemma tree_inv_host_nonzero: "tree_inv fs \<Longrightarrow> c \<in> set (root_children fs) \<Longrightarrow> tn_host_id c \<noteq> 0"
  by (auto simp: tree_inv_def list_all_iff)

lemma tree_inv_host_bound:
  assumes "tree_inv fs" and "conns_inv fs" and "hosts_inv fs" and "c \<in> set (root_children fs)"
  shows "0 < unat (tn_host_id c) \<and> unat (tn_host_id c) < unat (u_max_host_id fs)"
proof -
  have "tn_host_id c = 1 \<or> tn_host_id c \<in> set (slave_ids fs)"
    using assms(1,4) by (auto simp: tree_inv_def list_all_iff slave_ids_def)
  then show ?thesis
    using assms(2,3) by (auto simp: conns_inv_def hosts_inv_def list_all_iff)
qed

lemma left_tree:
  "u_dir_tree fs = Some r \<Longrightarrow>
     u_dir_tree (left h fs) = Some (with_children (filter (\<lambda>n. mc_slave_id (conns fs ! h) = 0 \<or>
       tn_host_id n \<noteq> mc_slave_id (conns fs ! h)) (tn_children r)) r)"
  by (simp add: left_def Let_def)

lemma tree_inv_left:
  assumes "tree_inv fs" and "conns_inv fs"
  shows "tree_inv (left h fs)"
proof -
  let ?i = "mc_slave_id (conns fs ! h)"
  obtain r where r: "u_dir_tree fs = Some r" and wf: "wf_node r" and un: "uniform (tn_children r)"
    using assms(1) by (auto simp: tree_inv_def wf_tree_def root_children_def split: option.splits)
  let ?cs = "filter (\<lambda>n. ?i = 0 \<or> tn_host_id n \<noteq> ?i) (tn_children r)"
  have rc: "root_children (left h fs) = ?cs"
    by (simp add: root_children_def left_tree [OF r])
  have "wf_tree (u_dir_tree (left h fs))"
    using wf_nodeD [OF wf] by (simp add: wf_tree_def left_tree [OF r] sorted_names_filter)
      (auto simp: list_all_iff)
  moreover have "uniform ?cs"
    using un by (rule uniform_filter)
  moreover have "tn_host_id c = 1 \<or> tn_host_id c \<in> set (map mc_slave_id (conns (left h fs))) - {0}"
    if c: "c \<in> set ?cs" for c
  proof -
    have "tn_host_id c = 1 \<or> tn_host_id c \<in> set (map mc_slave_id (conns fs)) - {0}"
      using assms(1) c r by (auto simp: tree_inv_def root_children_def list_all_iff)
    moreover have "tn_host_id c \<in> set ((map mc_slave_id (conns fs))[h := 0])"
      if "tn_host_id c \<in> set (map mc_slave_id (conns fs)) - {0}"
    proof (cases "h < length (conns fs)")
      case True
      with that c show ?thesis by (intro nth_in_set_update) auto
    next
      case False
      with that show ?thesis by (simp add: list_update_beyond)
    qed
    ultimately show ?thesis by (auto simp: map_update)
  qed
  ultimately show ?thesis
    unfolding tree_inv_def rc list_all_iff by blast
qed

lemma conns_inv_left: "conns_inv fs \<Longrightarrow> conns_inv (left h fs)"
proof -
  assume inv: "conns_inv fs"
  have ids: "slave_ids (left h fs) = filter (\<lambda>i. i \<noteq> 0) ((map mc_slave_id (conns fs))[h := 0])"
    by (simp add: slave_ids_def map_update)
  then have "set (slave_ids (left h fs)) \<subseteq> set (slave_ids fs)"
    using set_update_subset_insert [of "map mc_slave_id (conns fs)" h 0] by (auto simp: slave_ids_def)
  moreover have "distinct (slave_ids (left h fs))"
    unfolding ids using inv by (intro distinct_nonzero_clear) (simp add: conns_inv_def slave_ids_def)
  moreover have "mc_slave_id c = 0 \<or> mc_open c" if "c \<in> set (conns (left h fs))" for c
    using that inv
    by (auto simp: conns_inv_def list_all_iff dest!: subsetD [OF set_update_subset_insert])
  ultimately show ?thesis
    using inv by (auto simp: conns_inv_def list_all_iff)
qed

lemma master_inv_left: "master_inv fs \<Longrightarrow> master_inv (left h fs)"
  by (simp add: master_inv_def tree_inv_left conns_inv_left) (simp add: hosts_inv_def)

text \<open>The id a slave gets is new.\<close>

lemma next_id_fresh:
  assumes "conns_inv fs" and "hosts_inv fs"
  shows "u_max_host_id fs \<notin> set (map mc_slave_id (conns fs))" and "u_max_host_id fs \<noteq> 0"
proof -
  show nz: "u_max_host_id fs \<noteq> 0"
    using assms(2) by (auto simp: hosts_inv_def)
  have "u_max_host_id fs \<notin> set (slave_ids fs)"
    using assms(1) by (auto simp: conns_inv_def list_all_iff)
  with nz show "u_max_host_id fs \<notin> set (map mc_slave_id (conns fs))"
    by (simp add: slave_ids_def)
qed

lemma unat_Suc_max:
  "unat (n :: u64) + 1 < 2 ^ 64 \<Longrightarrow> unat (n + 1) = Suc (unat n)"
  by (simp add: unat_word_ariths)

lemma tree_inv_joined:
  assumes "tree_inv fs" and "conns_inv fs" and "hosts_inv fs" and "wf_node t"
    and "h < length (conns fs)" and "mc_slave_id (conns fs ! h) = 0"
  shows "tree_inv (joined remote t host h fs)"
proof -
  let ?i = "u_max_host_id fs" and ?fs' = "joined remote t host h fs"
  obtain r where r: "u_dir_tree fs = Some r" and wf: "wf_node r" and un: "uniform (tn_children r)"
    using assms(1) by (auto simp: tree_inv_def wf_tree_def root_children_def split: option.splits)
  have wft: "wf_node (setHostID ?i t)" using assms(4) by simp
  let ?cs = "merge_loop (tn_children (setHostID ?i t)) (tn_children r)"
  have rc: "root_children ?fs' = ?cs"
    by (simp add: root_children_def r del: setHostID_sel)
  have "wf_tree (u_dir_tree ?fs')"
    using wf_nodeD [OF wf] wf_nodeD [OF wft]
    by (simp add: wf_tree_def r inv_intros del: setHostID_sel)
  moreover have "uniform ?cs"
    by (intro uniform_merge_loop uniform_setHostID un)
  moreover have "tn_host_id c = 1 \<or> tn_host_id c \<in> set (map mc_slave_id (conns ?fs')) - {0}"
    if c: "c \<in> set ?cs" for c
  proof (cases "c \<in> set (tn_children r)")
    case True
    then have "tn_host_id c = 1 \<or> tn_host_id c \<in> set (map mc_slave_id (conns fs)) - {0}"
      using assms(1) r by (auto simp: tree_inv_def root_children_def list_all_iff)
    moreover have "tn_host_id c \<in> set ((map mc_slave_id (conns fs))[h := ?i])"
      if "tn_host_id c \<in> set (map mc_slave_id (conns fs)) - {0}"
      using that assms(5,6) by (intro nth_in_set_update) auto
    ultimately show ?thesis by (auto simp: map_update)
  next
    case False
    with c set_merge_loop have "c \<in> set (tn_children (setHostID ?i t))" by blast
    then have "tn_host_id c = ?i" by (rule children_setHostID_host)
    moreover have "?i \<in> set ((map mc_slave_id (conns fs))[h := ?i])"
      using assms(5) by (intro set_update_memI) simp
    ultimately show ?thesis
      using next_id_fresh(2) [OF assms(2,3)] by (simp add: map_update)
  qed
  ultimately show ?thesis
    unfolding tree_inv_def rc list_all_iff by blast
qed

lemma hosts_inv_joined:
  assumes "hosts_inv fs" and "unat (u_max_host_id fs) + 1 < 2 ^ 64"
  shows "hosts_inv (joined remote t host h fs)"
  using assms hosts_indexed_push [of "u_hosts fs" "host\<lparr>h_address := remote, h_id := u_max_host_id fs\<rparr>"]
  by (simp add: hosts_inv_def unat_Suc_max Hosts_push_def)

lemma conns_inv_joined:
  assumes "conns_inv fs" and "hosts_inv fs" and "unat (u_max_host_id fs) + 1 < 2 ^ 64"
    and "mc_open (conns fs ! h)" and "h < length (conns fs)"
  shows "conns_inv (joined remote t host h fs)"
proof -
  let ?i = "u_max_host_id fs" and ?fs' = "joined remote t host h fs"
  have ids: "slave_ids ?fs' = filter (\<lambda>i. i \<noteq> 0) ((map mc_slave_id (conns fs))[h := ?i])"
    by (simp add: slave_ids_def map_update)
  then have sub: "set (slave_ids ?fs') \<subseteq> insert ?i (set (slave_ids fs))"
    using set_update_subset_insert [of "map mc_slave_id (conns fs)" h ?i] by (auto simp: slave_ids_def)
  have "distinct (slave_ids ?fs')"
    unfolding ids using assms(1) next_id_fresh(1) [OF assms(1,2)]
    by (intro distinct_nonzero_set) (simp_all add: conns_inv_def slave_ids_def)
  moreover have "2 \<le> unat i \<and> unat i < unat (?i + 1)" if "i \<in> set (slave_ids ?fs')" for i
    using that sub assms(1,2)
    by (fastforce simp: unat_Suc_max [OF assms(3)] conns_inv_def hosts_inv_def list_all_iff less_Suc_eq)
  moreover have "mc_slave_id c = 0 \<or> mc_open c" if "c \<in> set (conns ?fs')" for c
    using that assms(1,4)
    by (auto simp: conns_inv_def list_all_iff dest!: subsetD [OF set_update_subset_insert])
  ultimately show ?thesis
    by (auto simp: conns_inv_def list_all_iff)
qed

lemma master_inv_joined:
  assumes "master_inv fs" and "wf_node t" and "h < length (conns fs)"
    and "mc_slave_id (conns fs ! h) = 0" and "mc_open (conns fs ! h)"
    and "unat (u_max_host_id fs) + 1 < 2 ^ 64"
  shows "master_inv (joined remote t host h fs)"
  using assms by (simp add: master_inv_def tree_inv_joined hosts_inv_joined conns_inv_joined)

subsection \<open>The callbacks implement joining and leaving\<close>

lemma sendUpdate_master:
  assumes "master_role fs"
  shows "\<exists>fs'. UserFS_sendUpdate B fs = Inr fs' \<and> same_but_posted fs fs' \<and>
    posted fs' = posted fs @ [PostWrite (Packet_encodeData
      (update_message (DirTree_serialize B (u_dir_tree fs)) (Hosts_serialize B (u_hosts fs))))]"
  unfolding UserFS_sendUpdate_def
  by (rule sendUpdate_seq_master) (use assms in \<open>simp_all add: master_role_def\<close>)

lemma posted_simps [simp]:
  "posted (set_conn h c fs) = posted fs" "posted (fs\<lparr>u_dir_tree := d\<rparr>) = posted fs"
  "posted (left h fs) = posted fs" "posted (joined remote t host h fs) = posted fs"
  by (simp_all add: posted_def set_conn_def left_def joined_def Let_def map_master_def split: option.split)

lemma same_but_posted_refl [simp]: "same_but_posted fs fs"
  by (simp add: same_but_posted_def)

lemma same_but_posted_trans: "same_but_posted a b \<Longrightarrow> same_but_posted b c \<Longrightarrow> same_but_posted a c"
  by (simp add: same_but_posted_def)

definition update_of :: "boost_archive \<Rightarrow> UserFS \<Rightarrow> bytes" where
  "update_of B fs = update_message (DirTree_serialize B (u_dir_tree fs)) (Hosts_serialize B (u_hosts fs))"

definition recognition_of :: "boost_archive \<Rightarrow> u64 \<Rightarrow> UserFS \<Rightarrow> bytes" where
  "recognition_of B i fs =
     recognition_message i (DirTree_serialize B (u_dir_tree fs)) (Hosts_serialize B (u_hosts fs))"

lemma left_unrecognised:
  assumes "mc_slave_id (conns fs ! h) = 0"
  shows "left h fs = set_conn h (conn_close (conns fs ! h)) fs"
proof -
  have "(conn_close (conns fs ! h))\<lparr>mc_slave_id := 0\<rparr> = conn_close (conns fs ! h)"
    using assms by (simp add: conn_close_def)
  moreover have "map_option (\<lambda>r. with_children (tn_children r) r) d = d" for d
    by (cases d) simp_all
  ultimately show ?thesis
    using assms by (simp add: left_def Let_def set_conn_def map_master_def)
qed

lemma left_recognised:
  assumes "mc_slave_id (conns fs ! h) \<noteq> 0" and "u_dir_tree fs = Some r"
  shows "left h fs = set_conn h ((conn_close (conns fs ! h))\<lparr>mc_slave_id := 0\<rparr>)
    (fs\<lparr>u_dir_tree := Some (with_children (removeOf_loop (mc_slave_id (conns fs ! h)) (tn_children r)) r)\<rparr>)"
  using assms by (simp add: left_def Let_def removeOf_loop_eq set_conn_def map_master_def)

lemma set_conn_twice [simp]: "set_conn h c (set_conn h d fs) = set_conn h c fs"
  by (simp add: set_conn_def map_master_def option.map_comp comp_def)

lemma close_implements_left:
  assumes "master_role fs" and "u_dir_tree fs = Some r" and "h < length (conns fs)"
    and "mc_open (conns fs ! h)"
  shows "\<exists>fs'. TCPMasterMessager_close B h fs = Inr fs' \<and> same_but_posted (left h fs) fs' \<and>
    posted fs' = posted fs @
      (if mc_slave_id (conns fs ! h) = 0 then [] else [PostWrite (Packet_encodeData (update_of B (left h fs)))])"
proof -
  let ?c = "conns fs ! h"
  have at: "conn_at h fs = Inr ?c" "conn_at h (set_conn h (conn_close ?c) fs) = Inr (conn_close ?c)"
    using assms(1,3) by (simp_all add: conn_at_eq master_roleD)
  have id: "mc_slave_id (conn_close ?c) = mc_slave_id ?c"
    by (simp add: conn_close_def)
  show ?thesis
  proof (cases "mc_slave_id ?c = 0")
    case True
    then show ?thesis
      using assms(4) at by (simp add: TCPMasterMessager_close_def UserFS_disconnect_slave_def id left_unrecognised)
  next
    case False
    have "TCPMasterMessager_close B h fs = UserFS_sendUpdate B (left h fs)"
      using assms(2,4) at False
      by (simp add: TCPMasterMessager_close_def UserFS_disconnect_slave_def id left_recognised [OF False assms(2)]
          DirTree_removeOf_def) (simp add: set_conn_def map_master_def option.map_comp comp_def)
    then show ?thesis
      using sendUpdate_master [of "left h fs" B] assms(1) False by (simp add: update_of_def)
  qed
qed

lemma close_closed:
  assumes "master_role fs" and "h < length (conns fs)" and "\<not> mc_open (conns fs ! h)"
  shows "TCPMasterMessager_close B h fs = Inr fs"
  using assms by (simp add: TCPMasterMessager_close_def conn_at_eq master_roleD)

lemma writeTo_master:
  assumes "master_role fs"
  shows "\<exists>tm. TCPManager_writeTo msg h (u_tcp_manager fs) = Inr tm \<and>
    same_but_posted fs (fs\<lparr>u_tcp_manager := tm\<rparr>) \<and> master_role (fs\<lparr>u_tcp_manager := tm\<rparr>) \<and>
    posted (fs\<lparr>u_tcp_manager := tm\<rparr>) = posted fs @ [PostWriteTo (Packet_encodeData msg) h]"
  using assms
  by (auto simp: TCPManager_writeTo_def TCPMasterMessager_writeTo_def same_but_posted_def posted_def
      conns_def master_role_def)

lemma newConnection_unfold:
  fixes remote :: string
  assumes "master_role fs" and "u_dir_tree fs = Some r" and "h < length (conns fs)"
    and "DirTree_deserialize B ts = Inr (Some t)" and "Host_deserialize B hs = Inr host"
  defines "j \<equiv> joined remote t host h fs"
  shows "UserFS_newConnection B remote ts hs h fs =
    res_bind (TCPManager_writeTo (recognition_of B (u_max_host_id fs) j) h (u_tcp_manager j))
      (\<lambda>tm. UserFS_sendUpdate_seq (DirTree_serialize B (u_dir_tree j)) (Hosts_serialize B (u_hosts j))
         (j\<lparr>u_tcp_manager := tm\<rparr>))"
proof -
  have "conn_at h (fs\<lparr>u_max_host_id := n\<rparr>) = Inr (conns fs ! h)" for n
    using assms(1,3) by (simp add: conn_at_eq master_role_def)
  then show ?thesis
    using assms(2,4,5)
    by (simp add: UserFS_newConnection_def DirTree_hasConflict_def it_range_def DirTree_merge_def
        j_def joined_def Let_def recognition_of_def set_conn_def map_master_def del: setHostID_sel)
qed

lemma newConnection_implements_joined:
  assumes "master_role fs" and "u_dir_tree fs = Some r" and "h < length (conns fs)"
    and "DirTree_deserialize B ts = Inr (Some t)" and "Host_deserialize B hs = Inr host"
  shows "\<exists>fs'. UserFS_newConnection B remote ts hs h fs = Inr fs' \<and>
    same_but_posted (joined remote t host h fs) fs' \<and>
    posted fs' = posted fs @
      [PostWriteTo (Packet_encodeData (recognition_of B (u_max_host_id fs) (joined remote t host h fs))) h,
       PostWrite (Packet_encodeData (update_of B (joined remote t host h fs)))]"
proof -
  let ?j = "joined remote t host h fs"
  obtain tm where tm: "TCPManager_writeTo (recognition_of B (u_max_host_id fs) ?j) h (u_tcp_manager ?j) = Inr tm"
    and same: "same_but_posted ?j (?j\<lparr>u_tcp_manager := tm\<rparr>)"
    and role: "master_role (?j\<lparr>u_tcp_manager := tm\<rparr>)"
    and post: "posted (?j\<lparr>u_tcp_manager := tm\<rparr>) = posted fs @
      [PostWriteTo (Packet_encodeData (recognition_of B (u_max_host_id fs) ?j)) h]"
    using writeTo_master [of ?j "recognition_of B (u_max_host_id fs) ?j" h] assms(1) by auto
  from newConnection_unfold [OF assms, where remote = remote] tm
  have "UserFS_newConnection B remote ts hs h fs =
    UserFS_sendUpdate_seq (DirTree_serialize B (u_dir_tree ?j)) (Hosts_serialize B (u_hosts ?j)) (?j\<lparr>u_tcp_manager := tm\<rparr>)"
    by simp
  with sendUpdate_seq_master [OF master_roleD [OF role], of "DirTree_serialize B (u_dir_tree ?j)" "Hosts_serialize B (u_hosts ?j)"]
  show ?thesis
    using same post by (auto simp: update_of_def intro: same_but_posted_trans)
qed

lemma same_but_posted_of:
  "same_but_posted fs fs' \<Longrightarrow> update_of B fs' = update_of B fs"
  "same_but_posted fs fs' \<Longrightarrow> recognition_of B i fs' = recognition_of B i fs"
  by (simp_all add: update_of_def recognition_of_def same_but_posted_def)

text \<open>A master for the examples.\<close>

definition sample_master :: "master_conn list \<Rightarrow> UserFS" where
  "sample_master cs = (sample_scan 1)\<lparr>u_hosts := [sample_host 1, sample_host 1],
     u_tcp_manager := TCPManager_new\<lparr>tm_is_master := True,
       tm_master := Some (TCPMasterMessager_new\<lparr>mm_connections := cs\<rparr>)\<rparr>\<rparr>"

lemma hosts_indexed_pair: "hosts_indexed [a, b] \<longleftrightarrow> unat (h_id b) = 1"
  by (auto simp: hosts_indexed_def less_Suc_eq)

lemma sample_master_inv: "master_inv (sample_master [conn_new])"
  by (simp add: master_inv_def master_role_def tree_inv_def hosts_inv_def conns_inv_def slave_ids_def conns_def
      root_children_def sample_master_def sample_scan_def sample_defs wf_tree_def uniform_def owned_by_def
      hosts_indexed_pair sample_host_def conn_new_def UserFS_new_def)

lemma sample_master_sel [simp]:
  "conns (sample_master cs) = cs" "u_max_host_id (sample_master cs) = 2"
  "u_hosts (sample_master cs) = [sample_host 1, sample_host 1]" "u_host_id (sample_master cs) = 1"
  by (simp_all add: sample_master_def conns_def sample_scan_def UserFS_new_def)

lemma sample_hello:
  "DirTree_deserialize tagged_archive (DirTree_serialize tagged_archive (Some standby_tree)) = Inr (Some standby_tree)"
  "Host_deserialize tagged_archive (Host_serialize tagged_archive (sample_host 0)) = Inr (sample_host 0)"
  by (simp_all add: codec_simps archive_lossless_tagged wf_tree_def)

definition sample_joined :: UserFS where
  "sample_joined = joined ''10.0.0.7'' standby_tree (sample_host 0) 0 (sample_master [conn_new])"

lemma sample_joined_inv: "master_inv sample_joined"
  unfolding sample_joined_def
  by (rule master_inv_joined [OF sample_master_inv]) (simp_all add: conn_new_def)

lemma sample_joined_sel [simp]:
  "conns sample_joined = [conn_new\<lparr>mc_slave_id := 2\<rparr>]" "u_max_host_id sample_joined = 3"
  by (simp_all add: sample_joined_def)

lemma master_inv_tree: "master_inv fs \<Longrightarrow> \<exists>r. u_dir_tree fs = Some r"
  by (auto simp: master_inv_def tree_inv_def wf_tree_def split: option.splits)

subsection \<open>Starting; every file has its host\<close>

text \<open>
  Starting as a master, in the order \<^verbatim>\<open>setMaster\<close>, \<^verbatim>\<open>initDirTree\<close>, \<^verbatim>\<open>initHost\<close>,
  \<^verbatim>\<open>initTCPNetwork\<close>, establishes the invariant of a master whenever the calls succeed, for
  every shared directory.
\<close>

lemma master_start:
  assumes scan: "UserFS_initDirTree absolute junk now nl es wd (UserFS_setMaster UserFS_new) = Inr fs"
    and net: "UserFS_initTCPNetwork B resolve listen_error addr port (UserFS_initHost addr tcp_port ssh_port fs)
      = Inr (False, fs')"
  shows "master_inv fs'"
proof (rule initDirTree_scan_inv [OF scan])
  fix r
  assume fs: "fs = UserFS_setMaster UserFS_new\<lparr>u_working_dir := add_trailing_slash (absolute wd), u_dir_tree := Some r\<rparr>"
    and inv: "scan_inv (u_host_id (UserFS_setMaster UserFS_new)) (tn_children r)"
  have inv: "scan_inv 1 (tn_children r)"
    using inv by (simp add: UserFS_setMaster_def)
  have wf: "wf_node r" and un: "uniform (tn_children r)" and own: "list_all (\<lambda>c. tn_host_id c = 1) (tn_children r)"
    using wf_node_iff [of r] scan_inv_member [OF inv] inv
    by (auto simp: scan_inv_def uniform_def list_all_iff owned_by_def)
  have start: "u_dir_tree fs' = Some r \<and> u_max_host_id fs' = 2 \<and> conns fs' = [] \<and> master_role fs' \<and>
    length (u_hosts fs') = 2 \<and> hosts_indexed (u_hosts fs')"
    using net
    by (auto simp: UserFS_initTCPNetwork_def UserFS_initHost_def fs UserFS_setMaster_def UserFS_new_def
        TCPManager_initialize_def TCPManager_start_def TCPMasterMessager_init_def TCPMasterMessager_start_def
        TCPMasterMessager_new_def TCPManager_new_def UserFS_pushMaster_def Hosts_at_def Hosts_push_def
        conns_def master_role_def hosts_indexed_def Let_def less_Suc_eq split: prod.splits if_splits list.splits)
  then show ?thesis
    using wf un own
    by (simp add: master_inv_def tree_inv_def wf_tree_def root_children_def hosts_inv_def conns_inv_def
        slave_ids_def list_all_iff)
qed

text \<open>
  Every file has its host: under the invariant of a master, the id that any node below the
  root carries is an index into the vector of hosts, and the host found there has this id.
\<close>

lemma files_have_hosts:
  assumes "master_inv fs" and "u_dir_tree fs = Some r" and "n \<in> set (below r)"
  shows "\<exists>host. Hosts_at (u_hosts fs) (tn_host_id n) = Inr host \<and> h_id host = tn_host_id n"
proof -
  obtain c where c: "c \<in> set (tn_children r)" "n \<in> set (c # below c)"
    using assms(3) below_eq [of r] by auto
  have un: "uniform (tn_children r)" and inv: "tree_inv fs" "conns_inv fs" "hosts_inv fs"
    using assms(1,2) by (auto simp: master_inv_def tree_inv_def root_children_def)
  have "tn_host_id n = tn_host_id c"
    using c uniform_owned [OF un c(1)] by (blast dest: owned_byD)
  moreover have "0 < unat (tn_host_id c) \<and> unat (tn_host_id c) < unat (u_max_host_id fs)"
    using c(1) assms(2) by (intro tree_inv_host_bound [OF inv]) (simp add: root_children_def)
  ultimately show ?thesis
    using hosts_indexed_at [of "u_hosts fs" "tn_host_id n"] inv(3) by (simp add: hosts_inv_def)
qed

subsection \<open>Properties\<close>

text \<open>
  \<^bold>\<open>C20\<close>. A slave joins. When a hello message can be decoded and arrives on an open connection that
  has no slave yet, the master gives the slave the next id, merges its marked tree, appends its host
  at that index, keeps its invariant, and posts first the recognition for this slave and then an
  update for everybody, both with the new tree and the new hosts.
\<close>

theorem new_slave_joins:
  assumes "master_inv fs" and "h < length (conns fs)" and "mc_open (conns fs ! h)"
    and "mc_slave_id (conns fs ! h) = 0" and "unat (u_max_host_id fs) + 1 < 2 ^ 64"
    and "DirTree_deserialize B ts = Inr (Some t)" and "Host_deserialize B hs = Inr host"
  shows "\<exists>fs'. UserFS_newConnection B remote ts hs h fs = Inr fs' \<and> master_inv fs' \<and>
           same_but_posted (joined remote t host h fs) fs' \<and>
           Hosts_at (u_hosts fs') (u_max_host_id fs) = Inr (host\<lparr>h_address := remote, h_id := u_max_host_id fs\<rparr>) \<and>
           posted fs' = posted fs @
             [PostWriteTo (Packet_encodeData (recognition_of B (u_max_host_id fs) fs')) h,
              PostWrite (Packet_encodeData (update_of B fs'))]"
proof -
  let ?j = "joined remote t host h fs"
  obtain r where r: "u_dir_tree fs = Some r" and role: "master_role fs"
    using assms(1) by (auto simp: master_inv_def tree_inv_def wf_tree_def split: option.splits)
  obtain fs' where new: "UserFS_newConnection B remote ts hs h fs = Inr fs'" and same: "same_but_posted ?j fs'"
    and post: "posted fs' = posted fs @ [PostWriteTo (Packet_encodeData (recognition_of B (u_max_host_id fs) ?j)) h,
       PostWrite (Packet_encodeData (update_of B ?j))]"
    using newConnection_implements_joined [OF role r assms(2,6,7), of remote] by blast
  have "master_inv ?j"
    using assms by (intro master_inv_joined DirTree_deserialize_wf [OF assms(6)])
  moreover have "length (u_hosts fs) = unat (u_max_host_id fs)"
    using assms(1) by (simp add: master_inv_def hosts_inv_def)
  then have "Hosts_at (u_hosts fs') (u_max_host_id fs) = Inr (host\<lparr>h_address := remote, h_id := u_max_host_id fs\<rparr>)"
    using same Hosts_at_push_new [of "u_max_host_id fs" "u_hosts fs"]
    by (simp add: same_but_posted_def Hosts_push_def)
  ultimately show ?thesis
    using new same post same_but_posted_of [OF same] master_inv_same [OF same] by auto
qed

theorem new_slave_joins_witness:
  "\<exists>fs'. UserFS_newConnection tagged_archive ''10.0.0.7''
       (DirTree_serialize tagged_archive (Some standby_tree)) (Host_serialize tagged_archive (sample_host 0)) 0
       (sample_master [conn_new]) = Inr fs' \<and> master_inv fs' \<and>
     Hosts_at (u_hosts fs') 2 = Inr ((sample_host 0)\<lparr>h_address := ''10.0.0.7'', h_id := 2\<rparr>)"
  using new_slave_joins [OF sample_master_inv, of 0 tagged_archive _ standby_tree _ "sample_host 0" "''10.0.0.7''"]
    sample_hello
  by (auto simp: conn_new_def)

text \<open>
  \<^bold>\<open>C21\<close>. A slave leaves. Closing the connection of a recognised slave keeps the invariant, removes
  the nodes of that slave and no others, leaves the hosts and the other connections as they are,
  marks this connection closed and free, and posts one update with the new tree; closing again
  does nothing.
\<close>

theorem slave_leaves:
  assumes "master_inv fs" and "u_dir_tree fs = Some r" and "h < length (conns fs)"
    and "mc_open (conns fs ! h)" and "mc_slave_id (conns fs ! h) = i" and "i \<noteq> 0"
  shows "\<exists>fs' r'. TCPMasterMessager_close B h fs = Inr fs' \<and> master_inv fs' \<and> u_dir_tree fs' = Some r' \<and>
           (\<forall>k ks n. lookup_path r' (k # ks) = Some n \<longleftrightarrow> lookup_path r (k # ks) = Some n \<and> tn_host_id n \<noteq> i) \<and>
           u_hosts fs' = u_hosts fs \<and>
           conns fs' = (conns fs)[h := (conns fs ! h)\<lparr>mc_open := False, mc_queue := [], mc_slave_id := 0\<rparr>] \<and>
           posted fs' = posted fs @ [PostWrite (Packet_encodeData (update_of B fs'))] \<and>
           TCPMasterMessager_close B h fs' = Inr fs'"
proof -
  have role: "master_role fs" and wf: "wf_node r" and un: "uniform (tn_children r)"
    using assms(1,2) by (auto simp: master_inv_def tree_inv_def wf_tree_def root_children_def)
  obtain fs' where close: "TCPMasterMessager_close B h fs = Inr fs'" and same: "same_but_posted (left h fs) fs'"
    and post: "posted fs' = posted fs @ [PostWrite (Packet_encodeData (update_of B (left h fs)))]"
    using close_implements_left [OF role assms(2,3,4), of B] assms(5,6) by auto
  have tree: "u_dir_tree fs' = Some (with_children (filter (\<lambda>n. tn_host_id n \<noteq> i) (tn_children r)) r)"
    using same left_tree [OF assms(2), of h] assms(5,6) by (simp add: same_but_posted_def)
  have cs: "conns fs' = (conns fs)[h := (conns fs ! h)\<lparr>mc_open := False, mc_queue := [], mc_slave_id := 0\<rparr>]"
    "u_hosts fs' = u_hosts fs"
    using same by (simp_all add: same_but_posted_def conn_close_def)
  have inv: "master_inv fs'" using same assms(1) by (blast intro: master_inv_same master_inv_left)
  then have "TCPMasterMessager_close B h fs' = Inr fs'"
    using assms(3) by (intro close_closed) (simp_all add: cs master_inv_def)
  moreover have "posted fs' = posted fs @ [PostWrite (Packet_encodeData (update_of B fs'))]"
    by (simp only: post same_but_posted_of(1) [OF same])
  ultimately show ?thesis
    using close inv tree cs restrict_hosts [OF wf un, of "\<lambda>j. j \<noteq> i"] by blast
qed

theorem slave_leaves_witness:
  "\<exists>fs'. TCPMasterMessager_close tagged_archive 0 sample_joined = Inr fs' \<and> master_inv fs' \<and> slave_ids fs' = []"
proof -
  obtain r where "u_dir_tree sample_joined = Some r"
    using master_inv_tree [OF sample_joined_inv] by blast
  from slave_leaves [OF sample_joined_inv this, of 0 2 tagged_archive] show ?thesis
    by (force simp: conn_new_def slave_ids_def)
qed

text \<open>
  \<^bold>\<open>C37\<close>. The order of \<^verbatim>\<open>start\<close> and \<^verbatim>\<open>_hosts.push(_hosts[0])\<close> matters. If a slave is
  recognised after the thread of the manager has been started and before the master has pushed its
  own host, the two hosts end up at each other's index: index 2, the id of the slave, holds the
  master, so files of the slave are looked for at the master.
\<close>

theorem early_slave_swaps_hosts:
  assumes "master_role fs" and "u_dir_tree fs = Some r" and "h < length (conns fs)"
    and "u_hosts fs = [self]" and "u_max_host_id fs = 2"
    and "DirTree_deserialize B ts = Inr (Some t)" and "Host_deserialize B hs = Inr host"
  shows "\<exists>fs'. res_bind (UserFS_newConnection B remote ts hs h fs) UserFS_pushMaster = Inr fs' \<and>
           mc_slave_id (conns fs' ! h) = 2 \<and> Hosts_at (u_hosts fs') 2 = Inr self \<and>
           Hosts_at (u_hosts fs') 1 = Inr (host\<lparr>h_address := remote, h_id := 2\<rparr>)"
proof -
  obtain fs1 where new: "UserFS_newConnection B remote ts hs h fs = Inr fs1"
    and same: "same_but_posted (joined remote t host h fs) fs1"
    using newConnection_implements_joined [OF assms(1,2,3,6,7), of remote] by blast
  from same assms(3,4,5) have "u_hosts fs1 = [self, host\<lparr>h_address := remote, h_id := 2\<rparr>]"
    "mc_slave_id (conns fs1 ! h) = 2"
    by (simp_all add: same_but_posted_def)
  then show ?thesis
    using new by (simp add: UserFS_pushMaster_def Hosts_at_def Hosts_push_def)
qed

theorem early_slave_swaps_hosts_witness:
  "\<exists>fs'. res_bind (UserFS_newConnection tagged_archive ''10.0.0.7''
       (DirTree_serialize tagged_archive (Some standby_tree)) (Host_serialize tagged_archive (sample_host 0)) 0
       ((sample_master [conn_new])\<lparr>u_hosts := [sample_host 1]\<rparr>)) UserFS_pushMaster = Inr fs' \<and>
     Hosts_at (u_hosts fs') 2 = Inr (sample_host 1)"
proof -
  let ?fs = "(sample_master [conn_new])\<lparr>u_hosts := [sample_host 1]\<rparr>"
  obtain r where "u_dir_tree ?fs = Some r" using master_inv_tree [OF sample_master_inv] by auto
  moreover have "master_role ?fs" using sample_master_inv by (simp add: master_inv_def master_role_def)
  moreover have "u_max_host_id ?fs = 2" "0 < length (conns ?fs)" "u_hosts ?fs = [sample_host 1]" by simp_all
  ultimately show ?thesis
    using early_slave_swaps_hosts [of ?fs r 0 "sample_host 1" tagged_archive _ standby_tree _ "sample_host 0" "''10.0.0.7''"]
      sample_hello by blast
qed

text \<open>
  \<^bold>\<open>C36\<close>. A connection that introduces itself twice leaves nodes behind: the second hello message
  gives the connection a new id, so that closing it removes the nodes of the new id only; the nodes
  of the first id stay in the tree of the master, though no connection carries their id.
\<close>

theorem second_hello_orphans_nodes:
  assumes "master_inv fs" and "h < length (conns fs)" and "mc_open (conns fs ! h)"
    and "mc_slave_id (conns fs ! h) = i" and "i \<noteq> 0"
    and "c \<in> set (root_children fs)" and "tn_host_id c = i"
    and "DirTree_deserialize B ts = Inr (Some t)" and "Host_deserialize B hs = Inr host"
  shows "\<exists>fs1 fs2. UserFS_newConnection B remote ts hs h fs = Inr fs1 \<and>
           TCPMasterMessager_close B h fs1 = Inr fs2 \<and>
           c \<in> set (root_children fs2) \<and> tn_host_id c \<notin> set (map mc_slave_id (conns fs2))"
proof -
  let ?i' = "u_max_host_id fs" and ?j = "joined remote t host h fs"
  obtain r where r: "u_dir_tree fs = Some r" using master_inv_tree [OF assms(1)] by blast
  have inv: "master_role fs" "conns_inv fs" "hosts_inv fs" using assms(1) by (simp_all add: master_inv_def)
  have fresh: "?i' \<notin> set (map mc_slave_id (conns fs))" "?i' \<noteq> 0"
    using next_id_fresh [OF inv(2,3)] by simp_all
  moreover have "i \<in> set (map mc_slave_id (conns fs))" using assms(2,4) by auto
  ultimately have ne: "i \<noteq> ?i'" by blast
  obtain fs1 where new: "UserFS_newConnection B remote ts hs h fs = Inr fs1" and same1: "same_but_posted ?j fs1"
    using newConnection_implements_joined [OF inv(1) r assms(2,8,9), of remote] by blast
  let ?r1 = "with_children (merge_loop (tn_children (setHostID ?i' t)) (tn_children r)) r"
  have fs1: "u_dir_tree fs1 = Some ?r1" "master_role fs1"
    "conns fs1 = (conns fs)[h := (conns fs ! h)\<lparr>mc_slave_id := ?i'\<rparr>]"
    using same1 inv(1) by (simp_all add: same_but_posted_def r del: setHostID_sel)
  obtain fs2 where close: "TCPMasterMessager_close B h fs1 = Inr fs2" and same2: "same_but_posted (left h fs1) fs2"
    using close_implements_left [OF fs1(2,1), of h B] assms(2,3) by (auto simp: fs1(3))
  have "c \<in> set (tn_children ?r1)"
    using assms(6) merge_loop_superset [of "tn_children r"] by (auto simp: root_children_def r)
  then have "c \<in> set (root_children fs2)"
    using same_but_posted_root [OF same2] left_tree [OF fs1(1), of h] assms(2,7) ne fresh(2)
    by (simp add: root_children_def fs1(3))
  moreover have "i \<notin> set (map mc_slave_id (conns fs2))"
  proof -
    have "distinct (filter (\<lambda>i. i \<noteq> 0) (map mc_slave_id (conns fs)))"
      using inv(2) by (simp add: conns_inv_def slave_ids_def)
    from nonzero_cleared [OF this, of h i] assms(2,4,5) same2 show ?thesis
      by (simp add: same_but_posted_def map_update fs1(3))
  qed
  ultimately show ?thesis using new close assms(7) by blast
qed

theorem second_hello_orphans_nodes_witness:
  "\<exists>fs1 fs2 c. UserFS_newConnection tagged_archive ''10.0.0.7''
       (DirTree_serialize tagged_archive (Some standby_tree)) (Host_serialize tagged_archive (sample_host 0)) 0
       sample_joined = Inr fs1 \<and>
     TCPMasterMessager_close tagged_archive 0 fs1 = Inr fs2 \<and>
     c \<in> set (root_children fs2) \<and> tn_host_id c \<notin> set (map mc_slave_id (conns fs2))"
proof -
  let ?n = "sample_file 2 ''standby1_file1''"
  obtain r where r: "u_dir_tree (sample_master [conn_new]) = Some r" "sorted_names (tn_children r)"
    "set_find ''standby1_file1'' (tn_children r) = None"
    by (simp add: sample_master_def sample_scan_def sample_defs)
  have t: "tn_children (setHostID 2 standby_tree) = [sample_file 2 ''master_file1'', ?n]"
    by (simp add: sample_defs with_host_TreeNode)
  have "set_find ''standby1_file1'' (merge_loop [sample_file 2 ''master_file1'', ?n] (tn_children r)) = Some ?n"
    by (subst set_find_merge [OF r(2)]) (simp_all add: r(3) sample_file_def)
  then have "?n \<in> set (root_children sample_joined)"
    by (simp add: sample_joined_def root_children_def r(1) t set_find_Some del: setHostID_sel)
  from second_hello_orphans_nodes [OF sample_joined_inv _ _ _ _ this _ sample_hello, of 0 2 "''10.0.0.7''"]
  have "\<exists>fs1 fs2. UserFS_newConnection tagged_archive ''10.0.0.7''
       (DirTree_serialize tagged_archive (Some standby_tree)) (Host_serialize tagged_archive (sample_host 0)) 0
       sample_joined = Inr fs1 \<and> TCPMasterMessager_close tagged_archive 0 fs1 = Inr fs2 \<and>
     ?n \<in> set (root_children fs2) \<and> tn_host_id ?n \<notin> set (map mc_slave_id (conns fs2))"
    by (simp add: conn_new_def sample_file_def)
  then show ?thesis by blast
qed

text \<open>
  \<^bold>\<open>C39\<close>. A slave that shares a name which is taken is meant to be rejected, but it is accepted, its
  entry stays invisible, and the entry is lost for good: when the first owner of the name leaves, no
  node of that name is in the tree any more, although the second slave is still connected and
  recognised and still shares it.
\<close>

theorem conflicting_entry_lost:
  assumes "master_inv fs" and "h < length (conns fs)" and "mc_open (conns fs ! h)" and "mc_slave_id (conns fs ! h) = i" and "i \<noteq> 0"
    and "set_find k (root_children fs) = Some c" and "tn_host_id c = i"
    and "h2 < length (conns fs)" and "h2 \<noteq> h"
    and "DirTree_deserialize B ts = Inr (Some t)" and "Host_deserialize B hs = Inr host" and "wf_node t"
    and "set_find k (tn_children t) = Some d"
  shows "\<exists>fs1 fs2. UserFS_newConnection B remote ts hs h2 fs = Inr fs1 \<and> set_find k (root_children fs1) = Some c \<and>
    TCPMasterMessager_close B h fs1 = Inr fs2 \<and> set_find k (root_children fs2) = None \<and>
    mc_slave_id (conns fs2 ! h2) = u_max_host_id fs"
proof -
  let ?i = "u_max_host_id fs" and ?j = "joined remote t host h2 fs"
  obtain r where r: "u_dir_tree fs = Some r" using master_inv_tree [OF assms(1)] by blast
  have inv: "master_role fs" "sorted_names (tn_children r)"
    using assms(1) r by (auto simp: master_inv_def tree_inv_def wf_tree_def dest: wf_nodeD)
  let ?cs = "merge_loop (tn_children (setHostID ?i t)) (tn_children r)"
  have find: "set_find k ?cs = Some c" and sorted: "sorted_names ?cs"
    using set_find_merge [OF inv(2), of "tn_children (setHostID ?i t)" k] wf_nodeD [of "setHostID ?i t"] assms(6,12) r sorted_names_merge [OF inv(2)]
    by (simp_all add: root_children_def del: setHostID_sel)
  obtain fs1 where new: "UserFS_newConnection B remote ts hs h2 fs = Inr fs1" and same1: "same_but_posted ?j fs1"
    using newConnection_implements_joined [OF inv(1) r assms(8,10,11), of remote] by blast
  have fs1: "u_dir_tree fs1 = Some (with_children ?cs r)" "master_role fs1"
    "conns fs1 = (conns fs)[h2 := (conns fs ! h2)\<lparr>mc_slave_id := ?i\<rparr>]"
    using same1 inv(1) by (simp_all add: same_but_posted_def r del: setHostID_sel)
  obtain fs2 where close: "TCPMasterMessager_close B h fs1 = Inr fs2" and same2: "same_but_posted (left h fs1) fs2"
    using close_implements_left [OF fs1(2,1), of h B] assms(2,3,9) by (auto simp: fs1(3))
  have "set_find k (root_children fs2) = None"
    using same_but_posted_root [OF same2] left_tree [OF fs1(1), of h] find sorted assms(2,4,5,7,9)
    by (simp add: root_children_def fs1(3) set_find_filter)
  moreover have "mc_slave_id (conns fs2 ! h2) = ?i" using same2 assms(8,9) by (simp add: same_but_posted_def fs1(3))
  moreover have "set_find k (root_children fs1) = Some c" using find fs1(1) by (simp add: root_children_def)
  ultimately show ?thesis using new close by blast
qed

definition sample_joined_two :: UserFS where
  "sample_joined_two = joined ''10.0.0.7'' standby_tree (sample_host 0) 0 (sample_master [conn_new, conn_new])"

lemma sample_joined_two_inv: "master_inv sample_joined_two"
proof -
  have "master_inv (sample_master [conn_new, conn_new])"
    by (simp add: master_inv_def master_role_def tree_inv_def hosts_inv_def conns_inv_def slave_ids_def conns_def
        root_children_def sample_master_def sample_scan_def sample_defs wf_tree_def uniform_def owned_by_def
        hosts_indexed_pair sample_host_def conn_new_def UserFS_new_def)
  then show ?thesis unfolding sample_joined_two_def by (rule master_inv_joined) (simp_all add: conn_new_def)
qed

theorem conflicting_entry_lost_witness:
  "\<exists>fs1 fs2. UserFS_newConnection tagged_archive ''10.0.0.8''
       (DirTree_serialize tagged_archive (Some standby_tree)) (Host_serialize tagged_archive (sample_host 0)) 1
       sample_joined_two = Inr fs1 \<and>
     TCPMasterMessager_close tagged_archive 0 fs1 = Inr fs2 \<and> set_find ''standby1_file1'' (root_children fs2) = None \<and>
     mc_slave_id (conns fs2 ! 1) = 3"
proof -
  have find: "set_find ''standby1_file1'' (root_children sample_joined_two) = Some (sample_file 2 ''standby1_file1'')"
    by (simp add: sample_joined_two_def root_children_def sample_master_def sample_scan_def merge_loop_def TreeNode_less_def sample_defs
        with_host_TreeNode UserFS_new_def)
  have d: "set_find ''standby1_file1'' (tn_children standby_tree) = Some (sample_file 0 ''standby1_file1'')" by (simp add: sample_defs)
  have c: "conns sample_joined_two = [conn_new\<lparr>mc_slave_id := 2\<rparr>, conn_new]" "u_max_host_id sample_joined_two = 3"
    by (simp_all add: sample_joined_two_def)
  from conflicting_entry_lost [OF sample_joined_two_inv _ _ _ _ find _ _ _ sample_hello _ d, of 0 2 1 "''10.0.0.8''"]
  show ?thesis by (auto simp: c conn_new_def sample_file_def)
qed

end
