(* ===== verification/Event_System.thy ===== *)
theory Event_System
  imports Gsfs_Prelude
begin

section \<open>Systems driven by events\<close>

text \<open>
  The nodes and the network between them are driven by events: when an event is enabled in a state,
  its handler runs and either returns the next state or ends the program. This theory has what holds
  of every such system. \<open>run\<close> are the states that can be reached while the states stay within some
  bounds; the locale \<open>event_system\<close> is the contract of an invariant under which no handler fails; the
  locale \<open>settling_system\<close> adds that the internal events use something up, so that they cannot go on
  for ever; the locale \<open>simulating_system\<close> adds an abstraction under which the events are steps of a specification.
\<close>

inductive run :: "('e \<Rightarrow> 's \<Rightarrow> bool) \<Rightarrow> ('e \<Rightarrow> 's \<Rightarrow> 's result) \<Rightarrow> ('s \<Rightarrow> bool) \<Rightarrow> 's \<Rightarrow> 's \<Rightarrow> bool"
  for enabled handle bounds s0 where
  run_start: "run enabled handle bounds s0 s0"
| run_next: "run enabled handle bounds s0 s \<Longrightarrow> enabled e s \<Longrightarrow> handle e s = Inr s' \<Longrightarrow> bounds s' \<Longrightarrow>
    run enabled handle bounds s0 s'"

lemma run_trans:
  assumes "run enabled handle bounds s1 s2" and "run enabled handle bounds s0 s1"
  shows "run enabled handle bounds s0 s2"
  using assms by (induction rule: run.induct) (auto intro: run_next)

lemma run_keeps:
  assumes "run enabled handle bounds s0 s" and "P s0"
    and "\<And>s e s'. P s \<Longrightarrow> enabled e s \<Longrightarrow> handle e s = Inr s' \<Longrightarrow> P s'"
  shows "P s"
  using assms(1,2) by (induction rule: run.induct) (blast intro: assms(3))+

text \<open>The runs by their events.\<close>

primrec trace :: "('e \<Rightarrow> 's \<Rightarrow> bool) \<Rightarrow> ('e \<Rightarrow> 's \<Rightarrow> 's result) \<Rightarrow> ('s \<Rightarrow> bool) \<Rightarrow> 'e list \<Rightarrow> 's \<Rightarrow> 's \<Rightarrow> bool" where
  "trace enabled handle bounds [] s s' = (s' = s)"
| "trace enabled handle bounds (e # es) s s' =
     (\<exists>s1. enabled e s \<and> handle e s = Inr s1 \<and> bounds s1 \<and> trace enabled handle bounds es s1 s')"

text \<open>
  No event of the list is a bad one in the state in which it happens. The events of a trace that avoids
  the bad ones make a run of the system in which they are disabled.
\<close>

primrec avoids :: "('e \<Rightarrow> 's \<Rightarrow> bool) \<Rightarrow> ('e \<Rightarrow> 's \<Rightarrow> 's result) \<Rightarrow> 'e list \<Rightarrow> 's \<Rightarrow> bool" where
  "avoids bad handle [] s = True"
| "avoids bad handle (e # es) s =
     (\<not> bad e s \<and> (case handle e s of Inl err \<Rightarrow> True | Inr s1 \<Rightarrow> avoids bad handle es s1))"

lemma run_first:
  assumes "enabled e s" and "handle e s = Inr s1" and "bounds s1" and "run enabled handle bounds s1 s2"
  shows "run enabled handle bounds s s2"
proof (rule run_trans [OF assms(4)])
  show "run enabled handle bounds s s1" by (rule run_next [of enabled handle bounds s s e]) (use assms(1-3) in \<open>auto intro: run_start\<close>)
qed

lemma trace_avoids:
  assumes "trace possible handle bounds es s s'" and "avoids bad handle (es @ es') s"
    and enabled: "\<And>e s. enabled e s \<longleftrightarrow> possible e s \<and> \<not> bad e s"
  shows "run enabled handle bounds s s'" and "avoids bad handle es' s'"
  using assms(1,2)
proof (induction es arbitrary: s)
  case (Cons e es)
  case 1
  with Cons.IH(1) show ?case by (auto simp: enabled intro: run_first)
next
  case (Cons e es)
  case 2
  with Cons.IH(2) show ?case by auto
qed (auto intro: run_start)

text \<open>The steps that events of a given kind make.\<close>

definition step_of :: "('e \<Rightarrow> bool) \<Rightarrow> ('e \<Rightarrow> 's \<Rightarrow> bool) \<Rightarrow> ('e \<Rightarrow> 's \<Rightarrow> 's result) \<Rightarrow> ('s \<Rightarrow> bool) \<Rightarrow> 's \<Rightarrow> 's \<Rightarrow> bool" where
  "step_of kind enabled handle bounds s s' \<longleftrightarrow> (\<exists>e. kind e \<and> enabled e s \<and> handle e s = Inr s' \<and> bounds s')"

locale event_system =
  fixes enabled :: "'e \<Rightarrow> 's \<Rightarrow> bool"
    and handle :: "'e \<Rightarrow> 's \<Rightarrow> 's result"
    and bounds :: "'s \<Rightarrow> bool"
    and inv :: "'s \<Rightarrow> bool"
  assumes handle_returns: "inv s \<Longrightarrow> enabled e s \<Longrightarrow> \<exists>s'. handle e s = Inr s'"
    and handle_keeps: "inv s \<Longrightarrow> enabled e s \<Longrightarrow> handle e s = Inr s' \<Longrightarrow> bounds s' \<Longrightarrow> inv s'"
begin

lemma run_inv: "run enabled handle bounds s0 s \<Longrightarrow> inv s0 \<Longrightarrow> inv s"
  by (induction rule: run.induct) (auto intro: handle_keeps)

lemma run_safe: "run enabled handle bounds s0 s \<Longrightarrow> inv s0 \<Longrightarrow> enabled e s \<Longrightarrow> \<exists>s'. handle e s = Inr s'"
  by (rule handle_returns [OF run_inv])

end

locale settling_system = event_system +
  fixes internal :: "'e \<Rightarrow> bool"
    and weight :: "'s \<Rightarrow> nat \<times> nat"
  assumes internal_uses_up: "inv s \<Longrightarrow> enabled e s \<Longrightarrow> internal e \<Longrightarrow> handle e s = Inr s' \<Longrightarrow> bounds s' \<Longrightarrow>
    (weight s', weight s) \<in> less_than <*lex*> less_than"
begin

text \<open>No state can be left by internal events for ever.\<close>

lemma internal_wf: "wf {(s', s). inv s \<and> step_of internal enabled handle bounds s s'}"
proof (rule wf_subset)
  show "wf (inv_image (less_than <*lex*> less_than) weight)" by (intro wf_inv_image wf_lex_prod wf_less_than)
  show "{(s', s). inv s \<and> step_of internal enabled handle bounds s s'} \<subseteq> inv_image (less_than <*lex*> less_than) weight"
    using internal_uses_up by (auto simp: step_of_def simp del: in_lex_prod)
qed

text \<open>From every state internal events lead to one where none of them is possible within the bounds.\<close>

lemma internal_end:
  assumes "inv s"
  shows "\<exists>s'. (step_of internal enabled handle bounds)\<^sup>*\<^sup>* s s' \<and> inv s' \<and> (\<forall>s''. \<not> step_of internal enabled handle bounds s' s'')"
  using assms
proof (induction s rule: wf_induct_rule [OF internal_wf])
  case (1 s)
  show ?case
  proof (cases "\<exists>s1. step_of internal enabled handle bounds s s1")
    case True
    then obtain s1 where s1: "step_of internal enabled handle bounds s s1" by blast
    moreover from s1 1(2) have "inv s1" by (auto simp: step_of_def intro: handle_keeps)
    ultimately show ?thesis using 1 by (blast intro: converse_rtranclp_into_rtranclp)
  qed (use 1(2) in blast)
qed

lemma no_infinite_internal_run:
  assumes "inv (f 0)"
  shows "\<exists>i. \<not> step_of internal enabled handle bounds (f i) (f (Suc i))"
proof (rule ccontr)
  assume "\<not> ?thesis"
  then have step: "step_of internal enabled handle bounds (f i) (f (Suc i))" for i by blast
  have "inv (f i)" for i
    using assms step by (induction i) (auto simp: step_of_def intro: handle_keeps)
  with step have "(f (Suc i), f i) \<in> {(s', s). inv s \<and> step_of internal enabled handle bounds s s'}" for i by simp
  with internal_wf show False unfolding wf_iff_no_infinite_down_chain by blast
qed

end

text \<open>
  A system that simulates an abstract one: every event is a step of the abstract system or does not show in it.
\<close>

locale simulating_system = event_system +
  fixes abstract :: "'s \<Rightarrow> 'a"
    and astep :: "'a \<Rightarrow> 'a \<Rightarrow> bool"
  assumes simulates: "inv s \<Longrightarrow> enabled e s \<Longrightarrow> handle e s = Inr s' \<Longrightarrow> bounds s' \<Longrightarrow>
    abstract s' = abstract s \<or> astep (abstract s) (abstract s')"
begin

lemma run_simulates: "run enabled handle bounds s0 s \<Longrightarrow> inv s0 \<Longrightarrow> astep\<^sup>*\<^sup>* (abstract s0) (abstract s)"
proof (induction rule: run.induct)
  case (run_next s e s')
  from run_next.hyps(1) run_next.prems have "inv s" by (rule run_inv)
  with simulates [of s e s'] run_next show ?case by (metis rtranclp.rtrancl_into_rtrancl)
qed simp

end

end
