(* ===== verification/Tcp_Callbacks.thy ===== *)
theory Tcp_Callbacks
  imports Master_Inv Event_System
begin

section \<open>tcp_manager.cc, tcp_messager.cc: parsing packets, completion handlers\<close>

text \<open>
  \<^verbatim>\<open>TCPManager::read\<close> in its two forms, and the handlers that Boost.Asio calls when an
  operation of a messager completes. A handler gets the error flag and the octets that were
  transferred, and acts on the whole node, because it may call back into the file system.

  \<open>master_event\<close> and \<open>slave_event\<close> are the things that can happen on the thread of a messager;
  \<open>master_handle\<close> and \<open>slave_handle\<close> run the code for them.
\<close>

subsection \<open>Parsing packets\<close>

definition TCPManager_read_master :: "boost_archive \<Rightarrow> string \<Rightarrow> Packet \<Rightarrow> nat \<Rightarrow> UserFS \<Rightarrow> UserFS result" where
  "TCPManager_read_master B remote packet handle fs =
     res_bind (read_u64 (c_str (pkt_data packet))) (\<lambda>(protocol_type, data).
       if protocol_type = 0 then
         res_bind (read_seq data) (\<lambda>(dir_tree_seq, data).
         res_bind (read_seq data) (\<lambda>(hosts_seq, data).
           UserFS_newConnection B remote dir_tree_seq hosts_seq handle fs))
       else Inr fs)"

definition TCPManager_read_slave :: "boost_archive \<Rightarrow> Packet \<Rightarrow> UserFS \<Rightarrow> UserFS result" where
  "TCPManager_read_slave B packet fs =
     res_bind (read_u64 (c_str (pkt_data packet))) (\<lambda>(protocol_type, data).
       if protocol_type = 1 then
         res_bind (read_u64 data) (\<lambda>(slave_id, data).
         res_bind (read_seq data) (\<lambda>(dir_tree_seq, data).
         res_bind (read_seq data) (\<lambda>(hosts_seq, data).
           UserFS_slaveRecognized B slave_id dir_tree_seq hosts_seq fs)))
       else if protocol_type = 2 then
         res_bind (read_seq data) (\<lambda>(dir_tree_seq, data).
         res_bind (read_seq data) (\<lambda>(hosts_seq, data).
           UserFS_updateInfo B dir_tree_seq hosts_seq fs))
       else Inr fs)"

text \<open>The messagers pass a packet on to their manager.\<close>

definition TCPMasterMessager_read :: "boost_archive \<Rightarrow> string \<Rightarrow> Packet \<Rightarrow> nat \<Rightarrow> UserFS \<Rightarrow> UserFS result" where
  [simp]: "TCPMasterMessager_read B remote packet handle fs = TCPManager_read_master B remote packet handle fs"

definition TCPSlaveMessager_read :: "boost_archive \<Rightarrow> Packet \<Rightarrow> UserFS \<Rightarrow> UserFS result" where
  [simp]: "TCPSlaveMessager_read B packet fs = TCPManager_read_slave B packet fs"

subsection \<open>The handlers of a master\<close>

definition master_header_handler :: "boost_archive \<Rightarrow> nat \<Rightarrow> bool \<Rightarrow> bytes \<Rightarrow> UserFS \<Rightarrow> UserFS result" where
  "master_header_handler B h ec data fs =
     res_bind (conn_at h fs) (\<lambda>c.
       let c = c\<lparr>mc_buffer := fill data (mc_buffer c), mc_read := NoRead\<rparr>
       in if \<not> ec \<and> length data = Packet_sizeLength then
            res_bind (Packet_decodeSize (mc_buffer c) (mc_packet c)) (\<lambda>p.
            res_bind (conn_do_read_body (c\<lparr>mc_packet := p\<rparr>)) (\<lambda>c.
              Inr (set_conn h c fs)))
          else TCPMasterMessager_close B h (set_conn h c fs))"

definition master_body_handler ::
    "boost_archive \<Rightarrow> nat \<Rightarrow> bool \<Rightarrow> bytes \<Rightarrow> string \<Rightarrow> UserFS \<Rightarrow> UserFS result" where
  "master_body_handler B h ec data remote fs =
     res_bind (conn_at h fs) (\<lambda>c.
       let c = c\<lparr>mc_buffer := fill data (mc_buffer c), mc_read := NoRead\<rparr>
       in if \<not> ec \<and> length data = unat (pkt_size (mc_packet c)) then
            res_bind (Packet_setData (mc_buffer c) (mc_packet c)) (\<lambda>p.
            res_bind (TCPMasterMessager_read B remote p h (set_conn h (c\<lparr>mc_packet := p\<rparr>) fs)) (\<lambda>fs.
            res_bind (conn_at h fs) (\<lambda>c.
            res_bind (conn_do_read_header c) (\<lambda>c.
              Inr (set_conn h c fs)))))
          else TCPMasterMessager_close B h (set_conn h c fs))"

text \<open>\<open>n\<close> is the number of octets written. \<^verbatim>\<open>front()\<close> of an empty queue is an invalid access.\<close>

definition master_write_handler :: "boost_archive \<Rightarrow> nat \<Rightarrow> bool \<Rightarrow> nat \<Rightarrow> UserFS \<Rightarrow> UserFS result" where
  "master_write_handler B h ec n fs =
     res_bind (conn_at h fs) (\<lambda>c.
       if \<not> ec then
         (case mc_queue c of
            [] \<Rightarrow> Inl OutOfBounds
          | p # _ \<Rightarrow>
              if n = unat (pkt_size p) then Inr (set_conn h (conn_write_finished c) fs)
              else TCPMasterMessager_close B h (set_conn h (c\<lparr>mc_writing := False\<rparr>) fs))
       else TCPMasterMessager_close B h (set_conn h (c\<lparr>mc_writing := False\<rparr>) fs))"

definition run_master :: "(TCPMasterMessager \<Rightarrow> TCPMasterMessager result) \<Rightarrow> UserFS \<Rightarrow> UserFS result" where
  "run_master f fs =
     res_bind (of_option NullDeref (tm_master (u_tcp_manager fs))) (\<lambda>m.
     res_bind (f m) (\<lambda>m. Inr (fs\<lparr>u_tcp_manager := (u_tcp_manager fs)\<lparr>tm_master := Some m\<rparr>\<rparr>)))"

text \<open>The next posted closure.\<close>

definition master_run_post :: "TCPMasterMessager \<Rightarrow> TCPMasterMessager" where
  "master_run_post m =
     (case mm_posted m of
        [] \<Rightarrow> m
      | PostWrite p # ps \<Rightarrow> run_write p (m\<lparr>mm_posted := ps\<rparr>)
      | PostWriteTo p h # ps \<Rightarrow> run_writeTo p h (m\<lparr>mm_posted := ps\<rparr>)
      | PostStop # ps \<Rightarrow> m\<lparr>mm_posted := ps, mm_stopped := True\<rparr>)"

datatype master_event =
    Accepted bool
  | HeaderRead nat bool bytes
  | BodyRead nat bool bytes string
  | Written nat bool nat
  | RunPost

fun master_handle :: "boost_archive \<Rightarrow> master_event \<Rightarrow> UserFS \<Rightarrow> UserFS result" where
  "master_handle B (Accepted ec) fs = run_master (master_accept ec) fs"
| "master_handle B (HeaderRead h ec data) fs = master_header_handler B h ec data fs"
| "master_handle B (BodyRead h ec data remote) fs = master_body_handler B h ec data remote fs"
| "master_handle B (Written h ec n) fs = master_write_handler B h ec n fs"
| "master_handle B RunPost fs = run_master (\<lambda>m. Inr (master_run_post m)) fs"

subsection \<open>The handlers of a slave\<close>

definition slave_of :: "UserFS \<Rightarrow> TCPSlaveMessager result" where
  "slave_of fs = of_option NullDeref (tm_slave (u_tcp_manager fs))"

definition set_slave :: "TCPSlaveMessager \<Rightarrow> UserFS \<Rightarrow> UserFS" where
  "set_slave m fs = fs\<lparr>u_tcp_manager := (u_tcp_manager fs)\<lparr>tm_slave := Some m\<rparr>\<rparr>"

definition slave_connect_handler :: "bool \<Rightarrow> UserFS \<Rightarrow> UserFS result" where
  "slave_connect_handler ec fs =
     res_bind (slave_of fs) (\<lambda>m.
       let m = m\<lparr>sm_connecting := False\<rparr>
       in if \<not> ec then res_bind (slave_do_read_header m) (\<lambda>m. Inr (set_slave m fs))
          else TCPSlaveMessager_disconnect (set_slave m fs))"

definition slave_header_handler :: "bool \<Rightarrow> bytes \<Rightarrow> UserFS \<Rightarrow> UserFS result" where
  "slave_header_handler ec data fs =
     res_bind (slave_of fs) (\<lambda>m.
       let m = m\<lparr>sm_buffer := fill data (sm_buffer m), sm_read := NoRead\<rparr>
       in if \<not> ec \<and> length data = Packet_sizeLength then
            res_bind (Packet_decodeSize (sm_buffer m) (sm_packet m)) (\<lambda>p.
            res_bind (slave_do_read_body (m\<lparr>sm_packet := p\<rparr>)) (\<lambda>m. Inr (set_slave m fs)))
          else TCPSlaveMessager_disconnect (set_slave (m\<lparr>sm_open := False\<rparr>) fs))"

definition slave_body_handler :: "boost_archive \<Rightarrow> bool \<Rightarrow> bytes \<Rightarrow> UserFS \<Rightarrow> UserFS result" where
  "slave_body_handler B ec data fs =
     res_bind (slave_of fs) (\<lambda>m.
       let m = m\<lparr>sm_buffer := fill data (sm_buffer m), sm_read := NoRead\<rparr>
       in if \<not> ec \<and> length data = unat (pkt_size (sm_packet m)) then
            res_bind (Packet_setData (sm_buffer m) (sm_packet m)) (\<lambda>p.
            res_bind (TCPSlaveMessager_read B p (set_slave (m\<lparr>sm_packet := p\<rparr>) fs)) (\<lambda>fs.
            res_bind (slave_of fs) (\<lambda>m.
            res_bind (slave_do_read_header m) (\<lambda>m. Inr (set_slave m fs)))))
          else TCPSlaveMessager_disconnect (set_slave (m\<lparr>sm_open := False\<rparr>) fs))"

definition slave_write_handler :: "bool \<Rightarrow> nat \<Rightarrow> UserFS \<Rightarrow> UserFS result" where
  "slave_write_handler ec n fs =
     res_bind (slave_of fs) (\<lambda>m.
       if \<not> ec then
         (case sm_queue m of
            [] \<Rightarrow> Inl OutOfBounds
          | p # _ \<Rightarrow>
              if n = unat (pkt_size p) then Inr (set_slave (slave_write_finished m) fs)
              else TCPSlaveMessager_disconnect (set_slave (m\<lparr>sm_open := False, sm_writing := False\<rparr>) fs))
       else TCPSlaveMessager_disconnect (set_slave (m\<lparr>sm_open := False, sm_writing := False\<rparr>) fs))"

definition slave_run_post :: "TCPSlaveMessager \<Rightarrow> TCPSlaveMessager" where
  "slave_run_post m =
     (case sm_posted m of
        [] \<Rightarrow> m
      | SlavePostWrite p # ps \<Rightarrow> slave_enqueue p (m\<lparr>sm_posted := ps\<rparr>)
      | SlavePostStop # ps \<Rightarrow> m\<lparr>sm_posted := ps, sm_stopped := True\<rparr>)"

datatype slave_event =
    Connected bool
  | SlaveHeaderRead bool bytes
  | SlaveBodyRead bool bytes
  | SlaveWritten bool nat
  | SlaveRunPost

fun slave_handle :: "boost_archive \<Rightarrow> slave_event \<Rightarrow> UserFS \<Rightarrow> UserFS result" where
  "slave_handle B (Connected ec) fs = slave_connect_handler ec fs"
| "slave_handle B (SlaveHeaderRead ec data) fs = slave_header_handler ec data fs"
| "slave_handle B (SlaveBodyRead ec data) fs = slave_body_handler B ec data fs"
| "slave_handle B (SlaveWritten ec n) fs = slave_write_handler ec n fs"
| "slave_handle B SlaveRunPost fs = res_bind (slave_of fs) (\<lambda>m. Inr (set_slave (slave_run_post m) fs))"

subsection \<open>Parsing what was built\<close>

lemma put_len_seq_assoc: "put_len_seq s @ r = host_to_network_64 (of_nat (length s)) @ s @ r"
  by (simp add: put_len_seq_def)

lemma read_hello:
  assumes "length ts < 2 ^ 48" and "length hs < 2 ^ 48" and "pkt_data p = hello_message ts hs"
  shows "TCPManager_read_master B remote p h fs = UserFS_newConnection B remote ts hs h fs"
  using assms by (simp add: TCPManager_read_master_def hello_message_def c_str_def codec_simps)

lemma read_recognition:
  assumes "length ts < 2 ^ 48" and "length hs < 2 ^ 48" and "wire_safe i" and "pkt_data p = recognition_message i ts hs"
  shows "TCPManager_read_slave B p fs = UserFS_slaveRecognized B i ts hs fs"
  using assms by (simp add: TCPManager_read_slave_def recognition_message_def c_str_def codec_simps)

lemma read_update:
  assumes "length ts < 2 ^ 48" and "length hs < 2 ^ 48" and "pkt_data p = update_message ts hs"
  shows "TCPManager_read_slave B p fs = UserFS_updateInfo B ts hs fs"
  using assms by (simp add: TCPManager_read_slave_def update_message_def c_str_def codec_simps)

subsection \<open>Handlers keep the invariant of a master\<close>

text \<open>
  A handler that changes neither the metadata nor the ids of the connections, except that new
  connections may appear.
\<close>

definition same_meta :: "UserFS \<Rightarrow> UserFS \<Rightarrow> bool" where
  "same_meta fs fs' \<longleftrightarrow>
     u_host_id fs' = u_host_id fs \<and> u_dir_tree fs' = u_dir_tree fs \<and> u_hosts fs' = u_hosts fs \<and>
     u_max_host_id fs' = u_max_host_id fs \<and> (master_role fs \<longrightarrow> master_role fs') \<and>
     (\<exists>new. map (\<lambda>c. (mc_slave_id c, mc_open c)) (conns fs') =
        map (\<lambda>c. (mc_slave_id c, mc_open c)) (conns fs) @ replicate new (0, True))"

lemma conns_inv_iff:
  "conns_inv fs \<longleftrightarrow>
     (let ps = map (\<lambda>c. (mc_slave_id c, mc_open c)) (conns fs); ids = filter (\<lambda>i. i \<noteq> 0) (map fst ps)
      in distinct ids \<and> list_all (\<lambda>i. 2 \<le> unat i \<and> unat i < unat (u_max_host_id fs)) ids \<and>
         list_all (\<lambda>p. fst p = 0 \<or> snd p) ps)"
  by (simp add: conns_inv_def slave_ids_def comp_def list_all_iff image_image)

lemma master_inv_same_meta [inv_intros]:
  assumes "same_meta fs fs'" and "master_inv fs"
  shows "master_inv fs'"
proof -
  obtain new where new: "map (\<lambda>c. (mc_slave_id c, mc_open c)) (conns fs') =
      map (\<lambda>c. (mc_slave_id c, mc_open c)) (conns fs) @ replicate new (0, True)"
    using assms(1) unfolding same_meta_def by blast
  from arg_cong [OF this, of "map fst"]
  have ids: "map mc_slave_id (conns fs') = map mc_slave_id (conns fs) @ replicate new 0"
    by (simp add: comp_def)
  have "conns_inv fs'"
    using assms by (auto simp: conns_inv_iff new master_inv_def same_meta_def Let_def comp_def list_all_iff)
  moreover have "tree_inv fs'"
    using assms by (auto simp: master_inv_def tree_inv_def same_meta_def root_children_def ids list_all_iff)
  ultimately show ?thesis
    using assms by (simp add: master_inv_def hosts_inv_def same_meta_def)
qed

lemma same_meta_set_conn:
  assumes "mc_slave_id c = mc_slave_id (conns fs ! h)" and "mc_open c = mc_open (conns fs ! h)"
  shows "same_meta fs (set_conn h c fs)"
proof -
  have "map (\<lambda>c. (mc_slave_id c, mc_open c)) ((conns fs)[h := c]) = map (\<lambda>c. (mc_slave_id c, mc_open c)) (conns fs)"
    by (cases "h < length (conns fs)")
      (use assms in \<open>auto simp: nth_list_update list_update_beyond intro!: nth_equalityI\<close>)
  then show ?thesis
    by (simp add: same_meta_def master_role_def)
qed

lemma close_keeps_inv [inv_intros]:
  assumes "master_inv fs" and "TCPMasterMessager_close B h fs = Inr fs'"
  shows "master_inv fs'"
proof -
  obtain r where r: "u_dir_tree fs = Some r" using master_inv_tree [OF assms(1)] by blast
  have role: "master_role fs" using assms(1) by (simp add: master_inv_def)
  have h: "h < length (conns fs)"
    using assms(2) by (simp add: TCPMasterMessager_close_def conn_at_eq master_roleD [OF role] split: if_splits)
  show ?thesis
  proof (cases "mc_open (conns fs ! h)")
    case True
    from close_implements_left [OF role r h True, of B] assms(2)
    have "same_but_posted (left h fs) fs'" by auto
    then show ?thesis using master_inv_left [OF assms(1)] by (rule master_inv_same)
  next
    case False
    from close_closed [OF role h False, of B] assms show ?thesis by simp
  qed
qed

text \<open>A hello message can only change the state through \<open>joined\<close>; otherwise the program dies.\<close>

lemma newConnection_cases:
  assumes "master_inv fs" and "h < length (conns fs)" and "UserFS_newConnection B remote ts hs h fs = Inr fs'"
  obtains t host where "DirTree_deserialize B ts = Inr (Some t)" and "Host_deserialize B hs = Inr host"
    and "same_but_posted (joined remote t host h fs) fs'"
proof -
  obtain r where r: "u_dir_tree fs = Some r" using master_inv_tree [OF assms(1)] by blast
  have role: "master_role fs" using assms(1) by (simp add: master_inv_def)
  obtain d host where d: "DirTree_deserialize B ts = Inr d" and host: "Host_deserialize B hs = Inr host"
    using assms(3) unfolding UserFS_newConnection_def res_bind_eq_Inr by blast
  from assms(3) obtain t where t: "d = Some t"
    by (cases d) (simp_all add: UserFS_newConnection_def d host r DirTree_hasConflict_def)
  from newConnection_implements_joined [OF role r assms(2) d [unfolded t] host, of remote] assms(3)
  show thesis by (intro that [OF d [unfolded t] host]) auto
qed

definition fresh_connection :: "nat \<Rightarrow> UserFS \<Rightarrow> bool" where
  "fresh_connection h fs \<longleftrightarrow>
     h < length (conns fs) \<and> mc_open (conns fs ! h) \<and> mc_slave_id (conns fs ! h) = 0 \<and>
     unat (u_max_host_id fs) + 1 < 2 ^ 64"

lemma newConnection_keeps_inv [inv_intros]:
  assumes "master_inv fs" and "fresh_connection h fs" and "UserFS_newConnection B remote ts hs h fs = Inr fs'"
  shows "master_inv fs'"
proof -
  have h: "h < length (conns fs)" using assms(2) by (simp add: fresh_connection_def)
  from newConnection_cases [OF assms(1) h assms(3)] obtain t host
    where "DirTree_deserialize B ts = Inr (Some t)" and same: "same_but_posted (joined remote t host h fs) fs'" by metis
  then have "master_inv (joined remote t host h fs)"
    using assms(1,2) by (intro master_inv_joined) (auto simp: fresh_connection_def dest: DirTree_deserialize_wf)
  with same show ?thesis by (rule master_inv_same)
qed

definition is_hello :: "bytes \<Rightarrow> bool" where
  "is_hello data = (case read_u64 (c_str data) of Inl e \<Rightarrow> False | Inr (n, rest) \<Rightarrow> n = 0)"

lemma read_master_keeps_inv:
  assumes "master_inv fs" and "is_hello (pkt_data p) \<longrightarrow> fresh_connection h fs"
    and "TCPManager_read_master B remote p h fs = Inr fs'"
  shows "master_inv fs'"
proof (cases "read_u64 (c_str (pkt_data p))")
  case (Inl e)
  with assms(3) show ?thesis by (simp add: TCPManager_read_master_def)
next
  case (Inr x)
  obtain n rest where x: "x = (n, rest)" by (cases x)
  show ?thesis
  proof (cases "n = 0")
    case True
    with Inr x assms(2) have fresh: "fresh_connection h fs" by (simp add: is_hello_def)
    from assms(3) Inr x True obtain ts hs where "UserFS_newConnection B remote ts hs h fs = Inr fs'"
      by (auto simp: TCPManager_read_master_def res_bind_eq_Inr)
    with assms(1) fresh show ?thesis by (blast intro: newConnection_keeps_inv)
  next
    case False
    with assms Inr x show ?thesis by (simp add: TCPManager_read_master_def)
  qed
qed

lemma do_read_same:
  "conn_do_read_header c = Inr c' \<Longrightarrow> mc_slave_id c' = mc_slave_id c \<and> mc_open c' = mc_open c"
  "conn_do_read_body c = Inr c' \<Longrightarrow> mc_slave_id c' = mc_slave_id c \<and> mc_open c' = mc_open c"
  by (auto simp: conn_do_read_header_def conn_do_read_body_def res_bind_eq_Inr)

lemma setData_fill:
  "length data = unat (pkt_size p) \<Longrightarrow> length data < 2 ^ 63 \<Longrightarrow> Packet_setData (fill data b) p = Inr (p\<lparr>pkt_data := data\<rparr>)"
  by (simp add: Packet_setData_def fill_def)

lemma setData_fill_iff:
  "length data = unat (pkt_size p) \<Longrightarrow>
     Packet_setData (fill data b) p = Inr q \<longleftrightarrow> length data < 2 ^ 63 \<and> q = p\<lparr>pkt_data := data\<rparr>"
  by (auto simp: Packet_setData_def fill_def read_n_def)

lemma conn_at_Inr:
  "master_inv fs \<Longrightarrow> conn_at h fs = Inr c \<longleftrightarrow> h < length (conns fs) \<and> c = conns fs ! h"
  by (auto simp: conn_at_eq master_inv_def master_roleD split: if_splits)

lemma set_conn_keeps_inv [inv_intros]:
  "master_inv fs \<Longrightarrow> mc_slave_id c = mc_slave_id (conns fs ! h) \<Longrightarrow> mc_open c = mc_open (conns fs ! h) \<Longrightarrow>
     master_inv (set_conn h c fs)"
  by (blast intro: master_inv_same_meta same_meta_set_conn)

lemma header_handler_keeps_inv:
  assumes "master_inv fs" and "master_header_handler B h ec data fs = Inr fs'"
  shows "master_inv fs'"
  using assms
  by (auto simp: master_header_handler_def res_bind_eq_Inr conn_at_Inr Let_def split: if_splits
      dest!: do_read_same intro!: set_conn_keeps_inv elim!: close_keeps_inv [rotated])

lemma write_handler_keeps_inv:
  assumes "master_inv fs" and "master_write_handler B h ec n fs = Inr fs'"
  shows "master_inv fs'"
  using assms
  by (auto simp: master_write_handler_def res_bind_eq_Inr conn_at_Inr conn_write_finished_def conn_do_write_def Let_def
      split: if_splits list.splits intro!: set_conn_keeps_inv elim!: close_keeps_inv [rotated])

lemma body_handler_keeps_inv:
  assumes "master_inv fs" and "\<not> ec \<and> is_hello data \<longrightarrow> fresh_connection h fs"
    and "master_body_handler B h ec data remote fs = Inr fs'"
  shows "master_inv fs'"
proof -
  let ?c = "(conns fs ! h)\<lparr>mc_buffer := fill data (mc_buffer (conns fs ! h)), mc_read := NoRead\<rparr>"
  have h: "h < length (conns fs)" and at: "conn_at h fs = Inr (conns fs ! h)"
    using assms(1,3) by (auto simp: master_body_handler_def res_bind_eq_Inr conn_at_Inr)
  show ?thesis
  proof (cases "\<not> ec \<and> length data = unat (pkt_size (mc_packet (conns fs ! h)))")
    case True
    let ?fs = "set_conn h (?c\<lparr>mc_packet := (mc_packet ?c)\<lparr>pkt_data := data\<rparr>\<rparr>) fs"
    obtain fs1 c c' where rd: "TCPManager_read_master B remote ((mc_packet ?c)\<lparr>pkt_data := data\<rparr>) h ?fs = Inr fs1"
      and c: "conn_at h fs1 = Inr c" "conn_do_read_header c = Inr c'" and fs': "fs' = set_conn h c' fs1"
      using assms(3) True unfolding master_body_handler_def at
      by (simp add: Let_def setData_fill_iff res_bind_eq_Inr) blast
    have "master_inv ?fs" using assms(1) by (intro set_conn_keeps_inv) simp_all
    moreover have "is_hello (pkt_data ((mc_packet ?c)\<lparr>pkt_data := data\<rparr>)) \<longrightarrow> fresh_connection h ?fs"
      using assms(2) True h by (simp add: fresh_connection_def)
    ultimately have "master_inv fs1" using rd by (rule read_master_keeps_inv)
    moreover from this c have "mc_slave_id c' = mc_slave_id (conns fs1 ! h)" "mc_open c' = mc_open (conns fs1 ! h)"
      using do_read_same(1) [OF c(2)] by (simp_all add: conn_at_Inr)
    ultimately show ?thesis unfolding fs' by (rule set_conn_keeps_inv)
  next
    case False
    then have "TCPMasterMessager_close B h (set_conn h ?c fs) = Inr fs'"
      using assms(3) by (auto simp: master_body_handler_def at Let_def split: if_splits)
    moreover have "master_inv (set_conn h ?c fs)" using assms(1) by (intro set_conn_keeps_inv) simp_all
    ultimately show ?thesis by (rule close_keeps_inv [rotated])
  qed
qed

lemma conn_enqueue_same [simp]:
  "mc_slave_id (conn_enqueue p c) = mc_slave_id c" "mc_open (conn_enqueue p c) = mc_open c"
  by (simp_all add: conn_enqueue_def conn_do_write_def Let_def)

lemma run_master_keeps_inv:
  assumes "master_inv fs" and "run_master f fs = Inr fs'"
    and "\<And>m m'. f m = Inr m' \<Longrightarrow> \<exists>new. map (\<lambda>c. (mc_slave_id c, mc_open c)) (mm_connections m') =
        map (\<lambda>c. (mc_slave_id c, mc_open c)) (mm_connections m) @ replicate new (0, True)"
  shows "master_inv fs'"
proof -
  obtain m m' where m: "tm_master (u_tcp_manager fs) = Some m" "f m = Inr m'"
    and fs': "fs' = fs\<lparr>u_tcp_manager := (u_tcp_manager fs)\<lparr>tm_master := Some m'\<rparr>\<rparr>"
    using assms(2) by (auto simp: run_master_def res_bind_eq_Inr)
  have "same_meta fs fs'"
    using assms(3) [OF m(2)] by (simp add: same_meta_def fs' master_role_def conns_def m(1))
  then show ?thesis using assms(1) by (rule master_inv_same_meta)
qed

lemma map_update_same: "f y = f (xs ! h) \<Longrightarrow> map f (xs[h := y]) = map f xs"
  by (cases "h < length xs") (simp_all add: map_update list_update_same_conv list_update_beyond)

lemma run_post_conns:
  "map (\<lambda>c. (mc_slave_id c, mc_open c)) (mm_connections (master_run_post m)) =
     map (\<lambda>c. (mc_slave_id c, mc_open c)) (mm_connections m)"
  by (auto simp: master_run_post_def run_write_def run_writeTo_def map_update_same split: list.split master_post.split)

lemma master_accept_conns:
  "master_accept ec m = Inr m' \<Longrightarrow> \<exists>new. map (\<lambda>c. (mc_slave_id c, mc_open c)) (mm_connections m') =
     map (\<lambda>c. (mc_slave_id c, mc_open c)) (mm_connections m) @ replicate new (0, True)"
  by (cases ec) (auto simp: master_accept_def do_new_connection_def conn_new_def res_bind_eq_Inr
      dest!: do_read_same intro: exI [of _ "Suc 0"] exI [of _ 0])

text \<open>
  The events under which the invariant is kept. A hello that has arrived completely is not polite when it
  is on a connection that has a slave already, on a connection that is closed (a read that succeeded
  before the close and is reported after it), or when the next id would wrap the counter. Everything else
  is polite, whatever octets it brings.
\<close>

definition polite :: "master_event \<Rightarrow> UserFS \<Rightarrow> bool" where
  "polite ev fs = (case ev of BodyRead h ec data remote \<Rightarrow> \<not> ec \<and> is_hello data \<longrightarrow> fresh_connection h fs | _ \<Rightarrow> True)"

lemma master_handle_keeps_inv:
  assumes "master_inv fs" and "polite ev fs" and "master_handle B ev fs = Inr fs'"
  shows "master_inv fs'"
proof (cases ev)
  case (Accepted ec)
  with assms show ?thesis by (auto elim!: run_master_keeps_inv intro: master_accept_conns)
next
  case RunPost
  with assms show ?thesis by (auto elim!: run_master_keeps_inv simp: run_post_conns intro: exI [of _ 0])
next
  case (BodyRead h ec data remote)
  with assms show ?thesis by (auto simp: polite_def intro: body_handler_keeps_inv)
qed (use assms in \<open>auto intro: header_handler_keeps_inv write_handler_keeps_inv\<close>)

lemma master_trace_keeps_inv:
  assumes "trace (\<lambda>ev fs. True) (master_handle B) (\<lambda>fs. True) es fs0 fs" and "avoids (\<lambda>ev fs. \<not> polite ev fs) (master_handle B) es fs0"
    and "master_inv fs0"
  shows "master_inv fs"
proof -
  have "run polite (master_handle B) (\<lambda>fs. True) fs0 fs" using trace_avoids(1) [OF assms(1), of _ "[]" polite] assms(2) by simp
  from run_keeps [OF this, of master_inv] assms(3) show ?thesis by (blast intro: master_handle_keeps_inv)
qed

subsection \<open>What a slave makes of the messages of its master\<close>

lemma slaveRecognized_ok:
  assumes "archive_lossless B" and "wf_tree (Some r)" and "u_dir_tree s = Some rs"
  shows "UserFS_slaveRecognized B i (DirTree_serialize B (Some r)) (Hosts_serialize B hs) s =
    Inr (s\<lparr>u_host_id := i, u_dir_tree := Some (with_children (tn_children r) rs), u_hosts := hs,
           u_main_thread_is_waiting := False, u_slave_wait_sem := Suc (u_slave_wait_sem s)\<rparr>)"
  using assms by (simp add: UserFS_slaveRecognized_def codec_simps deploy_tree_def)

lemma updateInfo_ok:
  assumes "archive_lossless B" and "wf_tree (Some r)" and "u_dir_tree s = Some rs"
  shows "UserFS_updateInfo B (DirTree_serialize B (Some r)) (Hosts_serialize B hs) s =
    Inr (s\<lparr>u_dir_tree := Some (with_children (tn_children r) rs), u_hosts := hs\<rparr>)"
  using assms by (simp add: UserFS_updateInfo_def codec_simps deploy_tree_def)

subsection \<open>A packet passes through the two handlers\<close>

lemma length_hello_message: "length (hello_message ts hs) = 24 + length ts + length hs"
  by (simp add: hello_message_def put_len_seq_def wire64.length_enc)

lemma length_update_message: "length (update_message ts hs) = 24 + length ts + length hs"
  by (simp add: update_message_def put_len_seq_def wire64.length_enc)

lemma decode_header_rest:
  assumes "length m < 2 ^ 48"
  shows "Packet_decodeSize (host_to_network_64 (of_nat (length m)) @ rest) p = Inr (p\<lparr>pkt_size := of_nat (length m)\<rparr>)"
  using wire64.dec_enc [OF wire_safe_small [of "of_nat (length m)"]] assms
  by (simp add: Packet_decodeSize_def unat_of_nat_small)

lemma header_handler_ok:
  assumes "conn_at h fs = Inr c" and "length msg < 2 ^ 48"
  shows "\<exists>b. length b = length msg \<and>
    master_header_handler B h False (host_to_network_64 (of_nat (length msg))) fs =
      Inr (set_conn h (c\<lparr>mc_packet := (mc_packet c)\<lparr>pkt_size := of_nat (length msg)\<rparr>, mc_buffer := b, mc_read := ReadBody\<rparr>) fs)"
proof -
  let ?hdr = "host_to_network_64 (of_nat (length msg))"
  obtain b where b: "vec_resize (length msg) (fill ?hdr (mc_buffer c)) = Inr b" "length b = length msg"
    using vec_resize_ok [of "length msg" "fill ?hdr (mc_buffer c)"] assms(2) by auto
  have "master_header_handler B h False ?hdr fs =
      Inr (set_conn h (c\<lparr>mc_packet := (mc_packet c)\<lparr>pkt_size := of_nat (length msg)\<rparr>, mc_buffer := b, mc_read := ReadBody\<rparr>) fs)"
    using b(1) assms decode_header_rest [OF assms(2)]
    by (simp add: master_header_handler_def Packet_sizeLength_def wire64.length_enc conn_do_read_body_def
        unat_of_nat_small fill_def)
  with b(2) show ?thesis by blast
qed

lemma body_handler_hello:
  assumes "master_inv fs" and "fresh_connection h fs" and "u_dir_tree fs = Some r"
    and "unat (pkt_size (mc_packet (conns fs ! h))) = length (hello_message ts hs)"
    and "length (hello_message ts hs) < 2 ^ 48"
    and "DirTree_deserialize B ts = Inr (Some t)" and "Host_deserialize B hs = Inr host"
  shows "\<exists>fs'. master_body_handler B h False (hello_message ts hs) remote fs = Inr fs' \<and>
    mc_read (conns fs' ! h) = ReadHeader \<and> mc_slave_id (conns fs' ! h) = u_max_host_id fs \<and>
    u_dir_tree fs' = u_dir_tree (joined remote t host h fs) \<and> u_hosts fs' = u_hosts (joined remote t host h fs) \<and>
    u_max_host_id fs' = u_max_host_id fs + 1 \<and>
    (\<exists>b p. conns fs' = (conns fs)[h := (conns fs ! h)\<lparr>mc_packet := p, mc_slave_id := u_max_host_id fs, mc_buffer := b, mc_read := ReadHeader\<rparr>]) \<and>
    posted fs' = posted fs @
      [PostWriteTo (Packet_encodeData (recognition_of B (u_max_host_id fs) fs')) h, PostWrite (Packet_encodeData (update_of B fs'))]"
proof -
  let ?msg = "hello_message ts hs" and ?c = "conns fs ! h"
  let ?p = "(mc_packet ?c)\<lparr>pkt_data := ?msg\<rparr>"
  let ?fs = "set_conn h (?c\<lparr>mc_buffer := fill ?msg (mc_buffer ?c), mc_read := NoRead, mc_packet := ?p\<rparr>) fs"
  have h: "h < length (conns fs)" using assms(2) by (simp add: fresh_connection_def)
  have inv: "master_inv ?fs" using assms(1) by (intro set_conn_keeps_inv) simp_all
  have short: "length ts < 2 ^ 48" "length hs < 2 ^ 48"
    using assms(5) by (simp_all add: length_hello_message)
  have tree: "u_dir_tree ?fs = Some r" "h < length (conns ?fs)" "master_role ?fs"
    using assms(3) h inv by (simp_all add: master_inv_def)
  obtain fs1 where new: "UserFS_newConnection B remote ts hs h ?fs = Inr fs1"
    and same: "same_but_posted (joined remote t host h ?fs) fs1"
    and post: "posted fs1 = posted ?fs @ [PostWriteTo (Packet_encodeData (recognition_of B (u_max_host_id ?fs) fs1)) h,
      PostWrite (Packet_encodeData (update_of B fs1))]"
    using newConnection_implements_joined [OF tree(3,1,2) assms(6,7), of remote] same_but_posted_of by auto
  have rd: "TCPManager_read_master B remote ?p h ?fs = Inr fs1"
    using read_hello [OF short, of ?p B remote h ?fs] new by simp
  have role1: "tm_master (u_tcp_manager fs1) \<noteq> None"
    using same tree(3) by (intro master_roleD) (simp add: same_but_posted_def)
  have at: "conn_at h fs = Inr ?c" "conn_at h fs1 = Inr (conns fs1 ! h)"
    using assms(1) same h by (simp_all add: conn_at_Inr conn_at_eq [OF role1] same_but_posted_def)
  obtain b where "conn_do_read_header (conns fs1 ! h) = Inr ((conns fs1 ! h)\<lparr>mc_buffer := b, mc_read := ReadHeader\<rparr>)"
    by (simp add: conn_do_read_header_def vec_resize_def Packet_sizeLength_def)
  then have "master_body_handler B h False ?msg remote fs =
      Inr (set_conn h ((conns fs1 ! h)\<lparr>mc_buffer := b, mc_read := ReadHeader\<rparr>) fs1)"
    using assms(4,5) rd at by (simp add: master_body_handler_def Let_def setData_fill)
  moreover have "recognition_of B i (set_conn h c fs1) = recognition_of B i fs1" "update_of B (set_conn h c fs1) = update_of B fs1" for i c
    by (simp_all add: recognition_of_def update_of_def)
  ultimately show ?thesis
    using same h post by (auto simp: same_but_posted_def)
qed

lemmas sample_save = DirTree_serialize_def Host_serialize_def Hosts_serialize_def archive_out_def
  tagged_archive_def DirTree_save_def sample_defs sample_host_def Host_save_def Hosts_save_def
  length_put_num length_put_str

lemma sample_sizes:
  "length (hello_message (DirTree_serialize tagged_archive (Some standby_tree))
     (Host_serialize tagged_archive (sample_host 0))) < 2 ^ 48"
  "length (DirTree_serialize tagged_archive (u_dir_tree (sample_master [conn_new]))) < 2 ^ 48"
  "length (Hosts_serialize tagged_archive [sample_host 1, sample_host 1]) < 2 ^ 48"
  by (simp_all add: length_hello_message sample_master_def sample_scan_def UserFS_new_def sample_save)

lemma sample_fresh: "fresh_connection 0 (sample_master [conn_new])"
  by (simp add: fresh_connection_def conn_new_def)

text \<open>After a connection has been closed its queue is empty.\<close>

lemma close_empties_queue:
  assumes "master_inv fs" and "h < length (conns fs)" and "mc_open (conns fs ! h)"
    and "TCPMasterMessager_close B h fs = Inr fs'"
  shows "conn_at h fs' = Inr (conns fs' ! h)" and "mc_queue (conns fs' ! h) = []"
proof -
  obtain r where r: "u_dir_tree fs = Some r" using master_inv_tree [OF assms(1)] by blast
  have role: "master_role fs" using assms(1) by (simp add: master_inv_def)
  from close_implements_left [OF role r assms(2,3), of B] assms(4)
  have same: "same_but_posted (left h fs) fs'" by auto
  from same assms(2) show "mc_queue (conns fs' ! h) = []"
    by (simp add: same_but_posted_def conn_close_def)
  from same assms(2) close_keeps_inv [OF assms(1,4)] show "conn_at h fs' = Inr (conns fs' ! h)"
    by (simp add: conn_at_Inr same_but_posted_def)
qed

subsection \<open>Properties\<close>

text \<open>
  \<^bold>\<open>C19\<close>. The invariant of a master holds from its start on. Let the completion handlers and posted
  closures of the messager be interleaved in any way and any octets arrive, as long as the handlers
  return and every event is polite: no complete hello is reported on a connection that has a slave
  already or that is closed, or when the counter of the ids is about to wrap around. Then the tree is well
  formed, ids are handed out once, and every file of the tree has its host at the index that its id names.
\<close>

theorem master_reachable:
  assumes "UserFS_initDirTree absolute junk now nl es wd (UserFS_setMaster UserFS_new) = Inr fs0"
    and "UserFS_initTCPNetwork B resolve listen_error addr port (UserFS_initHost addr tcp_port ssh_port fs0) = Inr (False, fs1)"
    and "trace (\<lambda>ev fs. True) (master_handle B) (\<lambda>fs. True) evs fs1 fs"
    and "avoids (\<lambda>ev fs. \<not> polite ev fs) (master_handle B) evs fs1"
  shows "master_inv fs \<and> distinct (slave_ids fs) \<and>
    (\<forall>r n. u_dir_tree fs = Some r \<longrightarrow> n \<in> set (below r) \<longrightarrow>
       (\<exists>host. Hosts_at (u_hosts fs) (tn_host_id n) = Inr host \<and> h_id host = tn_host_id n))"
proof -
  have inv: "master_inv fs"
    using master_trace_keeps_inv [OF assms(3,4) master_start [OF assms(1,2)]] .
  moreover from this have "distinct (slave_ids fs)" by (simp add: master_inv_def conns_inv_def)
  ultimately show ?thesis using files_have_hosts [OF inv] by blast
qed

text \<open>
  Slaves follow their master. When a slave receives the recognition or the update that a
  master built from its state, the slave's tree has below the root exactly what the master's has,
  so the same paths lead to the same nodes, and its hosts are the master's hosts. The recognition
  also sets the slave's id and wakes the main thread; the update touches neither. Sequences below 2
  to the 48 octets and ids in the range that survives the wire are assumed.
\<close>

theorem slave_follows_master:
  assumes "archive_lossless B" and "master_inv m" and "u_dir_tree m = Some r" and "u_dir_tree s = Some rs"
    and "length (DirTree_serialize B (Some r)) < 2 ^ 48" and "length (Hosts_serialize B (u_hosts m)) < 2 ^ 48"
    and "unat i < 2 ^ 48" and "pkt_data p = recognition_of B i m" and "pkt_data q = update_of B m"
  shows "(\<exists>s' r'. TCPManager_read_slave B p s = Inr s' \<and> u_dir_tree s' = Some r' \<and>
            (\<forall>k ks. lookup_path r' (k # ks) = lookup_path r (k # ks)) \<and> u_hosts s' = u_hosts m \<and>
            u_host_id s' = i \<and> UserFS_wait s' \<noteq> None) \<and>
         (\<exists>s' r'. TCPManager_read_slave B q s = Inr s' \<and> u_dir_tree s' = Some r' \<and>
            (\<forall>k ks. lookup_path r' (k # ks) = lookup_path r (k # ks)) \<and> u_hosts s' = u_hosts m \<and>
            u_host_id s' = u_host_id s \<and> u_slave_wait_sem s' = u_slave_wait_sem s)"
proof -
  have wf: "wf_tree (Some r)" using assms(2,3) by (simp add: master_inv_def tree_inv_def)
  have "TCPManager_read_slave B p s =
    UserFS_slaveRecognized B i (DirTree_serialize B (Some r)) (Hosts_serialize B (u_hosts m)) s"
    using assms by (intro read_recognition wire_safe_small) (simp_all add: recognition_of_def)
  moreover have "TCPManager_read_slave B q s =
    UserFS_updateInfo B (DirTree_serialize B (Some r)) (Hosts_serialize B (u_hosts m)) s"
    using assms by (intro read_update) (simp_all add: update_of_def)
  ultimately show ?thesis
    using slaveRecognized_ok [OF assms(1) wf assms(4)] updateInfo_ok [OF assms(1) wf assms(4)]
    by (simp add: UserFS_wait_def)
qed

theorem slave_follows_master_witness:
  "\<exists>s' r'. TCPManager_read_slave tagged_archive
       \<lparr>pkt_size = 0, pkt_data = recognition_of tagged_archive 2 (sample_master [conn_new])\<rparr> (sample_scan 0) = Inr s' \<and>
     u_dir_tree s' = Some r' \<and> u_hosts s' = [sample_host 1, sample_host 1] \<and> u_host_id s' = 2"
proof -
  obtain r rs where r: "u_dir_tree (sample_master [conn_new]) = Some r" "u_dir_tree (sample_scan 0) = Some rs"
    using master_inv_tree [OF sample_master_inv] by (auto simp: sample_scan_def)
  from slave_follows_master [OF archive_lossless_tagged sample_master_inv r, of 2
      "\<lparr>pkt_size = 0, pkt_data = recognition_of tagged_archive 2 (sample_master [conn_new])\<rparr>"
      "\<lparr>pkt_size = 0, pkt_data = update_of tagged_archive (sample_master [conn_new])\<rparr>"]
    sample_sizes r
  show ?thesis by auto
qed

text \<open>
  From the octets to the join. A master whose connection waits for a header gets the octets
  of the hello packet of a slave: the header handler asks for a body of the right length, the body
  handler performs the join that \<open>joined\<close> specifies for exactly the tree and the host that the slave
  serialized, keeps the invariant and waits for the next header.
\<close>

theorem hello_packet_joins:
  fixes B :: boost_archive
  assumes "archive_lossless B" and "master_inv m" and "fresh_connection h m" and "wf_node t"
    and "length (hello_message (DirTree_serialize B (Some t)) (Host_serialize B host)) < 2 ^ 48"
  defines "msg \<equiv> hello_message (DirTree_serialize B (Some t)) (Host_serialize B host)"
  shows "\<exists>m1 m2. Packet_wire (Packet_encodeData msg) = host_to_network_64 (of_nat (length msg)) @ msg \<and>
    master_header_handler B h False (host_to_network_64 (of_nat (length msg))) m = Inr m1 \<and>
    length (mc_buffer (conns m1 ! h)) = length msg \<and> mc_read (conns m1 ! h) = ReadBody \<and>
    master_body_handler B h False msg remote m1 = Inr m2 \<and>
    master_inv m2 \<and> mc_read (conns m2 ! h) = ReadHeader \<and> mc_slave_id (conns m2 ! h) = u_max_host_id m \<and>
    u_dir_tree m2 = u_dir_tree (joined remote t host h m) \<and> u_hosts m2 = u_hosts (joined remote t host h m)"
proof -
  have h: "h < length (conns m)" using assms(3) by (simp add: fresh_connection_def)
  obtain r where r: "u_dir_tree m = Some r" using master_inv_tree [OF assms(2)] by blast
  have len: "length msg < 2 ^ 48" using assms(5) by (simp add: msg_def)
  let ?c = "\<lambda>b. (conns m ! h)\<lparr>mc_packet := (mc_packet (conns m ! h))\<lparr>pkt_size := of_nat (length msg)\<rparr>, mc_buffer := b, mc_read := ReadBody\<rparr>"
  have "conn_at h m = Inr (conns m ! h)" using assms(2) h by (simp add: conn_at_Inr)
  from header_handler_ok [OF this len, of B] obtain b where b: "length b = length msg"
    and hdr: "master_header_handler B h False (host_to_network_64 (of_nat (length msg))) m = Inr (set_conn h (?c b) m)" by blast
  let ?m1 = "set_conn h (?c b) m"
  have inv1: "master_inv ?m1" using assms(2) by (intro set_conn_keeps_inv) simp_all
  have fresh1: "fresh_connection h ?m1" using assms(3) h by (simp add: fresh_connection_def)
  obtain m2 where m2: "master_body_handler B h False msg remote ?m1 = Inr m2"
    "mc_read (conns m2 ! h) = ReadHeader" "mc_slave_id (conns m2 ! h) = u_max_host_id m"
    "u_dir_tree m2 = u_dir_tree (joined remote t host h m)" "u_hosts m2 = u_hosts (joined remote t host h m)"
    using body_handler_hello [OF inv1 fresh1, of r "DirTree_serialize B (Some t)" "Host_serialize B host" B t host remote]
      assms(1,4) r h len
    by (auto simp: msg_def [symmetric] codec_simps wf_tree_def unat_of_nat_small)
  have "master_inv m2"
    using body_handler_keeps_inv [OF inv1 _ m2(1)] fresh1 by blast
  then show ?thesis
    using Packet_wire_encode [OF len] hdr b m2 h by auto
qed

theorem hello_packet_joins_witness:
  "\<exists>m1 m2. master_header_handler tagged_archive 0 False
       (host_to_network_64 (of_nat (length (hello_message (DirTree_serialize tagged_archive (Some standby_tree))
          (Host_serialize tagged_archive (sample_host 0)))))) (sample_master [conn_new]) = Inr m1 \<and>
     master_body_handler tagged_archive 0 False (hello_message (DirTree_serialize tagged_archive (Some standby_tree))
          (Host_serialize tagged_archive (sample_host 0))) ''10.0.0.7'' m1 = Inr m2 \<and>
     master_inv m2 \<and> mc_slave_id (conns m2 ! 0) = 2"
  using hello_packet_joins [OF archive_lossless_tagged sample_master_inv sample_fresh, of standby_tree "sample_host 0"
      "''10.0.0.7''"] sample_sizes(1)
  by auto

lemma header_polite:
  assumes "master_inv m" and "fresh_connection h m" and "master_header_handler B h False (host_to_network_64 k) m = Inr m1"
  shows "fresh_connection h m1"
proof -
  have "h < length (conns m)" using assms(2) by (simp add: fresh_connection_def)
  moreover obtain c where "m1 = set_conn h c m" "mc_slave_id c = mc_slave_id (conns m ! h)" "mc_open c = mc_open (conns m ! h)"
    using assms(1,3) by (auto simp: master_header_handler_def res_bind_eq_Inr conn_at_Inr wire64.length_enc Packet_sizeLength_def Let_def dest!: do_read_same)
  ultimately show ?thesis using assms(2) by (simp add: fresh_connection_def)
qed

theorem master_reachable_witness:
  "\<exists>fs1 evs fs. UserFS_initTCPNetwork tagged_archive (\<lambda>_ _. ([''0.0.0.0''], False)) False ''0.0.0.0'' 10000
     (UserFS_initHost ''0.0.0.0'' 10000 22 (sample_scan 1)) = Inr (False, fs1) \<and>
   trace (\<lambda>ev fs. True) (master_handle tagged_archive) (\<lambda>fs. True) evs fs1 fs \<and> length evs = 3 \<and>
   mc_slave_id (conns fs ! 0) = 2 \<and> length (u_hosts fs) = 3 \<and> master_inv fs"
proof -
  let ?r = "UserFS_initTCPNetwork tagged_archive (\<lambda>_ _. ([''0.0.0.0''], False)) False ''0.0.0.0'' 10000
     (UserFS_initHost ''0.0.0.0'' 10000 22 (sample_scan 1))" and ?h = "master_handle tagged_archive"
  let ?msg = "hello_message (DirTree_serialize tagged_archive (Some standby_tree)) (Host_serialize tagged_archive (sample_host 0))"
  have "\<exists>fs1 fs2. ?r = Inr (False, fs1) \<and> ?h (Accepted False) fs1 = Inr fs2 \<and> length (conns fs2) = 1 \<and> fresh_connection 0 fs2 \<and> u_max_host_id fs2 = 2"
    by (simp add: UserFS_initTCPNetwork_def UserFS_initHost_def sample_scan_def UserFS_new_def TCPManager_initialize_def
        TCPManager_start_def TCPMasterMessager_init_def TCPManager_new_def UserFS_pushMaster_def Hosts_at_def
        Hosts_push_def run_master_def master_accept_def do_new_connection_def conn_do_read_header_def conn_new_def fresh_connection_def
        vec_resize_def Packet_sizeLength_def TCPMasterMessager_start_def TCPMasterMessager_new_def conns_def)
  then obtain fs1 fs2 where fs: "?r = Inr (False, fs1)" "?h (Accepted False) fs1 = Inr fs2" "length (conns fs2) = 1" "fresh_connection 0 fs2"
    "u_max_host_id fs2 = 2" by blast
  note reach = master_reachable [OF sample_scan_eq [of 1, folded UserFS_setMaster_def] fs(1)]
  have inv2: "master_inv fs2" using reach [of "[Accepted False]" fs2] fs(2) by (simp add: polite_def del: master_handle.simps)
  obtain fs3 fs4 where hdr: "?h (HeaderRead 0 False (host_to_network_64 (of_nat (length ?msg)))) fs2 = Inr fs3"
    and body: "?h (BodyRead 0 False ?msg ''10.0.0.7'') fs3 = Inr fs4" and id: "mc_slave_id (conns fs4 ! 0) = 2" and len: "length (u_hosts fs4) = 3"
    using hello_packet_joins [OF archive_lossless_tagged inv2 fs(4), of standby_tree "sample_host 0" "''10.0.0.7''"] sample_sizes(1) fs(5) inv2
    by (auto simp: master_inv_def hosts_inv_def)
  let ?evs = "[Accepted False, HeaderRead 0 False (host_to_network_64 (of_nat (length ?msg))), BodyRead 0 False ?msg ''10.0.0.7'']"
  have "fresh_connection 0 fs3" using header_polite [OF inv2 fs(4)] hdr by simp
  with fs(2) hdr body have tr: "trace (\<lambda>ev fs. True) ?h (\<lambda>fs. True) ?evs fs1 fs4" "avoids (\<lambda>ev fs. \<not> polite ev fs) ?h ?evs fs1"
    by (simp_all add: polite_def del: master_handle.simps)
  with reach [OF tr] tr fs(1) id len show ?thesis by (intro exI [of _ fs1] exI [of _ ?evs] exI [of _ fs4]) simp
qed

text \<open>
  \<^bold>\<open>C34\<close>. Nothing checks what a peer sends. A packet of fewer than six octets is read out of bounds. A
  hello whose tree length exceeds what follows it is read out of bounds as well, unless no string can
  be as long: from 2 to the 63 the constructor of the string throws. A hello whose tree is no archive
  throws too, and nothing catches either exception. The type field does protect: packets of a type the
  receiver does not know are ignored.
\<close>

theorem malformed_packets:
  "(length (pkt_data p) < 6 \<longrightarrow>
      TCPManager_read_master B remote p h fs = Inl OutOfBounds \<and> TCPManager_read_slave B p fs = Inl OutOfBounds) \<and>
   (pkt_data p = host_to_network_64 0 @ host_to_network_64 n @ rest \<and> wire_safe n \<and> Suc (length rest) < unat n \<longrightarrow>
      TCPManager_read_master B remote p h fs = Inl (if unat n < 2 ^ 63 then OutOfBounds else LengthError)) \<and>
   (pkt_data p = hello_message ts hs \<and> length ts < 2 ^ 48 \<and> length hs < 2 ^ 48 \<and> text_iarchive B ts = None \<longrightarrow>
      TCPManager_read_master B remote p h fs = Inl ArchiveException) \<and>
   (pkt_data p = host_to_network_64 n @ rest \<and> wire_safe n \<and> n \<notin> {0, 1, 2} \<longrightarrow>
      TCPManager_read_master B remote p h fs = Inr fs \<and> TCPManager_read_slave B p fs = Inr fs)"
proof (intro conjI)
  show "pkt_data p = hello_message ts hs \<and> length ts < 2 ^ 48 \<and> length hs < 2 ^ 48 \<and> text_iarchive B ts = None \<longrightarrow>
      TCPManager_read_master B remote p h fs = Inl ArchiveException"
    using read_hello [of ts hs p B remote h fs]
    by (simp add: UserFS_newConnection_def DirTree_deserialize_def tree_archive.in_fails)
qed (auto simp: TCPManager_read_master_def TCPManager_read_slave_def read_u64_short c_str_def codec_simps
      read_seq_def read_n_def)

theorem malformed_packets_witness:
  "TCPManager_read_master tagged_archive ''10.0.0.7'' \<lparr>pkt_size = 3, pkt_data = [0, 0, 0]\<rparr> 0 (sample_master [conn_new])
     = Inl OutOfBounds \<and>
   TCPManager_read_master tagged_archive ''10.0.0.7''
     \<lparr>pkt_size = 16, pkt_data = host_to_network_64 0 @ host_to_network_64 100 @ []\<rparr> 0 (sample_master [conn_new])
     = Inl OutOfBounds \<and>
   TCPManager_read_master tagged_archive ''10.0.0.7''
     \<lparr>pkt_size = 16, pkt_data = host_to_network_64 0 @ host_to_network_64 0xFFFF000000000000 @ []\<rparr> 0 (sample_master [conn_new])
     = Inl LengthError \<and>
   TCPManager_read_slave tagged_archive \<lparr>pkt_size = 8, pkt_data = host_to_network_64 7 @ []\<rparr> (sample_scan 0)
     = Inr (sample_scan 0)"
proof (intro conjI)
  have "wire_safe 100" "wire_safe 7" by (simp_all add: wire_safe_small)
  then show
   "TCPManager_read_master tagged_archive ''10.0.0.7'' \<lparr>pkt_size = 3, pkt_data = [0, 0, 0]\<rparr> 0 (sample_master [conn_new])
     = Inl OutOfBounds"
   "TCPManager_read_master tagged_archive ''10.0.0.7''
     \<lparr>pkt_size = 16, pkt_data = host_to_network_64 0 @ host_to_network_64 100 @ []\<rparr> 0 (sample_master [conn_new])
     = Inl OutOfBounds"
   "TCPManager_read_slave tagged_archive \<lparr>pkt_size = 8, pkt_data = host_to_network_64 7 @ []\<rparr> (sample_scan 0)
     = Inr (sample_scan 0)"
    using malformed_packets [of "\<lparr>pkt_size = 3, pkt_data = [0, 0, 0]\<rparr>" tagged_archive "''10.0.0.7''" 0 "sample_master [conn_new]" 0 "[]" "[]" "[]"]
      malformed_packets [of "\<lparr>pkt_size = 16, pkt_data = host_to_network_64 0 @ host_to_network_64 100 @ []\<rparr>"
        tagged_archive "''10.0.0.7''" 0 "sample_master [conn_new]" 100 "[]" "[]" "[]"]
      malformed_packets [of "\<lparr>pkt_size = 8, pkt_data = host_to_network_64 7 @ []\<rparr>"
        tagged_archive "''10.0.0.7''" 0 "sample_scan 0" 7 "[]" "[]" "[]"]
    by simp_all
  have "wire_safe 0xFFFF000000000000" by (simp add: wire_safe_def octet_def)
  then show "TCPManager_read_master tagged_archive ''10.0.0.7''
     \<lparr>pkt_size = 16, pkt_data = host_to_network_64 0 @ host_to_network_64 0xFFFF000000000000 @ []\<rparr> 0 (sample_master [conn_new])
     = Inl LengthError"
    using malformed_packets [of "\<lparr>pkt_size = 16, pkt_data = host_to_network_64 0 @ host_to_network_64 0xFFFF000000000000 @ []\<rparr>"
        tagged_archive "''10.0.0.7''" 0 "sample_master [conn_new]" "0xFFFF000000000000" "[]" "[]" "[]"]
    by simp
qed

text \<open>
  \<^bold>\<open>C35\<close>. Closing a connection empties its send queue, but a write that had already succeeded can
  still be waiting to be reported. When its handler runs after the close, it asks for the front of
  the empty queue.
\<close>

theorem write_completion_after_close:
  assumes "master_inv fs" and "h < length (conns fs)" and "mc_open (conns fs ! h)"
  shows "\<exists>fs'. TCPMasterMessager_close B h fs = Inr fs' \<and> master_write_handler B h False n fs' = Inl OutOfBounds"
proof -
  obtain r where r: "u_dir_tree fs = Some r" using master_inv_tree [OF assms(1)] by blast
  have role: "master_role fs" using assms(1) by (simp add: master_inv_def)
  obtain fs' where close: "TCPMasterMessager_close B h fs = Inr fs'"
    using close_implements_left [OF role r assms(2,3), of B] by blast
  from close_empties_queue [OF assms close] close show ?thesis
    by (simp add: master_write_handler_def)
qed

theorem write_completion_after_close_witness:
  "\<exists>fs'. TCPMasterMessager_close tagged_archive 0 sample_joined = Inr fs' \<and>
     master_write_handler tagged_archive 0 False 8 fs' = Inl OutOfBounds"
  by (rule write_completion_after_close [OF sample_joined_inv]) (simp_all add: conn_new_def)

end
