(* ===== verification/Fuse_Interface.thy ===== *)
theory Fuse_Interface
  imports User_Fs
begin

section \<open>fuse_interface.h, fuse_interface.cc: the operations the kernel calls\<close>

text \<open>
  \<^verbatim>\<open>FUSEInterface\<close> has a static pointer to the file system, set by \<^verbatim>\<open>initialize\<close> and cleared by
  \<^verbatim>\<open>destroy\<close>; the operations dereference it. Each operation returns the number the kernel gets,
  and what it stored in the buffers it was given. The numbers behind the names of errors and file
  types are those of Linux.
\<close>

subsection \<open>Definitions\<close>

type_synonym FUSEInterface = "UserFS option"

definition FUSE_initialize :: "UserFS \<Rightarrow> FUSEInterface" where
  "FUSE_initialize userfs = Some userfs"

definition FUSE_destroy :: "FUSEInterface \<Rightarrow> FUSEInterface" where
  "FUSE_destroy fi = None"

definition ENOENT :: int where "ENOENT = 2"
definition EIO :: int where "EIO = 5"
definition EACCES :: int where "EACCES = 13"
definition ENOTDIR :: int where "ENOTDIR = 20"
definition EISDIR :: int where "EISDIR = 21"

record stat =
  st_mode :: u32
  st_nlink :: u64
  st_size :: int
  st_mtime :: int

definition stat_zero :: stat where
  "stat_zero = \<lparr>st_mode = 0, st_nlink = 0, st_size = 0, st_mtime = 0\<rparr>"

text \<open>The chain of comparisons of \<^verbatim>\<open>getattr\<close>; the last branch is \<open>None\<close>.\<close>

fun mode_of :: "FileType \<Rightarrow> u32 option" where
  "mode_of REGULAR = Some (0x8000 OR 0x124)"
| "mode_of DIRECTORY = Some (0x4000 OR 0x1ED)"
| "mode_of SYMLINK = Some (0xA000 OR 0x124)"
| "mode_of CHRDEVICE = Some (0x2000 OR 0x124)"
| "mode_of BLKDEVICE = Some (0x6000 OR 0x124)"
| "mode_of FIFO = Some (0x1000 OR 0x124)"
| "mode_of SOCKET = Some (0xC000 OR 0x124)"
| "mode_of UNKNOWN = None"

definition FUSE_find :: "(string \<Rightarrow> string list) \<Rightarrow> string \<Rightarrow> FUSEInterface \<Rightarrow> TreeNode option result" where
  "FUSE_find path_elements path fi =
     res_bind (of_option NullDeref fi) (\<lambda>fs. UserFS_find path_elements path fs)"

definition FUSE_getattr :: "(string \<Rightarrow> string list) \<Rightarrow> string \<Rightarrow> FUSEInterface \<Rightarrow> (int \<times> stat) result" where
  "FUSE_getattr path_elements path fi =
     res_bind (FUSE_find path_elements path fi) (\<lambda>node.
       case node of
         None \<Rightarrow> Inr (- ENOENT, stat_zero)
       | Some n \<Rightarrow>
           (case mode_of (tn_type n) of
              None \<Rightarrow> Inr (- ENOENT, stat_zero)
            | Some m \<Rightarrow>
                Inr (0, \<lparr>st_mode = m, st_nlink = tn_num_links n, st_size = sint (tn_size n), st_mtime = sint (tn_mtime n)\<rparr>)))"

text \<open>The second component is the sequence of names handed to \<^verbatim>\<open>filler\<close>.\<close>

definition FUSE_readdir :: "(string \<Rightarrow> string list) \<Rightarrow> string \<Rightarrow> FUSEInterface \<Rightarrow> (int \<times> string list) result" where
  "FUSE_readdir path_elements path fi =
     res_bind (FUSE_find path_elements path fi) (\<lambda>node.
       case node of
         None \<Rightarrow> Inr (- ENOENT, [])
       | Some n \<Rightarrow>
           if tn_type n \<noteq> DIRECTORY then Inr (- ENOTDIR, [])
           else Inr (0, map tn_name (tn_children n)))"

definition FUSE_open :: "(string \<Rightarrow> string list) \<Rightarrow> string \<Rightarrow> u32 \<Rightarrow> FUSEInterface \<Rightarrow> int result" where
  "FUSE_open path_elements path flags fi =
     res_bind (FUSE_find path_elements path fi) (\<lambda>node.
       case node of
         None \<Rightarrow> Inr (- ENOENT)
       | Some n \<Rightarrow> if flags AND 3 \<noteq> 0 then Inr (- EACCES) else Inr 0)"

text \<open>
  The offset is a signed number; \<open>read_size\<close> is computed, but the call passes \<open>sz\<close>. The count is
  returned as an \<^verbatim>\<open>int\<close> of 32 bits.
\<close>

definition to_int32 :: "int \<Rightarrow> int" where
  "to_int32 r = sint (word_of_int r :: u32)"

definition FUSE_read ::
    "(string \<Rightarrow> string list) \<Rightarrow> (string \<Rightarrow> string \<Rightarrow> string) \<Rightarrow> (string \<Rightarrow> local_file) \<Rightarrow> 'w libssh
       \<Rightarrow> string \<Rightarrow> u64 \<Rightarrow> u64 \<Rightarrow> FUSEInterface \<Rightarrow> 'w \<Rightarrow> ((int \<times> bytes) \<times> FUSEInterface \<times> 'w) result" where
  "FUSE_read path_elements path_append files L path sz offset fi w =
     res_bind (FUSE_find path_elements path fi) (\<lambda>node.
       case node of
         None \<Rightarrow> Inr ((- ENOENT, []), fi, w)
       | Some n \<Rightarrow>
           if tn_type n = DIRECTORY then Inr ((- EISDIR, []), fi, w)
           else if sint offset < 0 then Inl AssertFailed
           else
             let read_offset = offset; read_size = sz; file_size = tn_size n
             in if file_size \<le> read_offset then Inr ((0, []), fi, w)
                else
                  let read_size = (if file_size < read_offset + read_size then file_size - read_offset else read_size)
                  in res_bind (of_option NullDeref fi) (\<lambda>fs.
                     res_bind (UserFS_read path_append files L (tn_host_id n) path offset sz fs w)
                       (\<lambda>((bytes_read, buf), fs, w).
                          if bytes_read < 0 then Inr ((- EIO, buf), Some fs, w)
                          else Inr ((to_int32 bytes_read, buf), Some fs, w))))"

lemmas errno_defs = ENOENT_def EIO_def EACCES_def ENOTDIR_def EISDIR_def

subsection \<open>Lemmas\<close>

lemma FUSE_find_Some [simp]: "FUSE_find path_elements path (Some fs) = UserFS_find path_elements path fs"
  by (simp add: FUSE_find_def)

lemma to_int32_small: "0 \<le> r \<Longrightarrow> r < 2 ^ 31 \<Longrightarrow> to_int32 r = r"
  by (simp add: to_int32_def sint_sbintrunc' signed_take_bit_int_eq_self)

text \<open>A file system for the examples: a master that shares the scanned directory.\<close>

definition sample_local :: UserFS where
  "sample_local = (sample_scan 1)\<lparr>u_hosts := [sample_host 1, sample_host 1]\<rparr>"

definition b_elements :: "string \<Rightarrow> string list" where
  "b_elements p = [''/'', ''b.txt'']"

lemma sample_find:
  "UserFS_find b_elements ''/b.txt'' sample_local = Inr (Some (TreeNode REGULAR 22 0 0 0 5 0 1 1 ''b.txt'' []))"
  by (simp add: UserFS_find_def DirTree_find_def sample_local_def sample_scan_def b_elements_def sample_defs)

subsection \<open>Properties\<close>

text \<open>
  The attributes of a path are those of the node that \<^verbatim>\<open>find\<close> returns: \<^verbatim>\<open>-ENOENT\<close> if
  there is none or its type is unknown; otherwise 0, with the link count, size and modification time
  of the node, the file type in the upper bits of the mode, and no write permission for anybody but
  the owner of a directory.
\<close>

theorem getattr_reports_node:
  assumes "UserFS_find path_elements path fs = Inr node"
  shows "FUSE_getattr path_elements path (Some fs) =
           (case node of
              None \<Rightarrow> Inr (- ENOENT, stat_zero)
            | Some n \<Rightarrow>
                if tn_type n = UNKNOWN then Inr (- ENOENT, stat_zero)
                else Inr (0, \<lparr>st_mode = the (mode_of (tn_type n)), st_nlink = tn_num_links n,
                              st_size = sint (tn_size n), st_mtime = sint (tn_mtime n)\<rparr>)) \<and>
         (\<forall>t m. mode_of t = Some m \<longrightarrow>
            m AND 0x1FF = (if t = DIRECTORY then 0x1ED else 0x124) \<and> m AND 0x92 = (if t = DIRECTORY then 0x80 else 0) \<and>
            (\<forall>t' m'. mode_of t' = Some m' \<longrightarrow> m AND 0xF000 = m' AND 0xF000 \<longrightarrow> t = t'))"
proof
  show "FUSE_getattr path_elements path (Some fs) =
           (case node of
              None \<Rightarrow> Inr (- ENOENT, stat_zero)
            | Some n \<Rightarrow>
                if tn_type n = UNKNOWN then Inr (- ENOENT, stat_zero)
                else Inr (0, \<lparr>st_mode = the (mode_of (tn_type n)), st_nlink = tn_num_links n,
                              st_size = sint (tn_size n), st_mtime = sint (tn_mtime n)\<rparr>))"
  proof (cases node)
    case (Some n)
    with assms show ?thesis by (cases "tn_type n") (simp_all add: FUSE_getattr_def)
  qed (use assms in \<open>simp add: FUSE_getattr_def\<close>)
  have "m AND 0x1FF = (if t = DIRECTORY then 0x1ED else 0x124) \<and> m AND 0x92 = (if t = DIRECTORY then 0x80 else 0)"
    if "mode_of t = Some m" for t m
    using that by (cases t) auto
  moreover have "t = t'" if "mode_of t = Some m" "mode_of t' = Some m'" "m AND 0xF000 = m' AND 0xF000" for t t' m m'
    using that by (cases t; cases t') auto
  ultimately show "\<forall>t m. mode_of t = Some m \<longrightarrow>
            m AND 0x1FF = (if t = DIRECTORY then 0x1ED else 0x124) \<and> m AND 0x92 = (if t = DIRECTORY then 0x80 else 0) \<and>
            (\<forall>t' m'. mode_of t' = Some m' \<longrightarrow> m AND 0xF000 = m' AND 0xF000 \<longrightarrow> t = t')"
    by blast
qed

theorem getattr_reports_node_witness:
  "FUSE_getattr b_elements ''/b.txt'' (Some sample_local) = Inr (0, \<lparr>st_mode = 0x8124, st_nlink = 1, st_size = 22, st_mtime = 5\<rparr>)"
  using getattr_reports_node [OF sample_find] by simp

text \<open>
  Listing a directory gives each name in it once, in ascending order, and nothing else: a name
  is listed exactly when the path extended by it leads to a node. What is no directory gives
  \<^verbatim>\<open>-ENOTDIR\<close>.
\<close>

theorem readdir_lists_children:
  assumes "UserFS_find path_elements path fs = Inr (Some n)" and "wf_node n"
  shows "FUSE_readdir path_elements path (Some fs) =
           (if tn_type n = DIRECTORY then Inr (0, map tn_name (tn_children n)) else Inr (- ENOTDIR, [])) \<and>
         sorted_wrt (<) (map tn_name (tn_children n)) \<and>
         (\<forall>k. k \<in> set (map tn_name (tn_children n)) \<longleftrightarrow> lookup_path n [k] \<noteq> None)"
proof (intro conjI allI)
  show "FUSE_readdir path_elements path (Some fs) =
           (if tn_type n = DIRECTORY then Inr (0, map tn_name (tn_children n)) else Inr (- ENOTDIR, []))"
    using assms(1) by (simp add: FUSE_readdir_def)
  show "sorted_wrt (<) (map tn_name (tn_children n))"
    using wf_nodeD(1) [OF assms(2)] by (simp add: sorted_names_def)
  show "k \<in> set (map tn_name (tn_children n)) \<longleftrightarrow> lookup_path n [k] \<noteq> None" for k
    using set_find_ne_None [OF wf_nodeD(1) [OF assms(2)], of k] by (auto split: option.split)
qed

theorem readdir_lists_children_witness:
  "FUSE_readdir (\<lambda>_. [''/'']) ''/'' (Some sample_local) = Inr (0, [''a'', ''b.txt''])"
proof -
  obtain r where r: "UserFS_find (\<lambda>_. [''/'']) ''/'' sample_local = Inr (Some r)" "wf_node r"
    "tn_type r = DIRECTORY" "map tn_name (tn_children r) = [''a'', ''b.txt'']"
    by (simp add: UserFS_find_def DirTree_find_def sample_local_def sample_scan_def sample_defs)
  from readdir_lists_children [OF r(1,2)] r(3,4) show ?thesis by simp
qed

text \<open>
  The mounted file system is read only: a path that exists opens exactly with the flags whose
  access mode is \<^verbatim>\<open>O_RDONLY\<close>; any other access mode gives \<^verbatim>\<open>-EACCES\<close>, and a path without a
  node \<^verbatim>\<open>-ENOENT\<close>.
\<close>

theorem open_read_only:
  assumes "UserFS_find path_elements path fs = Inr node"
  shows "FUSE_open path_elements path flags (Some fs) =
           Inr (if node = None then - ENOENT else if unat flags mod 4 = 0 then 0 else - EACCES)"
proof -
  have "flags AND 3 = 0 \<longleftrightarrow> unat flags mod 4 = 0"
  proof -
    have "flags AND 3 = take_bit 2 flags" by (simp add: take_bit_eq_mask mask_eq_exp_minus_1)
    moreover have "unat (take_bit 2 flags) = unat flags mod 4"
      by (simp only: unsigned_take_bit_eq) (simp add: take_bit_eq_mod)
    ultimately show ?thesis by (metis unat_eq_0)
  qed
  then show ?thesis
    using assms by (auto simp: FUSE_open_def split: option.split)
qed

theorem open_read_only_witness:
  "FUSE_open b_elements ''/b.txt'' 0x8000 (Some sample_local) = Inr 0 \<and>
   FUSE_open b_elements ''/b.txt'' 0x8002 (Some sample_local) = Inr (- EACCES)"
  using open_read_only [OF sample_find, of "0x8000"] open_read_only [OF sample_find, of "0x8002"] by simp

text \<open>
  The cases in which \<^verbatim>\<open>read\<close> does not reach the host of the file: no node gives
  \<^verbatim>\<open>-ENOENT\<close>, a directory \<^verbatim>\<open>-EISDIR\<close>, an offset at or behind the recorded size 0, all
  without touching the state; a negative offset fails the assertion. A failure of the host is
  reported as \<^verbatim>\<open>-EIO\<close>.
\<close>

theorem read_errors:
  assumes "UserFS_find path_elements path fs = Inr node"
  shows "(node = None \<longrightarrow>
            FUSE_read path_elements path_append files L path sz offset (Some fs) w = Inr ((- ENOENT, []), Some fs, w)) \<and>
         (\<forall>n. node = Some n \<and> tn_type n = DIRECTORY \<longrightarrow>
            FUSE_read path_elements path_append files L path sz offset (Some fs) w = Inr ((- EISDIR, []), Some fs, w)) \<and>
         (\<forall>n. node = Some n \<and> tn_type n \<noteq> DIRECTORY \<and> sint offset < 0 \<longrightarrow>
            FUSE_read path_elements path_append files L path sz offset (Some fs) w = Inl AssertFailed) \<and>
         (\<forall>n. node = Some n \<and> tn_type n \<noteq> DIRECTORY \<and> 0 \<le> sint offset \<and> tn_size n \<le> offset \<longrightarrow>
            FUSE_read path_elements path_append files L path sz offset (Some fs) w = Inr ((0, []), Some fs, w)) \<and>
         (\<forall>n r buf fs' w'. node = Some n \<and> tn_type n \<noteq> DIRECTORY \<and> 0 \<le> sint offset \<and> offset < tn_size n \<and>
            UserFS_read path_append files L (tn_host_id n) path offset sz fs w = Inr ((r, buf), fs', w') \<and> r < 0 \<longrightarrow>
            FUSE_read path_elements path_append files L path sz offset (Some fs) w = Inr ((- EIO, buf), Some fs', w'))"
  using assms by (auto simp: FUSE_read_def Let_def)

theorem read_errors_witness:
  "FUSE_read b_elements (@) (\<lambda>_. NoFile) tracking_libssh ''/b.txt'' 10 22 (Some sample_local) (0, []) =
     Inr ((0, []), Some sample_local, (0, []))"
  using read_errors [OF sample_find, of "(@)" "\<lambda>_. NoFile" tracking_libssh 10 22 "(0, [])"] by simp

text \<open>
  \<^bold>\<open>C27\<close>. Reading a file that this host shares. If the node is a file of this host and the file has
  contents, \<^verbatim>\<open>read\<close> from an offset below the recorded size returns the octets of the file from
  the offset on, as many as there are but not more than asked for, and the count is their number.
  The recorded size does not bound the count: a file that has grown is read past it.
\<close>

theorem read_own_file:
  assumes "UserFS_find path_elements (CHR ''/'' # rel) fs = Inr (Some n)" and "tn_type n \<noteq> DIRECTORY"
    and "tn_host_id n = u_host_id fs" and "Hosts_at (u_hosts fs) (u_host_id fs) = Inr host"
    and "files (path_append (h_working_dir host) rel) = Contents c"
    and "offset < tn_size n" and "0 \<le> sint offset" and "unat sz < 2 ^ 31"
  shows "\<exists>fs'. FUSE_read path_elements path_append files L (CHR ''/'' # rel) sz offset (Some fs) w =
           Inr ((int (min (unat sz) (length c - unat offset)), take (unat sz) (drop (unat offset) c)), Some fs', w)"
proof -
  let ?d = "take (unat sz) (drop (unat offset) c)"
  have off: "unat offset < 2 ^ 63" using assms(7) by (rule sint_nonneg_unat)
  have len: "length ?d = min (unat sz) (length c - unat offset)" by (simp add: min.commute)
  obtain sm where sm: "UserFS_read path_append files L (u_host_id fs) (CHR ''/'' # rel) offset sz fs w =
      Inr (ifstream_read (Contents c) offset sz, fs\<lparr>u_ssh_manager := sm\<rparr>, w)"
    using UserFS_read_local [OF assms(4), of path_append files L rel offset sz w] assms(5) by auto
  have "ifstream_read (Contents c) offset sz = (int (length ?d), ?d)"
    using off assms(8) by (simp add: ifstream_read_def Let_def)
  moreover have "to_int32 (int (length ?d)) = int (length ?d)"
    using assms(8) by (intro to_int32_small) (simp_all add: len)
  ultimately show ?thesis
    using assms(1,2,3,6,7) sm len by (auto simp: FUSE_read_def Let_def)
qed

theorem read_own_file_witness:
  "\<exists>fs'. FUSE_read b_elements (@) (\<lambda>f. if f = ''/master/b.txt'' then Contents (replicate 30 7) else NoFile)
     tracking_libssh ''/b.txt'' 100 20 (Some sample_local) (0, []) = Inr ((10, replicate 10 7), Some fs', (0, []))"
  using read_own_file [OF sample_find, of "sample_host 1"
      "\<lambda>f. if f = ''/master/b.txt'' then Contents (replicate 30 7) else NoFile" "(@)" "replicate 30 7" 20 100 tracking_libssh "(0, [])"]
  by (simp add: sample_local_def sample_scan_def Hosts_at_def sample_host_def)

end
