(* ===== verification/Gsfs_Main.thy ===== *)
theory Gsfs_Main
  imports Option_Parser Tcp_Callbacks Fuse_Interface
begin

section \<open>gsfs.cc: the program\<close>

text \<open>
  \<^verbatim>\<open>main\<close> as a function from what the outside supplies to how the run goes: it ends with an exit
  status, dies of an uncaught exception or an invalid access, waits for the master for ever, or
  hands the mounted file system to \<^verbatim>\<open>fuse_main\<close>. \<open>slave_run\<close> are the handlers that run on the
  thread of the messager while the main thread of a slave waits.
\<close>

subsection \<open>Definitions\<close>

record environment =
  env_archive :: boost_archive
  env_is_ip :: "string \<Rightarrow> bool"
  env_status :: "string \<Rightarrow> path_status"
  env_resolve :: "string \<Rightarrow> u16 \<Rightarrow> string list \<times> bool"
  env_listen_error :: bool
  env_absolute :: "string \<Rightarrow> string"
  env_junk :: "string \<Rightarrow> TreeNode"
  env_now :: u64
  env_root_links :: "u64 option"
  env_entries :: "dir_entry list option"
  env_fork :: int

datatype main_result =
    Exit int
  | Died crash
  | Waiting UserFS
  | Mounted "string list" FUSEInterface

fun slave_run :: "boost_archive \<Rightarrow> slave_event list \<Rightarrow> UserFS \<Rightarrow> UserFS result" where
  "slave_run B [] fs = Inr fs"
| "slave_run B (ev # evs) fs = res_bind (slave_handle B ev fs) (slave_run B evs)"

text \<open>\<^verbatim>\<open>_slave_wait_sem.wait()\<close> of \<^verbatim>\<open>initTCPNetwork\<close>, then the rest of \<^verbatim>\<open>main\<close>.\<close>

definition main_mount :: "string \<Rightarrow> OptionParser \<Rightarrow> UserFS \<Rightarrow> main_result" where
  "main_mount argv0 op fs = Mounted [argv0, op_mount_point op, ''-f''] (FUSE_initialize fs)"

definition gsfs_main ::
    "environment \<Rightarrow> OptionParser \<Rightarrow> string \<Rightarrow> variables_map option \<Rightarrow> slave_event list \<Rightarrow> main_result" where
  "gsfs_main E parser argv0 command_line evs =
     (case OptionParser_parse (env_is_ip E) (env_status E) command_line parser of
        Inl err \<Rightarrow> Exit 1
      | Inr op \<Rightarrow>
          if \<not> op_is_master op \<and> \<not> op_is_standby op then Exit 0
          else if env_fork E \<noteq> 0 then Exit 0
          else
            let fs = (if op_is_master op then UserFS_setMaster UserFS_new else UserFS_new)
            in case UserFS_initDirTree (env_absolute E) (env_junk E) (env_now E) (env_root_links E) (env_entries E)
                      (op_working_dir op) fs of
                 Inl err \<Rightarrow> Exit 1
               | Inr fs \<Rightarrow>
                   let fs = UserFS_initHost (op_address op) (op_tcp_port op) (op_ssh_port op) fs
                   in case UserFS_initTCPNetwork (env_archive E) (env_resolve E) (env_listen_error E)
                             (op_address op) (op_tcp_port op) fs of
                        Inl err \<Rightarrow> Died err
                      | Inr (True, fs) \<Rightarrow> Exit 1
                      | Inr (False, fs) \<Rightarrow>
                          if op_is_master op then main_mount argv0 op fs
                          else
                            (case slave_run (env_archive E) evs fs of
                               Inl err \<Rightarrow> Died err
                             | Inr fs \<Rightarrow>
                                 (case UserFS_wait fs of
                                    None \<Rightarrow> Waiting fs
                                  | Some fs \<Rightarrow> main_mount argv0 op fs)))"

subsection \<open>Lemmas\<close>

text \<open>The state of a slave when it starts to wait.\<close>

lemma slave_start:
  assumes "UserFS_initDirTree absolute junk now nl es wd UserFS_new = Inr fs"
    and "UserFS_initTCPNetwork B resolve listen_error addr port (UserFS_initHost addr tcp_port ssh_port fs) = Inr (False, fs')"
  shows "u_host_id fs' = 0 \<and> u_dir_tree fs' = u_dir_tree fs \<and> u_main_thread_is_waiting fs' \<and> u_slave_wait_sem fs' = 0 \<and>
    length (u_hosts fs') = 1 \<and>
    (\<exists>m self. tm_slave (u_tcp_manager fs') = Some m \<and> u_hosts fs' = [self] \<and> sm_connecting m \<and> sm_queue m = [] \<and>
       sm_posted m = [SlavePostWrite (Packet_encodeData (hello_message (DirTree_serialize B (u_dir_tree fs)) (Host_serialize B self)))])"
proof (rule initDirTree_scan_inv [OF assms(1)])
  fix r
  assume fs: "fs = UserFS_new\<lparr>u_working_dir := add_trailing_slash (absolute wd), u_dir_tree := Some r\<rparr>"
  show ?thesis
    using assms(2)
    by (auto simp: UserFS_initTCPNetwork_def UserFS_initHost_def fs UserFS_new_def TCPManager_initialize_def
        TCPManager_start_def TCPManager_write_def TCPSlaveMessager_init_def TCPSlaveMessager_start_def
        TCPSlaveMessager_new_def TCPSlaveMessager_write_def slave_do_connect_def TCPManager_new_def Hosts_at_def
        Hosts_push_def Let_def split: prod.splits if_splits)
qed

lemma set_slave_simps [simp]:
  "slave_of (set_slave m fs) = Inr m" "set_slave m (set_slave m' fs) = set_slave m fs"
  "u_dir_tree (set_slave m fs) = u_dir_tree fs" "u_host_id (set_slave m fs) = u_host_id fs"
  "u_hosts (set_slave m fs) = u_hosts fs" "u_slave_wait_sem (set_slave m fs) = u_slave_wait_sem fs"
  "u_main_thread_is_waiting (set_slave m fs) = u_main_thread_is_waiting fs"
  by (simp_all add: slave_of_def set_slave_def)

lemma slave_connected:
  "slave_of fs = Inr m \<Longrightarrow> \<exists>m'. slave_connect_handler False fs = Inr (set_slave m' fs) \<and>
     sm_posted m' = sm_posted m \<and> sm_queue m' = sm_queue m"
  by (auto simp: slave_connect_handler_def slave_do_read_header_def vec_resize_def Packet_sizeLength_def Let_def)

text \<open>The hello message, posted before the connection stood, goes out.\<close>

lemma slave_sends:
  assumes "slave_of fs = Inr m" and "sm_posted m = [SlavePostWrite p]" and "sm_queue m = []"
  shows "\<exists>m'. slave_run B [SlaveRunPost, SlaveWritten False (unat (pkt_size p))] fs = Inr (set_slave m' fs)"
  using assms
  by (auto simp: slave_run_post_def slave_enqueue_def slave_write_handler_def slave_do_write_def Let_def)

lemma slave_receives_recognition:
  fixes B :: boost_archive
  assumes "slave_of fs = Inr m" and "u_dir_tree fs = Some rs" and "archive_lossless B" and "wf_tree (Some r)"
    and "wire_safe i" and "length (recognition_message i (DirTree_serialize B (Some r)) (Hosts_serialize B hs)) < 2 ^ 48"
  defines "msg \<equiv> recognition_message i (DirTree_serialize B (Some r)) (Hosts_serialize B hs)"
  shows "\<exists>m'. slave_run B [SlaveHeaderRead False (host_to_network_64 (of_nat (length msg))), SlaveBodyRead False msg] fs =
    Inr (set_slave m' (fs\<lparr>u_host_id := i, u_dir_tree := Some (with_children (tn_children r) rs), u_hosts := hs,
      u_main_thread_is_waiting := False, u_slave_wait_sem := Suc (u_slave_wait_sem fs)\<rparr>))"
proof -
  let ?hdr = "host_to_network_64 (of_nat (length msg))"
  have len: "length msg < 2 ^ 48" using assms(6) by (simp add: msg_def)
  obtain b where b: "vec_resize (length msg) (fill ?hdr (sm_buffer m)) = Inr b"
    using vec_resize_ok [of "length msg" "fill ?hdr (sm_buffer m)"] len by auto
  let ?p = "(sm_packet m)\<lparr>pkt_size := of_nat (length msg)\<rparr>"
  let ?m1 = "m\<lparr>sm_read := NoRead, sm_packet := ?p, sm_buffer := b, sm_read := ReadBody\<rparr>"
  have hdr: "slave_header_handler False ?hdr fs = Inr (set_slave ?m1 fs)"
    using b decode_header_rest [OF len] assms(1) len
    by (simp add: slave_header_handler_def Packet_sizeLength_def wire64.length_enc slave_do_read_body_def
        unat_of_nat_small fill_def)
  let ?m2 = "?m1\<lparr>sm_buffer := fill msg b, sm_read := NoRead, sm_packet := ?p\<lparr>pkt_data := msg\<rparr>\<rparr>"
  let ?fs2 = "fs\<lparr>u_host_id := i, u_dir_tree := Some (with_children (tn_children r) rs), u_hosts := hs,
      u_main_thread_is_waiting := False, u_slave_wait_sem := Suc (u_slave_wait_sem fs)\<rparr>"
  have rd: "TCPManager_read_slave B (?p\<lparr>pkt_data := msg\<rparr>) (set_slave ?m2 fs) = Inr (set_slave ?m2 ?fs2)"
    using slaveRecognized_ok [OF assms(3,4), of "set_slave ?m2 fs" rs i hs] assms(2,5) len
    by (subst read_recognition [of "DirTree_serialize B (Some r)" "Hosts_serialize B hs" i])
      (simp_all add: msg_def recognition_message_def put_len_seq_def wire64.length_enc set_slave_def)
  obtain b' where "slave_do_read_header ?m2 = Inr (?m2\<lparr>sm_buffer := b', sm_read := ReadHeader\<rparr>)"
    by (simp add: slave_do_read_header_def vec_resize_def Packet_sizeLength_def)
  then have "slave_body_handler B False msg (set_slave ?m1 fs) =
      Inr (set_slave (?m2\<lparr>sm_buffer := b', sm_read := ReadHeader\<rparr>) ?fs2)"
    using rd len by (simp add: slave_body_handler_def Let_def setData_fill unat_of_nat_small)
  with hdr show ?thesis by (auto simp del: set_slave_simps(2))
qed

text \<open>A run of \<^verbatim>\<open>main\<close> up to the point where the roles part.\<close>

lemma main_standby:
  assumes "role_options_ok (env_is_ip E) (env_status E) vm" and "vm_connect vm = Some a" and "env_fork E = 0"
    and "UserFS_initDirTree (env_absolute E) (env_junk E) (env_now E) (env_root_links E) (env_entries E)
           (op_working_dir (role_options vm)) UserFS_new = Inr fs0"
    and "\<not> snd (env_resolve E a (op_tcp_port (role_options vm)))"
  shows "\<exists>fs. UserFS_initTCPNetwork (env_archive E) (env_resolve E) (env_listen_error E) a (op_tcp_port (role_options vm))
             (UserFS_initHost a (op_tcp_port (role_options vm)) (op_ssh_port (role_options vm)) fs0) = Inr (False, fs) \<and>
           gsfs_main E parser argv0 (Some vm) evs =
             (case slave_run (env_archive E) evs fs of
                Inl err \<Rightarrow> Died err
              | Inr fs \<Rightarrow> (case UserFS_wait fs of None \<Rightarrow> Waiting fs | Some fs \<Rightarrow> main_mount argv0 (role_options vm) fs))"
proof -
  let ?op = "role_options vm"
  have op: "\<not> op_is_master ?op" "op_is_standby ?op" "op_address ?op = a"
    using assms(1,2) by (auto simp: role_options_ok_def role_options_def split: option.splits)
  have "\<exists>fs. UserFS_initTCPNetwork (env_archive E) (env_resolve E) (env_listen_error E) a (op_tcp_port ?op)
             (UserFS_initHost a (op_tcp_port ?op) (op_ssh_port ?op) fs0) = Inr (False, fs)"
  proof (rule initDirTree_scan_inv [OF assms(4)])
    fix r
    assume "fs0 = UserFS_new\<lparr>u_working_dir := add_trailing_slash (env_absolute E (op_working_dir ?op)), u_dir_tree := Some r\<rparr>"
    then show ?thesis
      using assms(5)
      by (cases "env_resolve E a (op_tcp_port ?op)")
        (simp add: UserFS_initTCPNetwork_def UserFS_initHost_def UserFS_new_def TCPManager_initialize_def
          TCPManager_start_def TCPManager_write_def TCPSlaveMessager_init_def TCPManager_new_def Hosts_at_def
          Hosts_push_def)
  qed
  then show ?thesis
    using parse_role_complete [OF assms(1), of parser] op assms(3,4) by (auto simp: gsfs_main_def)
qed

text \<open>An environment and command lines for the examples.\<close>

definition sample_env :: environment where
  "sample_env =
     \<lparr>env_archive = tagged_archive, env_is_ip = (\<lambda>_. True), env_status = (\<lambda>_. PathDirectory),
      env_resolve = (\<lambda>_ _. ([''192.168.1.101''], False)), env_listen_error = False, env_absolute = id,
      env_junk = (\<lambda>_. sample_file 0 []), env_now = 5, env_root_links = Some 2, env_entries = Some sample_entries,
      env_fork = 0\<rparr>"

definition sample_vm :: "string option \<Rightarrow> string option \<Rightarrow> variables_map" where
  "sample_vm l c =
     \<lparr>vm_listen = l, vm_connect = c, vm_tcp_port = Some 10000, vm_ssh_port = None, vm_mount_point = Some ''/mnt'',
      vm_working_directory = Some ''/master'', vm_help = False, vm_version = False\<rparr>"

definition sample_parser :: OptionParser where
  "sample_parser =
     \<lparr>op_is_master = False, op_is_standby = False, op_address = [], op_tcp_port = 0, op_ssh_port = 0,
      op_mount_point = [], op_working_dir = []\<rparr>"

lemma sample_vm_ok:
  "(l = None) \<noteq> (c = None) \<Longrightarrow> role_options_ok (env_is_ip sample_env) (env_status sample_env) (sample_vm l c)"
  by (auto simp: role_options_ok_def sample_vm_def sample_env_def)

lemma sample_env_scan:
  "UserFS_initDirTree (env_absolute sample_env) (env_junk sample_env) (env_now sample_env) (env_root_links sample_env)
     (env_entries sample_env) (op_working_dir (role_options (sample_vm l c))) (UserFS_new\<lparr>u_host_id := h\<rparr>) = Inr (sample_scan h)"
  using sample_scan_eq [of h] by (simp add: sample_env_def role_options_def sample_vm_def id_def)

subsection \<open>Properties\<close>

text \<open>
  A master comes up. With a complete command line for \<^verbatim>\<open>--listen\<close>, in the forked child, when
  the working directory can be scanned and the address resolves to one end point, \<^verbatim>\<open>main\<close> mounts
  at the mount point, in the foreground, a file system whose state satisfies the invariant of a
  master.
\<close>

theorem main_mounts_master:
  assumes "role_options_ok (env_is_ip E) (env_status E) vm" and "vm_listen vm = Some a" and "env_fork E = 0"
    and "UserFS_initDirTree (env_absolute E) (env_junk E) (env_now E) (env_root_links E) (env_entries E)
           (op_working_dir (role_options vm)) (UserFS_setMaster UserFS_new) = Inr fs0"
    and "env_resolve E a (op_tcp_port (role_options vm)) = ([e], False)"
  shows "\<exists>fs m. gsfs_main E parser argv0 (Some vm) evs = Mounted [argv0, m, ''-f''] (Some fs) \<and>
           vm_mount_point vm = Some m \<and> master_inv fs \<and> u_dir_tree fs = u_dir_tree fs0"
proof -
  let ?op = "role_options vm"
  have op: "op_is_master ?op" "op_address ?op = a" "vm_mount_point vm = Some (op_mount_point ?op)"
    using assms(1,2) by (auto simp: role_options_ok_def role_options_def split: option.splits)
  have "\<exists>fs. UserFS_initTCPNetwork (env_archive E) (env_resolve E) (env_listen_error E) a (op_tcp_port ?op)
          (UserFS_initHost a (op_tcp_port ?op) (op_ssh_port ?op) fs0) = Inr (False, fs) \<and> u_dir_tree fs = u_dir_tree fs0"
  proof (rule initDirTree_scan_inv [OF assms(4)])
    fix r
    assume "fs0 = UserFS_setMaster UserFS_new
      \<lparr>u_working_dir := add_trailing_slash (env_absolute E (op_working_dir ?op)), u_dir_tree := Some r\<rparr>"
    then show ?thesis
      using assms(5)
      by (simp add: UserFS_initTCPNetwork_def UserFS_initHost_def UserFS_new_def UserFS_setMaster_def
          TCPManager_initialize_def TCPManager_start_def TCPMasterMessager_init_def TCPManager_new_def
          UserFS_pushMaster_def Hosts_at_def Hosts_push_def)
  qed
  then obtain fs where net: "UserFS_initTCPNetwork (env_archive E) (env_resolve E) (env_listen_error E) a (op_tcp_port ?op)
      (UserFS_initHost a (op_tcp_port ?op) (op_ssh_port ?op) fs0) = Inr (False, fs)" and tree: "u_dir_tree fs = u_dir_tree fs0"
    by blast
  have "gsfs_main E parser argv0 (Some vm) evs = main_mount argv0 ?op fs"
    using parse_role_complete [OF assms(1), of parser] op assms(3,4) net by (simp add: gsfs_main_def)
  then show ?thesis
    using master_start [OF assms(4) net] tree op(3) by (simp add: main_mount_def FUSE_initialize_def)
qed

theorem main_mounts_master_witness:
  "\<exists>fs m. gsfs_main sample_env sample_parser ''gsfs'' (Some (sample_vm (Some ''192.168.1.101'') None)) [] =
     Mounted [''gsfs'', m, ''-f''] (Some fs) \<and> master_inv fs"
proof -
  have "env_fork sample_env = 0" "vm_listen (sample_vm (Some ''192.168.1.101'') None) = Some ''192.168.1.101''"
    "env_resolve sample_env ''192.168.1.101'' p = ([''192.168.1.101''], False)" for p
    by (simp_all add: sample_env_def sample_vm_def)
  from main_mounts_master [OF sample_vm_ok this(2,1) _ this(3), of "sample_scan 1" sample_parser "''gsfs''" "[]"]
    sample_env_scan [of "Some ''192.168.1.101''" None 1]
  show ?thesis by (auto simp: UserFS_setMaster_def)
qed

text \<open>
  A slave without a master. As long as nothing happens on the network the main thread of a
  slave waits and nothing is mounted; when connecting fails, a file system with exactly the files
  this host shares is mounted.
\<close>

theorem main_slave_offline:
  assumes "role_options_ok (env_is_ip E) (env_status E) vm" and "vm_connect vm = Some a" and "env_fork E = 0"
    and "UserFS_initDirTree (env_absolute E) (env_junk E) (env_now E) (env_root_links E) (env_entries E)
           (op_working_dir (role_options vm)) UserFS_new = Inr fs0"
    and "\<not> snd (env_resolve E a (op_tcp_port (role_options vm)))"
  shows "(\<exists>fs. gsfs_main E parser argv0 (Some vm) [] = Waiting fs) \<and>
         (\<exists>fs m. gsfs_main E parser argv0 (Some vm) [Connected True] = Mounted [argv0, m, ''-f''] (Some fs) \<and>
            vm_mount_point vm = Some m \<and> u_dir_tree fs = u_dir_tree fs0 \<and> u_host_id fs = 0)"
proof -
  let ?op = "role_options vm"
  obtain fs where net: "UserFS_initTCPNetwork (env_archive E) (env_resolve E) (env_listen_error E) a (op_tcp_port ?op)
        (UserFS_initHost a (op_tcp_port ?op) (op_ssh_port ?op) fs0) = Inr (False, fs)"
    using main_standby [OF assms] by blast
  have main: "gsfs_main E parser argv0 (Some vm) evs =
      (case slave_run (env_archive E) evs fs of
         Inl err \<Rightarrow> Died err
       | Inr fs \<Rightarrow> (case UserFS_wait fs of None \<Rightarrow> Waiting fs | Some fs \<Rightarrow> main_mount argv0 ?op fs))" for evs
    using main_standby [OF assms, of parser argv0 evs] net by auto
  obtain m where start: "u_host_id fs = 0" "u_dir_tree fs = u_dir_tree fs0" "u_main_thread_is_waiting fs"
    "u_slave_wait_sem fs = 0" "slave_of fs = Inr m"
    using slave_start [OF assms(4) net] by (auto simp: slave_of_def)
  obtain r where r: "u_dir_tree fs0 = Some r" "scan_inv 0 (tn_children r)"
    by (rule initDirTree_scan_inv [OF assms(4)]) (auto simp: UserFS_new_def)
  then have "filter (\<lambda>n. tn_host_id n = 0) (tn_children r) = tn_children r"
    using scan_inv_member [OF r(2)] by (intro filter_True) (simp add: owned_by_def)
  then have "with_children (removeNotOf_loop 0 (tn_children r)) r = r" by (simp add: removeNotOf_loop_eq)
  then have "slave_run (env_archive E) [Connected True] fs =
      Inr ((set_slave (m\<lparr>sm_connecting := False\<rparr>) fs)\<lparr>u_main_thread_is_waiting := False, u_slave_wait_sem := 1\<rparr>)"
    using start r(1)
    by (simp add: slave_connect_handler_def UserFS_disconnect_def DirTree_removeNotOf_def Let_def)
  moreover have "vm_mount_point vm = Some (op_mount_point ?op)"
    using assms(1) by (auto simp: role_options_ok_def role_options_def split: option.splits)
  ultimately show ?thesis
    using start by (simp add: main UserFS_wait_def main_mount_def FUSE_initialize_def)
qed

theorem main_slave_offline_witness:
  "\<exists>fs m. gsfs_main sample_env sample_parser ''gsfs'' (Some (sample_vm None (Some ''192.168.1.101''))) [Connected True] =
     Mounted [''gsfs'', m, ''-f''] (Some fs) \<and> u_dir_tree fs = u_dir_tree (sample_scan 0)"
proof -
  have env: "env_fork sample_env = 0" "vm_connect (sample_vm None (Some ''192.168.1.101'')) = Some ''192.168.1.101''"
    "\<not> snd (env_resolve sample_env ''192.168.1.101'' p)" for p
    by (simp_all add: sample_env_def sample_vm_def)
  have "UserFS_new\<lparr>u_host_id := 0\<rparr> = UserFS_new" by (simp add: UserFS_new_def)
  with sample_env_scan [of None "Some ''192.168.1.101''" 0]
    main_slave_offline [OF sample_vm_ok env(2,1) _ env(3), of "sample_scan 0" sample_parser "''gsfs''"]
  show ?thesis by (metis option.distinct(1))
qed

text \<open>
  \<^bold>\<open>C23\<close>. A slave joins a group. When the connection stands, the hello message has gone out whole, and
  the octets of the recognition that a master built for id \<open>i\<close> arrive, \<^verbatim>\<open>main\<close> of the slave
  mounts a file system in which every path leads to the node it leads to at the master, with the
  hosts of the master and the id \<open>i\<close>.
\<close>

theorem main_slave_joins_group:
  fixes E :: environment
  assumes "role_options_ok (env_is_ip E) (env_status E) vm" and "vm_connect vm = Some a" and "env_fork E = 0"
    and "UserFS_initDirTree (env_absolute E) (env_junk E) (env_now E) (env_root_links E) (env_entries E)
           (op_working_dir (role_options vm)) UserFS_new = Inr fs0"
    and "\<not> snd (env_resolve E a (op_tcp_port (role_options vm)))"
    and "archive_lossless (env_archive E)" and "master_inv m" and "u_dir_tree m = Some r" and "unat i < 2 ^ 48"
    and "length (recognition_of (env_archive E) i m) < 2 ^ 48"
  defines "msg \<equiv> recognition_of (env_archive E) i m"
  shows "\<exists>n fs mp r'. gsfs_main E parser argv0 (Some vm)
             [Connected False, SlaveRunPost, SlaveWritten False n,
              SlaveHeaderRead False (host_to_network_64 (of_nat (length msg))), SlaveBodyRead False msg] =
             Mounted [argv0, mp, ''-f''] (Some fs) \<and>
           u_dir_tree fs = Some r' \<and> (\<forall>k ks. lookup_path r' (k # ks) = lookup_path r (k # ks)) \<and>
           u_hosts fs = u_hosts m \<and> u_host_id fs = i"
proof -
  let ?op = "role_options vm" and ?B = "env_archive E"
  obtain fs where net: "UserFS_initTCPNetwork ?B (env_resolve E) (env_listen_error E) a (op_tcp_port ?op)
        (UserFS_initHost a (op_tcp_port ?op) (op_ssh_port ?op) fs0) = Inr (False, fs)"
    using main_standby [OF assms(1-5)] by blast
  have main: "gsfs_main E parser argv0 (Some vm) evs =
      (case slave_run ?B evs fs of
         Inl err \<Rightarrow> Died err
       | Inr fs \<Rightarrow> (case UserFS_wait fs of None \<Rightarrow> Waiting fs | Some fs \<Rightarrow> main_mount argv0 ?op fs))" for evs
    using main_standby [OF assms(1-5), of parser argv0 evs] net by auto
  obtain sm p where sm: "slave_of fs = Inr sm" "sm_posted sm = [SlavePostWrite p]" "sm_queue sm = []"
    and tree: "u_dir_tree fs = u_dir_tree fs0"
    using slave_start [OF assms(4) net] by (auto simp: slave_of_def)
  obtain rs where rs: "u_dir_tree fs = Some rs"
    by (rule initDirTree_scan_inv [OF assms(4)]) (auto simp: tree)
  obtain sm1 where sm1: "slave_connect_handler False fs = Inr (set_slave sm1 fs)" "sm_posted sm1 = [SlavePostWrite p]" "sm_queue sm1 = []"
    using slave_connected [OF sm(1)] sm(2,3) by auto
  obtain sm2 where sm2: "slave_run ?B [SlaveRunPost, SlaveWritten False (unat (pkt_size p))] (set_slave sm1 fs) = Inr (set_slave sm2 fs)"
    using slave_sends [of "set_slave sm1 fs" sm1 p ?B] sm1(2,3) by auto
  have wf: "wf_tree (Some r)" using assms(7,8) by (simp add: master_inv_def tree_inv_def)
  have msg: "msg = recognition_message i (DirTree_serialize ?B (Some r)) (Hosts_serialize ?B (u_hosts m))"
    using assms(8) by (simp add: msg_def recognition_of_def)
  let ?fs2 = "(set_slave sm2 fs)\<lparr>u_host_id := i, u_dir_tree := Some (with_children (tn_children r) rs), u_hosts := u_hosts m,
      u_main_thread_is_waiting := False, u_slave_wait_sem := Suc (u_slave_wait_sem (set_slave sm2 fs))\<rparr>"
  obtain sm3 where sm3: "slave_run ?B [SlaveHeaderRead False (host_to_network_64 (of_nat (length msg))), SlaveBodyRead False msg]
      (set_slave sm2 fs) = Inr (set_slave sm3 ?fs2)"
    using slave_receives_recognition [of "set_slave sm2 fs" sm2 rs ?B r i "u_hosts m", folded msg] rs assms(6,9,10) wf
      wire_safe_small [of i] by (auto simp: msg_def)
  from sm1(1) sm2 sm3 have "slave_run ?B [Connected False, SlaveRunPost, SlaveWritten False (unat (pkt_size p)),
      SlaveHeaderRead False (host_to_network_64 (of_nat (length msg))), SlaveBodyRead False msg] fs =
      Inr (set_slave sm3 ?fs2)"
    by (simp only: slave_run.simps res_bind_Inr slave_handle.simps res_bind_eq_Inr) auto
  then show ?thesis
    by (intro exI [of _ "unat (pkt_size p)"]) (simp add: main UserFS_wait_def main_mount_def FUSE_initialize_def)
qed

theorem main_slave_joins_group_witness:
  "\<exists>n fs mp r'. gsfs_main sample_env sample_parser ''gsfs'' (Some (sample_vm None (Some ''192.168.1.101'')))
       [Connected False, SlaveRunPost, SlaveWritten False n,
        SlaveHeaderRead False (host_to_network_64 (of_nat (length (recognition_of tagged_archive 2 (sample_master [conn_new]))))),
        SlaveBodyRead False (recognition_of tagged_archive 2 (sample_master [conn_new]))] = Mounted [''gsfs'', mp, ''-f''] (Some fs) \<and>
     u_dir_tree fs = Some r' \<and> u_hosts fs = [sample_host 1, sample_host 1] \<and> u_host_id fs = 2"
proof -
  let ?vm = "sample_vm None (Some ''192.168.1.101'')" and ?m = "sample_master [conn_new]"
  have env: "env_fork sample_env = 0" "vm_connect ?vm = Some ''192.168.1.101''"
    "\<not> snd (env_resolve sample_env ''192.168.1.101'' p)" "env_archive sample_env = tagged_archive" for p
    by (simp_all add: sample_env_def sample_vm_def)
  have scan: "UserFS_initDirTree (env_absolute sample_env) (env_junk sample_env) (env_now sample_env)
      (env_root_links sample_env) (env_entries sample_env) (op_working_dir (role_options ?vm)) UserFS_new = Inr (sample_scan 0)"
    using sample_env_scan [of None "Some ''192.168.1.101''" 0] by (simp add: UserFS_new_def)
  obtain r where r: "u_dir_tree ?m = Some r" using master_inv_tree [OF sample_master_inv] by blast
  have len: "length (recognition_of tagged_archive 2 ?m) < 2 ^ 48"
    by (simp add: recognition_of_def recognition_message_def put_len_seq_def wire64.length_enc
        sample_master_def sample_scan_def UserFS_new_def sample_save)
  have ok: "role_options_ok (env_is_ip sample_env) (env_status sample_env) ?vm" by (rule sample_vm_ok) simp
  show ?thesis
    using main_slave_joins_group [OF ok env(2,1) scan env(3) _ sample_master_inv r, of 2 sample_parser "''gsfs''"]
      len archive_lossless_tagged by (auto simp: env(4))
qed

end
