(* ===== verification/Group.thy ===== *)
theory Group
  imports Tcp_Callbacks
begin

section \<open>A group: a master, its slaves and the channels between them\<close>

text \<open>
  A transition system made of the handlers of the nodes. The master runs its handlers; a packet whose
  write has completed is in the channel of its connection until the slave at the other end reads it.
  The slave at the other end of connection \<open>h\<close> is the \<open>h\<close>-th slave. Octets and framing are left
  out here: theory \<open>Tcp_Messager\<close> shows that what is read are the messages that were written, one
  packet each and in order.

  The invariant says of every recognised slave: if nothing is under way to it, its tree and its hosts
  are the master's; otherwise the last packet under way is an update with the master's current tree
  and hosts.
\<close>

subsection \<open>Definitions\<close>

record group =
  g_master :: UserFS
  g_slaves :: "UserFS list"
  g_channels :: "Packet list list"

text \<open>The packet as the receiver assembles it: without the header.\<close>

definition Packet_received :: "Packet \<Rightarrow> Packet" where
  "Packet_received p = \<lparr>pkt_size = pkt_size p - 8, pkt_data = drop Packet_sizeLength (pkt_data p)\<rparr>"

text \<open>What waits in the master for connection \<open>h\<close>: its queue, then what posted closures will add.\<close>

definition post_to :: "nat \<Rightarrow> master_post \<Rightarrow> Packet list" where
  "post_to h x = (case x of PostWrite p \<Rightarrow> [p] | PostWriteTo p k \<Rightarrow> if k = h then [p] else [] | PostStop \<Rightarrow> [])"

definition pending :: "nat \<Rightarrow> UserFS \<Rightarrow> Packet list" where
  "pending h fs = mc_queue (conns fs ! h) @ concat (map (post_to h) (posted fs))"

definition under_way :: "nat \<Rightarrow> group \<Rightarrow> Packet list" where
  "under_way h g = g_channels g ! h @ pending h (g_master g)"

definition recognised :: "nat \<Rightarrow> UserFS \<Rightarrow> bool" where
  "recognised h fs \<longleftrightarrow> h < length (conns fs) \<and> mc_slave_id (conns fs ! h) \<noteq> 0"

text \<open>The sequences of a message and the ids stay in the range that is reliable on the wire.\<close>

definition fits :: "boost_archive \<Rightarrow> UserFS \<Rightarrow> bool" where
  "fits B m \<longleftrightarrow>
     length (DirTree_serialize B (u_dir_tree m)) < 2 ^ 48 \<and> length (Hosts_serialize B (u_hosts m)) < 2 ^ 48 \<and>
     unat (u_max_host_id m) < 2 ^ 48"

definition in_sync :: "UserFS \<Rightarrow> UserFS \<Rightarrow> bool" where
  "in_sync m s \<longleftrightarrow> root_children s = root_children m \<and> u_hosts s = u_hosts m"

text \<open>
  The steps. A successful write of the master hands the packet to the channel; the other events of
  the master touch no channel, except that accepting a connection brings a slave and a channel.
\<close>

inductive group_step :: "boost_archive \<Rightarrow> group \<Rightarrow> group \<Rightarrow> bool" for B where
  master_event:
    "polite ev (g_master g) \<Longrightarrow> (\<forall>ec. ev \<noteq> Accepted ec) \<Longrightarrow> (\<forall>h n. ev \<noteq> Written h False n) \<Longrightarrow>
     master_handle B ev (g_master g) = Inr m \<Longrightarrow> fits B m \<Longrightarrow> group_step B g (g\<lparr>g_master := m\<rparr>)"
| connect:
    "u_dir_tree s \<noteq> None \<Longrightarrow> master_handle B (Accepted False) (g_master g) = Inr m \<Longrightarrow>
     group_step B g (g\<lparr>g_master := m, g_slaves := g_slaves g @ [s], g_channels := g_channels g @ [[]]\<rparr>)"
| written:
    "h < length (conns (g_master g)) \<Longrightarrow> mc_queue (conns (g_master g) ! h) = p # ps \<Longrightarrow>
     master_handle B (Written h False (unat (pkt_size p))) (g_master g) = Inr m \<Longrightarrow>
     group_step B g (g\<lparr>g_master := m, g_channels := (g_channels g)[h := g_channels g ! h @ [p]]\<rparr>)"
| received:
    "h < length (g_channels g) \<Longrightarrow> g_channels g ! h = p # ps \<Longrightarrow>
     TCPManager_read_slave B (Packet_received p) (g_slaves g ! h) = Inr s \<Longrightarrow>
     group_step B g (g\<lparr>g_slaves := (g_slaves g)[h := s], g_channels := (g_channels g)[h := ps]\<rparr>)"

inductive group_reachable :: "boost_archive \<Rightarrow> group \<Rightarrow> group \<Rightarrow> bool" for B g0 where
  group_start: "group_reachable B g0 g0"
| group_next: "group_reachable B g0 g \<Longrightarrow> group_step B g g' \<Longrightarrow> group_reachable B g0 g'"

inductive_cases group_stepE: "group_step B g g'"

definition group_inv :: "boost_archive \<Rightarrow> group \<Rightarrow> bool" where
  "group_inv B g \<longleftrightarrow>
     master_inv (g_master g) \<and> fits B (g_master g) \<and>
     length (g_slaves g) = length (conns (g_master g)) \<and> length (g_channels g) = length (conns (g_master g)) \<and>
     list_all (\<lambda>s. u_dir_tree s \<noteq> None) (g_slaves g) \<and>
     (\<forall>h. recognised h (g_master g) \<longrightarrow>
        (if under_way h g = [] then in_sync (g_master g) (g_slaves g ! h)
         else last (under_way h g) = Packet_encodeData (update_of B (g_master g))))"

subsection \<open>The effect of an event of the master on what waits\<close>

text \<open>
  No connection comes or goes, and for every connection with a slave, either nothing that concerns it changes, or an update with the
  current metadata comes last.
\<close>

definition told :: "boost_archive \<Rightarrow> UserFS \<Rightarrow> UserFS \<Rightarrow> bool" where
  "told B m m' \<longleftrightarrow>
     length (conns m') = length (conns m) \<and>
     (\<forall>h. recognised h m' \<longrightarrow>
        recognised h m \<and> u_dir_tree m' = u_dir_tree m \<and> u_hosts m' = u_hosts m \<and> pending h m' = pending h m \<or>
        (\<exists>pre. pending h m' = pre @ [Packet_encodeData (update_of B m')]))"

lemma told_refl [simp]: "told B m m"
  by (simp add: told_def)

lemma told_trans:
  assumes "told B m m1" and "told B m1 m2"
  shows "told B m m2"
  unfolding told_def
proof (intro conjI allI impI)
  show "length (conns m2) = length (conns m)" using assms by (simp add: told_def)
  fix h
  assume r2: "recognised h m2"
  show "recognised h m \<and> u_dir_tree m2 = u_dir_tree m \<and> u_hosts m2 = u_hosts m \<and> pending h m2 = pending h m \<or>
    (\<exists>pre. pending h m2 = pre @ [Packet_encodeData (update_of B m2)])"
    using assms(1) [unfolded told_def, THEN conjunct2, rule_format, of h]
      assms(2) [unfolded told_def, THEN conjunct2, rule_format, OF r2]
    by (auto simp: update_of_def)
qed

lemma told_set_conn:
  assumes "mc_slave_id c = mc_slave_id (conns fs ! h)" and "mc_queue c = mc_queue (conns fs ! h)"
  shows "told B fs (set_conn h c fs)"
proof -
  have "mc_slave_id ((conns fs)[h := c] ! k) = mc_slave_id (conns fs ! k)"
    "mc_queue ((conns fs)[h := c] ! k) = mc_queue (conns fs ! k)" for k
    using assms by (cases "k = h \<and> h < length (conns fs)"; auto simp: nth_list_update list_update_beyond)+
  then show ?thesis
    by (simp add: told_def recognised_def pending_def)
qed

lemma told_close:
  assumes "master_inv fs" and "TCPMasterMessager_close B h fs = Inr fs'"
  shows "told B fs fs'"
proof -
  obtain r where r: "u_dir_tree fs = Some r" using master_inv_tree [OF assms(1)] by blast
  have role: "master_role fs" using assms(1) by (simp add: master_inv_def)
  have h: "h < length (conns fs)"
    using assms(2) by (simp add: TCPMasterMessager_close_def conn_at_eq master_roleD [OF role] split: if_splits)
  show ?thesis
  proof (cases "mc_open (conns fs ! h)")
    case True
    let ?c = "conns fs ! h"
    from close_implements_left [OF role r h True, of B] assms(2)
    have same: "same_but_posted (left h fs) fs'"
      and post: "posted fs' = posted fs @ (if mc_slave_id ?c = 0 then [] else [PostWrite (Packet_encodeData (update_of B fs'))])"
      using same_but_posted_of(1) by auto
    have cs: "conns fs' = (conns fs)[h := (conn_close ?c)\<lparr>mc_slave_id := 0\<rparr>]" "u_hosts fs' = u_hosts fs"
      using same by (simp_all add: same_but_posted_def)
    have other: "k \<noteq> h" if "recognised k fs'" for k
      using that h by (auto simp: recognised_def cs)
    show ?thesis
    proof (cases "mc_slave_id ?c = 0")
      case True
      then have "u_dir_tree fs' = u_dir_tree fs"
        using same left_unrecognised [OF True] by (simp add: same_but_posted_def)
      moreover have "recognised k fs \<and> pending k fs' = pending k fs" if "recognised k fs'" for k
        using that other [OF that] True post by (simp add: recognised_def pending_def cs)
      ultimately show ?thesis
        by (simp add: told_def cs)
    next
      case False
      then show ?thesis
        using post by (simp add: told_def pending_def post_to_def cs(1))
    qed
  next
    case False
    from close_closed [OF role h False, of B] assms(2) show ?thesis by simp
  qed
qed

lemma told_newConnection:
  assumes "master_inv fs" and "h < length (conns fs)" and "UserFS_newConnection B remote ts hs h fs = Inr fs'"
  shows "told B fs fs'"
proof -
  obtain r where r: "u_dir_tree fs = Some r" using master_inv_tree [OF assms(1)] by blast
  have role: "master_role fs" using assms(1) by (simp add: master_inv_def)
  obtain t host where t: "DirTree_deserialize B ts = Inr (Some t)" "Host_deserialize B hs = Inr host"
    by (rule newConnection_cases [OF assms])
  from newConnection_implements_joined [OF role r assms(2) t, of remote] assms(3)
  have "length (conns fs') = length (conns fs)" by (auto simp: same_but_posted_def)
  moreover from newConnection_implements_joined [OF role r assms(2) t, of remote] assms(3)
  have "\<exists>q. posted fs' = posted fs @ [q, PostWrite (Packet_encodeData (update_of B fs'))]"
    using same_but_posted_of(1) by auto
  ultimately show ?thesis
    by (auto simp: told_def pending_def post_to_def)
qed

lemma told_read_master:
  assumes "master_inv fs" and "h < length (conns fs)" and "TCPManager_read_master B remote p h fs = Inr fs'"
  shows "told B fs fs'"
  using assms(3) told_newConnection [OF assms(1,2)]
  by (auto simp: TCPManager_read_master_def res_bind_eq_Inr split: if_splits)

lemma do_read_queue:
  "conn_do_read_header c = Inr c' \<Longrightarrow> mc_queue c' = mc_queue c"
  "conn_do_read_body c = Inr c' \<Longrightarrow> mc_queue c' = mc_queue c"
  by (auto simp: conn_do_read_header_def conn_do_read_body_def res_bind_eq_Inr)

lemma told_header:
  assumes "master_inv fs" and "master_header_handler B h ec data fs = Inr fs'"
  shows "told B fs fs'"
proof -
  let ?c = "(conns fs ! h)\<lparr>mc_buffer := fill data (mc_buffer (conns fs ! h)), mc_read := NoRead\<rparr>"
  have at: "conn_at h fs = Inr (conns fs ! h)"
    using assms by (auto simp: master_header_handler_def res_bind_eq_Inr conn_at_Inr)
  have quiet: "told B fs (set_conn h ?c fs)" "master_inv (set_conn h ?c fs)"
    using assms(1) by (auto intro!: told_set_conn set_conn_keeps_inv)
  show ?thesis
  proof (cases "\<not> ec \<and> length data = Packet_sizeLength")
    case True
    then obtain p c where "conn_do_read_body (?c\<lparr>mc_packet := p\<rparr>) = Inr c" "fs' = set_conn h c fs"
      using assms(2) by (auto simp: master_header_handler_def at Let_def res_bind_eq_Inr)
    with do_read_same(2) [OF this(1)] do_read_queue(2) [OF this(1)] show ?thesis
      by (auto intro!: told_set_conn)
  next
    case False
    then have "TCPMasterMessager_close B h (set_conn h ?c fs) = Inr fs'"
      using assms(2) by (auto simp: master_header_handler_def at Let_def split: if_splits)
    from told_trans [OF quiet(1) told_close [OF quiet(2) this]] show ?thesis .
  qed
qed

lemma told_body:
  assumes "master_inv fs" and "\<not> ec \<and> is_hello data \<longrightarrow> fresh_connection h fs"
    and "master_body_handler B h ec data remote fs = Inr fs'"
  shows "told B fs fs'"
proof -
  let ?c = "(conns fs ! h)\<lparr>mc_buffer := fill data (mc_buffer (conns fs ! h)), mc_read := NoRead\<rparr>"
  have at: "conn_at h fs = Inr (conns fs ! h)" and h: "h < length (conns fs)"
    using assms by (auto simp: master_body_handler_def res_bind_eq_Inr conn_at_Inr)
  show ?thesis
  proof (cases "\<not> ec \<and> length data = unat (pkt_size (mc_packet (conns fs ! h)))")
    case True
    let ?p = "(mc_packet ?c)\<lparr>pkt_data := data\<rparr>"
    let ?fs = "set_conn h (?c\<lparr>mc_packet := ?p\<rparr>) fs"
    obtain fs1 c c' where rd: "TCPManager_read_master B remote ?p h ?fs = Inr fs1"
      and c: "conn_at h fs1 = Inr c" "conn_do_read_header c = Inr c'" and fs': "fs' = set_conn h c' fs1"
      using assms(3) True unfolding master_body_handler_def at
      by (simp add: Let_def setData_fill_iff res_bind_eq_Inr) blast
    have inv: "master_inv ?fs" using assms(1) by (intro set_conn_keeps_inv) simp_all
    have fresh: "is_hello (pkt_data ?p) \<longrightarrow> fresh_connection h ?fs"
      using assms(2) True h by (simp add: fresh_connection_def)
    have "told B fs ?fs" by (intro told_set_conn) simp_all
    moreover have "told B ?fs fs1" using h by (intro told_read_master [OF inv _ rd]) simp
    moreover have "c = conns fs1 ! h" using c(1) read_master_keeps_inv [OF inv fresh rd] by (simp add: conn_at_Inr)
    then have "told B fs1 fs'"
      unfolding fs' using do_read_same(1) [OF c(2)] do_read_queue(1) [OF c(2)] by (intro told_set_conn) simp_all
    ultimately show ?thesis by (blast intro: told_trans)
  next
    case False
    then have "TCPMasterMessager_close B h (set_conn h ?c fs) = Inr fs'"
      using assms(3) by (auto simp: master_body_handler_def at Let_def split: if_splits)
    moreover have "told B fs (set_conn h ?c fs)" "master_inv (set_conn h ?c fs)"
      using assms(1) by (auto intro!: told_set_conn set_conn_keeps_inv)
    ultimately show ?thesis by (blast intro: told_trans told_close)
  qed
qed

lemma told_write_error:
  assumes "master_inv fs" and "master_write_handler B h True n fs = Inr fs'"
  shows "told B fs fs'"
proof -
  let ?fs = "set_conn h ((conns fs ! h)\<lparr>mc_writing := False\<rparr>) fs"
  have "TCPMasterMessager_close B h ?fs = Inr fs'"
    using assms by (auto simp: master_write_handler_def res_bind_eq_Inr conn_at_Inr)
  moreover have "told B fs ?fs" "master_inv ?fs"
    using assms(1) by (auto intro!: told_set_conn set_conn_keeps_inv)
  ultimately show ?thesis by (blast intro: told_trans told_close)
qed

lemma conn_enqueue_queue [simp]: "mc_queue (conn_enqueue p c) = mc_queue c @ [p]"
  by (rule master_queue.queue_push)

lemma told_run_post:
  assumes "master_inv fs" and "run_master (\<lambda>m. Inr (master_run_post m)) fs = Inr fs'"
  shows "told B fs fs'"
proof -
  obtain m where m: "tm_master (u_tcp_manager fs) = Some m"
    and fs': "fs' = fs\<lparr>u_tcp_manager := (u_tcp_manager fs)\<lparr>tm_master := Some (master_run_post m)\<rparr>\<rparr>"
    using assms(2) by (auto simp: run_master_def res_bind_eq_Inr)
  have cs: "conns fs = mm_connections m" "posted fs = mm_posted m" "conns fs' = mm_connections (master_run_post m)"
    "posted fs' = mm_posted (master_run_post m)"
    by (simp_all add: conns_def posted_def m fs')
  have ids: "map (\<lambda>c. (mc_slave_id c, mc_open c)) (conns fs') = map (\<lambda>c. (mc_slave_id c, mc_open c)) (conns fs)"
    by (simp add: cs run_post_conns)
  have len: "length (conns fs') = length (conns fs)" using ids by (rule map_eq_imp_length_eq)
  have "recognised h fs \<and> pending h fs' = pending h fs" if rec: "recognised h fs'" for h
  proof -
    from len rec have h: "h < length (conns fs)" by (simp add: recognised_def)
    with ids len have id: "mc_slave_id (conns fs' ! h) = mc_slave_id (conns fs ! h)"
      by (metis (no_types, lifting) nth_map fst_conv)
    with rec have "mc_slave_id (conns fs ! h) \<noteq> 0" by (simp add: recognised_def)
    moreover from this have "mc_open (conns fs ! h)"
      using assms(1) h by (auto simp: master_inv_def conns_inv_def list_all_iff)
    ultimately show ?thesis
      using h by (auto simp: recognised_def pending_def cs master_run_post_def run_write_def run_writeTo_def post_to_def
          nth_list_update split: list.splits master_post.splits)
  qed
  then show ?thesis
    using len by (simp add: told_def) (simp add: fs')
qed

lemma told_event:
  assumes "master_inv fs" and "polite ev fs" and "\<forall>ec. ev \<noteq> Accepted ec" and "\<forall>h n. ev \<noteq> Written h False n"
    and "master_handle B ev fs = Inr fs'"
  shows "told B fs fs'"
proof (cases ev)
  case (Written h ec n)
  with assms show ?thesis by (cases ec) (auto intro: told_write_error)
next
  case (BodyRead h ec data remote)
  with assms show ?thesis by (auto simp: polite_def intro: told_body)
qed (use assms in \<open>auto intro: told_header told_run_post\<close>)

subsection \<open>The invariant\<close>

lemma received_encode: "Packet_received (Packet_encodeData msg) = \<lparr>pkt_size = of_nat (length msg), pkt_data = msg\<rparr>"
  by (simp add: Packet_received_def Packet_encodeData_def Let_def Packet_sizeLength_def wire64.length_enc)

text \<open>Reading an update of the master makes a slave agree with it.\<close>

lemma read_update_syncs:
  assumes "archive_lossless B" and "master_inv m" and "fits B m" and "u_dir_tree s \<noteq> None"
    and "TCPManager_read_slave B (Packet_received (Packet_encodeData (update_of B m))) s = Inr s'"
  shows "in_sync m s'"
proof -
  obtain r rs where r: "u_dir_tree m = Some r" "u_dir_tree s = Some rs"
    using master_inv_tree [OF assms(2)] assms(4) by auto
  have wf: "wf_tree (Some r)" using assms(2) r by (simp add: master_inv_def tree_inv_def)
  have "TCPManager_read_slave B (Packet_received (Packet_encodeData (update_of B m))) s =
      UserFS_updateInfo B (DirTree_serialize B (Some r)) (Hosts_serialize B (u_hosts m)) s"
    using assms(3) r by (intro read_update) (simp_all add: fits_def received_encode update_of_def)
  with assms(5) updateInfo_ok [OF assms(1) wf r(2), of "u_hosts m"] show ?thesis
    by (auto simp: in_sync_def root_children_def r)
qed

lemma deploy_tree_Some: "deploy_tree a b = Inr t \<Longrightarrow> t \<noteq> None"
  by (auto simp: deploy_tree_def res_bind_eq_Inr)

lemma read_slave_tree:
  assumes "TCPManager_read_slave B p s = Inr s'" and "u_dir_tree s \<noteq> None"
  shows "u_dir_tree s' \<noteq> None"
  using assms
  by (auto simp: TCPManager_read_slave_def UserFS_slaveRecognized_def UserFS_updateInfo_def res_bind_eq_Inr Let_def
      dest: deploy_tree_Some split: if_splits)

text \<open>A write that succeeds moves one packet out of the master.\<close>

lemma written_effect:
  assumes "master_inv fs" and "h < length (conns fs)" and "mc_queue (conns fs ! h) = p # ps"
    and "master_handle B (Written h False (unat (pkt_size p))) fs = Inr fs'"
  shows "master_inv fs' \<and> length (conns fs') = length (conns fs) \<and> u_dir_tree fs' = u_dir_tree fs \<and>
    u_hosts fs' = u_hosts fs \<and> u_max_host_id fs' = u_max_host_id fs \<and> (\<forall>k. recognised k fs' = recognised k fs) \<and>
    (\<forall>k. k < length (conns fs) \<longrightarrow> pending k fs = (if k = h then [p] else []) @ pending k fs')"
proof -
  have inv: "master_inv fs'"
    by (rule master_handle_keeps_inv [OF assms(1) _ assms(4)]) (simp add: polite_def)
  have fs': "fs' = set_conn h (conn_write_finished (conns fs ! h)) fs"
    using assms by (auto simp: master_write_handler_def conn_at_eq master_inv_def master_roleD)
  have c: "mc_slave_id (conn_write_finished (conns fs ! h)) = mc_slave_id (conns fs ! h)"
    "mc_queue (conn_write_finished (conns fs ! h)) = ps"
    using assms(3) by (simp_all add: conn_write_finished_def conn_do_write_def Let_def)
  have "recognised k fs' = recognised k fs" for k
    using assms(2) c(1) by (cases "k = h") (simp_all add: recognised_def fs')
  moreover have "pending k fs = (if k = h then [p] else []) @ pending k fs'" if "k < length (conns fs)" for k
    using assms(2,3) c(2) by (cases "k = h") (simp_all add: pending_def fs')
  ultimately show ?thesis
    using inv by (simp add: fs')
qed

lemma accepted_effect:
  assumes "master_inv fs" and "master_handle B (Accepted False) fs = Inr fs'"
  shows "master_inv fs' \<and> u_dir_tree fs' = u_dir_tree fs \<and> u_hosts fs' = u_hosts fs \<and>
    u_max_host_id fs' = u_max_host_id fs \<and> posted fs' = posted fs \<and>
    (\<exists>c. conns fs' = conns fs @ [c] \<and> mc_slave_id c = 0 \<and> mc_queue c = [])"
proof -
  have inv: "master_inv fs'"
    by (rule master_handle_keeps_inv [OF assms(1) _ assms(2)]) (simp add: polite_def)
  obtain m m' where m: "tm_master (u_tcp_manager fs) = Some m" "master_accept False m = Inr m'"
    and fs': "fs' = fs\<lparr>u_tcp_manager := (u_tcp_manager fs)\<lparr>tm_master := Some m'\<rparr>\<rparr>"
    using assms(2) by (auto simp: run_master_def res_bind_eq_Inr)
  have "\<exists>c. mm_connections m' = mm_connections m @ [c] \<and> mc_slave_id c = 0 \<and> mc_queue c = []" "mm_posted m' = mm_posted m"
    using m(2) do_read_same(1) do_read_queue(1)
    by (fastforce simp: master_accept_def do_new_connection_def res_bind_eq_Inr conn_new_def)+
  then show ?thesis
    using inv by (simp add: fs' conns_def posted_def m(1))
qed

text \<open>The invariant is stated for each recognised slave by \<open>slave_ok\<close>.\<close>

definition slave_ok :: "boost_archive \<Rightarrow> UserFS \<Rightarrow> UserFS \<Rightarrow> Packet list \<Rightarrow> bool" where
  "slave_ok B m s ps \<longleftrightarrow> (if ps = [] then in_sync m s else last ps = Packet_encodeData (update_of B m))"

lemma group_inv_iff:
  "group_inv B g \<longleftrightarrow>
     master_inv (g_master g) \<and> fits B (g_master g) \<and>
     length (g_slaves g) = length (conns (g_master g)) \<and> length (g_channels g) = length (conns (g_master g)) \<and>
     list_all (\<lambda>s. u_dir_tree s \<noteq> None) (g_slaves g) \<and>
     (\<forall>h. recognised h (g_master g) \<longrightarrow> slave_ok B (g_master g) (g_slaves g ! h) (under_way h g))"
  by (simp add: group_inv_def slave_ok_def)

lemma slave_ok_meta:
  "u_dir_tree m' = u_dir_tree m \<Longrightarrow> u_hosts m' = u_hosts m \<Longrightarrow> slave_ok B m' s ps = slave_ok B m s ps"
  by (simp add: slave_ok_def in_sync_def root_children_def update_of_def)

lemma slave_ok_told:
  assumes "told B m m'" and "recognised h m'" and "recognised h m \<Longrightarrow> slave_ok B m s (ch @ pending h m)"
  shows "slave_ok B m' s (ch @ pending h m')"
proof -
  consider "recognised h m" "u_dir_tree m' = u_dir_tree m" "u_hosts m' = u_hosts m" "pending h m' = pending h m"
    | pre where "pending h m' = pre @ [Packet_encodeData (update_of B m')]"
    using assms(1,2) unfolding told_def by blast
  then show ?thesis
  proof cases
    case 1
    then show ?thesis using assms(3) slave_ok_meta [of m' m B s] by simp
  next
    case 2
    then show ?thesis by (simp add: slave_ok_def)
  qed
qed

lemma inv_master_event:
  assumes "group_inv B g" and "polite ev (g_master g)" and "\<forall>ec. ev \<noteq> Accepted ec" and "\<forall>h n. ev \<noteq> Written h False n"
    and "master_handle B ev (g_master g) = Inr m" and "fits B m"
  shows "group_inv B (g\<lparr>g_master := m\<rparr>)"
proof -
  have inv: "master_inv (g_master g)" and ok: "\<And>h. recognised h (g_master g) \<Longrightarrow>
      slave_ok B (g_master g) (g_slaves g ! h) (g_channels g ! h @ pending h (g_master g))"
    using assms(1) by (simp_all add: group_inv_iff under_way_def)
  have told: "told B (g_master g) m" by (rule told_event [OF inv assms(2-5)])
  have "slave_ok B m (g_slaves g ! h) (g_channels g ! h @ pending h m)" if "recognised h m" for h
    using slave_ok_told [OF told that ok] .
  moreover have "master_inv m" by (rule master_handle_keeps_inv [OF inv assms(2,5)])
  ultimately show ?thesis
    using assms(1,6) told by (simp add: group_inv_iff under_way_def told_def)
qed

lemma inv_connect:
  assumes "group_inv B g" and "u_dir_tree s \<noteq> None" and "master_handle B (Accepted False) (g_master g) = Inr m"
  shows "group_inv B (g\<lparr>g_master := m, g_slaves := g_slaves g @ [s], g_channels := g_channels g @ [[]]\<rparr>)"
proof -
  have inv: "master_inv (g_master g)" using assms(1) by (simp add: group_inv_iff)
  obtain c where c: "conns m = conns (g_master g) @ [c]" "mc_slave_id c = 0" and m: "master_inv m"
    "u_dir_tree m = u_dir_tree (g_master g)" "u_hosts m = u_hosts (g_master g)" "posted m = posted (g_master g)"
    "u_max_host_id m = u_max_host_id (g_master g)"
    using accepted_effect [OF inv assms(3)] by blast
  have rec: "recognised h m \<longleftrightarrow> recognised h (g_master g)" for h
    using c by (auto simp: recognised_def nth_append)
  have "pending h m = pending h (g_master g)" if "recognised h (g_master g)" for h
    using that c m(4) by (simp add: pending_def recognised_def nth_append)
  then have "slave_ok B m ((g_slaves g @ [s]) ! h) ((g_channels g @ [[]]) ! h @ pending h m)"
    if "recognised h m" for h
    using that assms(1) rec slave_ok_meta [OF m(2,3)] by (simp add: group_inv_iff under_way_def nth_append recognised_def)
  then show ?thesis
    using assms(1,2) m c(1) by (simp add: group_inv_iff under_way_def fits_def)
qed

lemma inv_written:
  assumes "group_inv B g" and "h < length (conns (g_master g))" and "mc_queue (conns (g_master g) ! h) = p # ps"
    and "master_handle B (Written h False (unat (pkt_size p))) (g_master g) = Inr m"
  shows "group_inv B (g\<lparr>g_master := m, g_channels := (g_channels g)[h := g_channels g ! h @ [p]]\<rparr>)"
proof -
  have inv: "master_inv (g_master g)" using assms(1) by (simp add: group_inv_iff)
  have m: "master_inv m" "length (conns m) = length (conns (g_master g))" "u_dir_tree m = u_dir_tree (g_master g)"
    "u_hosts m = u_hosts (g_master g)" "u_max_host_id m = u_max_host_id (g_master g)"
    "\<And>k. recognised k m = recognised k (g_master g)"
    "\<And>k. k < length (conns (g_master g)) \<Longrightarrow> pending k (g_master g) = (if k = h then [p] else []) @ pending k m"
    using written_effect [OF inv assms(2-4)] by auto
  have "slave_ok B m (g_slaves g ! k) ((g_channels g)[h := g_channels g ! h @ [p]] ! k @ pending k m)"
    if "recognised k m" for k
  proof -
    have k: "k < length (g_channels g)" "k < length (conns (g_master g))"
      using that m(2) assms(1) by (simp_all add: recognised_def group_inv_iff)
    then have "(g_channels g)[h := g_channels g ! h @ [p]] ! k @ pending k m = under_way k g"
      by (simp add: under_way_def m(7) nth_list_update)
    then show ?thesis
      using that assms(1) m(6) slave_ok_meta [OF m(3,4)] by (simp add: group_inv_iff)
  qed
  then show ?thesis
    using assms(1) m(1-5) by (simp add: group_inv_iff under_way_def fits_def)
qed

text \<open>Reading the first of the packets under way.\<close>

lemma slave_ok_read:
  assumes "archive_lossless B" and "master_inv m" and "fits B m" and "u_dir_tree s \<noteq> None"
    and "TCPManager_read_slave B (Packet_received p) s = Inr s'" and "slave_ok B m s (p # qs)"
  shows "slave_ok B m s' qs"
proof (cases "qs = []")
  case True
  with assms(6) have "p = Packet_encodeData (update_of B m)" by (simp add: slave_ok_def)
  with read_update_syncs [OF assms(1-4)] assms(5) True show ?thesis by (simp add: slave_ok_def)
next
  case False
  with assms(6) show ?thesis by (simp add: slave_ok_def)
qed

lemma inv_received:
  assumes "archive_lossless B" and "group_inv B g" and "h < length (g_channels g)" and "g_channels g ! h = p # ps"
    and "TCPManager_read_slave B (Packet_received p) (g_slaves g ! h) = Inr s"
  shows "group_inv B (g\<lparr>g_slaves := (g_slaves g)[h := s], g_channels := (g_channels g)[h := ps]\<rparr>)"
proof -
  have inv: "master_inv (g_master g)" "fits B (g_master g)" and len: "h < length (g_slaves g)"
    and s0: "u_dir_tree (g_slaves g ! h) \<noteq> None"
    and ok: "\<And>k. recognised k (g_master g) \<Longrightarrow> slave_ok B (g_master g) (g_slaves g ! k) (under_way k g)"
    using assms(2,3) by (simp_all add: group_inv_iff list_all_length)
  have "slave_ok B (g_master g) ((g_slaves g)[h := s] ! k) ((g_channels g)[h := ps] ! k @ pending k (g_master g))"
    if rec: "recognised k (g_master g)" for k
  proof (cases "k = h")
    case True
    have "slave_ok B (g_master g) (g_slaves g ! h) (p # ps @ pending h (g_master g))"
      using ok [OF rec] True by (simp add: under_way_def assms(4))
    from slave_ok_read [OF assms(1) inv s0 assms(5) this] show ?thesis
      using True len assms(3) by simp
  next
    case False
    then show ?thesis using ok [OF rec] by (simp add: under_way_def)
  qed
  moreover have "u_dir_tree s \<noteq> None" by (rule read_slave_tree [OF assms(5) s0])
  then have "list_all (\<lambda>s. u_dir_tree s \<noteq> None) ((g_slaves g)[h := s])"
    using assms(2) by (intro list_all_update) (simp_all add: group_inv_iff)
  ultimately show ?thesis
    using assms(2) by (simp add: group_inv_iff under_way_def)
qed

lemma group_step_inv:
  assumes "archive_lossless B" and "group_inv B g" and "group_step B g g'"
  shows "group_inv B g'"
  using assms(3)
proof cases
  case (master_event ev m)
  show ?thesis unfolding master_event(1) by (rule inv_master_event [OF assms(2) master_event(2-6)])
next
  case (connect s m)
  show ?thesis unfolding connect(1) by (rule inv_connect [OF assms(2) connect(2,3)])
next
  case (written h p ps m)
  show ?thesis unfolding written(1) by (rule inv_written [OF assms(2) written(2-4)])
next
  case (received h p ps s)
  show ?thesis unfolding received(1) by (rule inv_received [OF assms(1,2) received(2-4)])
qed

subsection \<open>What is under way can be read\<close>

text \<open>
  Every packet that the master has queued, posted or written is a recognition or an update with the
  metadata of some state of a master, so a slave can read it. No closure that stops the service is
  posted while the program runs.
\<close>

definition valid_packet :: "boost_archive \<Rightarrow> Packet \<Rightarrow> bool" where
  "valid_packet B p \<longleftrightarrow>
     (\<exists>m i. master_inv m \<and> fits B m \<and> unat i < 2 ^ 48 \<and>
        (p = Packet_encodeData (update_of B m) \<or> p = Packet_encodeData (recognition_of B i m)))"

definition valid_post :: "boost_archive \<Rightarrow> master_post \<Rightarrow> bool" where
  "valid_post B x = (case x of PostWrite p \<Rightarrow> valid_packet B p | PostWriteTo p k \<Rightarrow> valid_packet B p | PostStop \<Rightarrow> False)"

definition valid_master :: "boost_archive \<Rightarrow> UserFS \<Rightarrow> bool" where
  "valid_master B fs \<longleftrightarrow> list_all (\<lambda>c. list_all (valid_packet B) (mc_queue c)) (conns fs) \<and> list_all (valid_post B) (posted fs)"

lemma valid_update: "master_inv m \<Longrightarrow> fits B m \<Longrightarrow> valid_packet B (Packet_encodeData (update_of B m))"
  unfolding valid_packet_def by (intro exI [of _ m] exI [of _ 0]) simp

lemma valid_recognition:
  "master_inv m \<Longrightarrow> fits B m \<Longrightarrow> unat i < 2 ^ 48 \<Longrightarrow> valid_packet B (Packet_encodeData (recognition_of B i m))"
  unfolding valid_packet_def by blast

lemma valid_set_conn:
  assumes "valid_master B fs" and "set (mc_queue c) \<subseteq> set (mc_queue (conns fs ! h)) \<or> mc_queue c = []"
  shows "valid_master B (set_conn h c fs)"
proof (cases "h < length (conns fs)")
  case True
  then have "conns fs ! h \<in> set (conns fs)" by simp
  with assms have "list_all (valid_packet B) (mc_queue c)"
    by (auto simp: valid_master_def list_all_iff)
  then show ?thesis
    using assms(1) by (simp add: valid_master_def list_all_update)
next
  case False
  with assms(1) show ?thesis by (simp add: valid_master_def list_update_beyond)
qed

lemma valid_close:
  assumes "master_inv fs" and "valid_master B fs" and "TCPMasterMessager_close B h fs = Inr fs'" and "fits B fs'"
  shows "valid_master B fs'"
proof -
  obtain r where r: "u_dir_tree fs = Some r" using master_inv_tree [OF assms(1)] by blast
  have role: "master_role fs" using assms(1) by (simp add: master_inv_def)
  have h: "h < length (conns fs)"
    using assms(3) by (simp add: TCPMasterMessager_close_def conn_at_eq master_roleD [OF role] split: if_splits)
  show ?thesis
  proof (cases "mc_open (conns fs ! h)")
    case True
    from close_implements_left [OF role r h True, of B] assms(3)
    have same: "same_but_posted (left h fs) fs'" and post: "\<exists>us. posted fs' = posted fs @ us \<and> set us \<subseteq> {PostWrite (Packet_encodeData (update_of B fs'))}"
      using same_but_posted_of(1) by auto
    have "valid_master B (set_conn h ((conn_close (conns fs ! h))\<lparr>mc_slave_id := 0\<rparr>) fs)"
      using assms(2) by (rule valid_set_conn) (simp add: conn_close_def)
    moreover have "valid_post B (PostWrite (Packet_encodeData (update_of B fs')))"
      using valid_update [OF close_keeps_inv [OF assms(1,3)] assms(4)] by (simp add: valid_post_def)
    ultimately show ?thesis
      using same post by (auto simp: valid_master_def same_but_posted_def list_all_iff)
  next
    case False
    from close_closed [OF role h False, of B] assms(2,3) show ?thesis by simp
  qed
qed

lemma valid_newConnection:
  assumes "master_inv fs" and "valid_master B fs" and "fresh_connection h fs"
    and "UserFS_newConnection B remote ts hs h fs = Inr fs'" and "fits B fs'"
  shows "valid_master B fs'"
proof -
  obtain r where r: "u_dir_tree fs = Some r" using master_inv_tree [OF assms(1)] by blast
  have role: "master_role fs" using assms(1) by (simp add: master_inv_def)
  have h: "h < length (conns fs)" and max: "unat (u_max_host_id fs) + 1 < 2 ^ 64"
    using assms(3) by (simp_all add: fresh_connection_def)
  obtain t host where t: "DirTree_deserialize B ts = Inr (Some t)" "Host_deserialize B hs = Inr host"
    by (rule newConnection_cases [OF assms(1) h assms(4)])
  from newConnection_implements_joined [OF role r h t, of remote] assms(4)
  have same: "same_but_posted (joined remote t host h fs) fs'"
    and post: "posted fs' = posted fs @ [PostWriteTo (Packet_encodeData (recognition_of B (u_max_host_id fs) fs')) h,
       PostWrite (Packet_encodeData (update_of B fs'))]"
    using same_but_posted_of by auto
  have inv: "master_inv fs'" by (rule newConnection_keeps_inv [OF assms(1,3,4)])
  have "unat (u_max_host_id fs) < 2 ^ 48"
    using assms(5) same unat_Suc_max [OF max] by (simp add: fits_def same_but_posted_def)
  then have "valid_post B (PostWriteTo (Packet_encodeData (recognition_of B (u_max_host_id fs) fs')) h)"
    "valid_post B (PostWrite (Packet_encodeData (update_of B fs')))"
    using valid_recognition [OF inv assms(5)] valid_update [OF inv assms(5)] by (simp_all add: valid_post_def)
  moreover have "valid_master B (set_conn h ((conns fs ! h)\<lparr>mc_slave_id := u_max_host_id fs\<rparr>) fs)"
    using assms(2) by (rule valid_set_conn) simp
  ultimately show ?thesis
    using same post by (simp add: valid_master_def same_but_posted_def)
qed

lemma valid_read_master:
  assumes "master_inv fs" and "valid_master B fs" and "is_hello (pkt_data p) \<longrightarrow> fresh_connection h fs"
    and "TCPManager_read_master B remote p h fs = Inr fs'" and "fits B fs'"
  shows "valid_master B fs'"
proof (cases "is_hello (pkt_data p)")
  case True
  then obtain rest where rd: "read_u64 (c_str (pkt_data p)) = Inr (0, rest)"
    by (auto simp: is_hello_def split: sum.splits)
  then obtain ts hs where "UserFS_newConnection B remote ts hs h fs = Inr fs'"
    using assms(4) by (auto simp: TCPManager_read_master_def res_bind_eq_Inr)
  then show ?thesis using valid_newConnection [OF assms(1,2)] assms(3,5) True by blast
next
  case False
  then have "fs' = fs" using assms(4)
    by (auto simp: TCPManager_read_master_def is_hello_def res_bind_eq_Inr split: sum.splits if_splits)
  then show ?thesis using assms(2) by simp
qed

lemma fits_set_conn [simp]: "fits B (set_conn h c fs) = fits B fs"
  by (simp add: fits_def)

lemma valid_body:
  assumes "master_inv fs" and "valid_master B fs" and "\<not> ec \<and> is_hello data \<longrightarrow> fresh_connection h fs"
    and "master_body_handler B h ec data remote fs = Inr fs'" and "fits B fs'"
  shows "valid_master B fs'"
proof -
  let ?c = "(conns fs ! h)\<lparr>mc_buffer := fill data (mc_buffer (conns fs ! h)), mc_read := NoRead\<rparr>"
  have at: "conn_at h fs = Inr (conns fs ! h)" and h: "h < length (conns fs)"
    using assms by (auto simp: master_body_handler_def res_bind_eq_Inr conn_at_Inr)
  show ?thesis
  proof (cases "\<not> ec \<and> length data = unat (pkt_size (mc_packet (conns fs ! h)))")
    case True
    let ?p = "(mc_packet ?c)\<lparr>pkt_data := data\<rparr>"
    let ?fs = "set_conn h (?c\<lparr>mc_packet := ?p\<rparr>) fs"
    obtain fs1 c c' where rd: "TCPManager_read_master B remote ?p h ?fs = Inr fs1"
      and c: "conn_at h fs1 = Inr c" "conn_do_read_header c = Inr c'" and fs': "fs' = set_conn h c' fs1"
      using assms(4) True unfolding master_body_handler_def at
      by (simp add: Let_def setData_fill_iff res_bind_eq_Inr) blast
    have inv: "master_inv ?fs" using assms(1) by (intro set_conn_keeps_inv) simp_all
    have fresh: "is_hello (pkt_data ?p) \<longrightarrow> fresh_connection h ?fs"
      using assms(3) True h by (simp add: fresh_connection_def)
    have "valid_master B ?fs" using assms(2) by (rule valid_set_conn) simp
    then have "valid_master B fs1"
      using assms(5) fs' by (intro valid_read_master [OF inv _ fresh rd]) simp_all
    moreover have "c = conns fs1 ! h" using c(1) read_master_keeps_inv [OF inv fresh rd] by (simp add: conn_at_Inr)
    ultimately show ?thesis
      unfolding fs' using do_read_queue(1) [OF c(2)] by (intro valid_set_conn) simp_all
  next
    case False
    then have "TCPMasterMessager_close B h (set_conn h ?c fs) = Inr fs'"
      using assms(4) by (auto simp: master_body_handler_def at Let_def split: if_splits)
    moreover have "valid_master B (set_conn h ?c fs)" "master_inv (set_conn h ?c fs)"
      using assms(1,2) by (auto intro!: valid_set_conn set_conn_keeps_inv)
    ultimately show ?thesis using assms(5) by (blast intro: valid_close)
  qed
qed

lemma valid_header:
  assumes "master_inv fs" and "valid_master B fs" and "master_header_handler B h ec data fs = Inr fs'" and "fits B fs'"
  shows "valid_master B fs'"
proof -
  let ?c = "(conns fs ! h)\<lparr>mc_buffer := fill data (mc_buffer (conns fs ! h)), mc_read := NoRead\<rparr>"
  have at: "conn_at h fs = Inr (conns fs ! h)"
    using assms by (auto simp: master_header_handler_def res_bind_eq_Inr conn_at_Inr)
  show ?thesis
  proof (cases "\<not> ec \<and> length data = Packet_sizeLength")
    case True
    then obtain p c where c: "conn_do_read_body (?c\<lparr>mc_packet := p\<rparr>) = Inr c" "fs' = set_conn h c fs"
      using assms(3) by (auto simp: master_header_handler_def at Let_def res_bind_eq_Inr)
    then show ?thesis using assms(2) do_read_queue(2) [OF c(1)] by (auto intro!: valid_set_conn)
  next
    case False
    then have "TCPMasterMessager_close B h (set_conn h ?c fs) = Inr fs'"
      using assms(3) by (auto simp: master_header_handler_def at Let_def split: if_splits)
    moreover have "valid_master B (set_conn h ?c fs)" "master_inv (set_conn h ?c fs)"
      using assms(1,2) by (auto intro!: valid_set_conn set_conn_keeps_inv)
    ultimately show ?thesis using assms(4) by (blast intro: valid_close)
  qed
qed

lemma valid_write_error:
  assumes "master_inv fs" and "valid_master B fs" and "master_write_handler B h True n fs = Inr fs'" and "fits B fs'"
  shows "valid_master B fs'"
proof -
  let ?fs = "set_conn h ((conns fs ! h)\<lparr>mc_writing := False\<rparr>) fs"
  have "TCPMasterMessager_close B h ?fs = Inr fs'"
    using assms by (auto simp: master_write_handler_def res_bind_eq_Inr conn_at_Inr)
  moreover have "valid_master B ?fs" "master_inv ?fs"
    using assms(1,2) by (auto intro!: valid_set_conn set_conn_keeps_inv)
  ultimately show ?thesis using assms(4) by (blast intro: valid_close)
qed

lemma valid_run_post:
  assumes "valid_master B fs" and "run_master (\<lambda>m. Inr (master_run_post m)) fs = Inr fs'"
  shows "valid_master B fs'"
proof -
  obtain m where m: "tm_master (u_tcp_manager fs) = Some m"
    and fs': "fs' = fs\<lparr>u_tcp_manager := (u_tcp_manager fs)\<lparr>tm_master := Some (master_run_post m)\<rparr>\<rparr>"
    using assms(2) by (auto simp: run_master_def res_bind_eq_Inr)
  have cs: "conns fs = mm_connections m" "posted fs = mm_posted m" "conns fs' = mm_connections (master_run_post m)"
    "posted fs' = mm_posted (master_run_post m)"
    by (simp_all add: conns_def posted_def m fs')
  have conns: "list_all (\<lambda>c. list_all (valid_packet B) (mc_queue c)) (mm_connections m)"
    using assms(1) by (simp add: valid_master_def cs)
  show ?thesis
  proof (cases "mm_posted m")
    case Nil
    with assms(1) show ?thesis by (simp add: valid_master_def cs master_run_post_def)
  next
    case (Cons x ps)
    with assms(1) have x: "valid_post B x" and ps: "list_all (valid_post B) ps"
      by (simp_all add: valid_master_def cs)
    show ?thesis
    proof (cases x)
      case (PostWrite p)
      with conns x ps Cons show ?thesis
        by (auto simp: valid_master_def cs master_run_post_def run_write_def valid_post_def list_all_iff)
    next
      case (PostWriteTo p h)
      have "list_all (valid_packet B) (mc_queue (conn_enqueue p (mm_connections m ! h)))" if "h < length (mm_connections m)"
        using conns x PostWriteTo nth_mem [OF that] by (auto simp: list_all_iff valid_post_def)
      with conns ps Cons PostWriteTo show ?thesis
        by (simp add: valid_master_def cs master_run_post_def run_writeTo_def list_all_update)
    next
      case PostStop
      with x show ?thesis by (simp add: valid_post_def)
    qed
  qed
qed

lemma valid_event:
  assumes "master_inv fs" and "valid_master B fs" and "polite ev fs" and "\<forall>ec. ev \<noteq> Accepted ec" and "\<forall>h n. ev \<noteq> Written h False n"
    and "master_handle B ev fs = Inr fs'" and "fits B fs'"
  shows "valid_master B fs'"
proof (cases ev)
  case (Written h ec n)
  with assms show ?thesis by (cases ec) (auto intro: valid_write_error)
next
  case (BodyRead h ec data remote)
  with assms show ?thesis by (auto simp: polite_def intro: valid_body)
qed (use assms in \<open>auto intro: valid_header valid_run_post\<close>)

definition group_valid :: "boost_archive \<Rightarrow> group \<Rightarrow> bool" where
  "group_valid B g \<longleftrightarrow> valid_master B (g_master g) \<and> list_all (list_all (valid_packet B)) (g_channels g)"

lemma valid_written:
  assumes "master_inv fs" and "valid_master B fs" and "h < length (conns fs)" and "mc_queue (conns fs ! h) = p # ps"
    and "master_handle B (Written h False (unat (pkt_size p))) fs = Inr fs'"
  shows "valid_master B fs' \<and> valid_packet B p"
proof -
  have "fs' = set_conn h (conn_write_finished (conns fs ! h)) fs"
    using assms by (auto simp: master_write_handler_def conn_at_eq master_inv_def master_roleD)
  moreover have "mc_queue (conn_write_finished (conns fs ! h)) = ps"
    using assms(4) master_queue.queue_finish [of "conns fs ! h"] by simp
  ultimately have "valid_master B fs'" using assms(2,4) by (auto intro!: valid_set_conn)
  moreover have "valid_packet B p"
    using assms(2,4) nth_mem [OF assms(3)] by (auto simp: valid_master_def list_all_iff)
  ultimately show ?thesis ..
qed

lemma group_step_valid:
  assumes "group_inv B g" and "group_valid B g" and "group_step B g g'"
  shows "group_valid B g'"
  using assms(3)
proof cases
  case (master_event ev m)
  then show ?thesis using assms(1,2) valid_event [of "g_master g" B ev m] by (simp add: group_inv_def group_valid_def)
next
  case (connect s m)
  then show ?thesis
    using assms(1,2) accepted_effect [of "g_master g" B m] by (auto simp: group_inv_def group_valid_def valid_master_def)
next
  case (written h p ps m)
  have "valid_master B m \<and> valid_packet B p"
    using assms(1,2) written by (intro valid_written) (simp_all add: group_inv_def group_valid_def)
  moreover have "h < length (g_channels g)" using assms(1) written(2) by (simp add: group_inv_def)
  then have "list_all (valid_packet B) (g_channels g ! h)"
    using assms(2) by (simp add: group_valid_def list_all_length [of "list_all (valid_packet B)"])
  ultimately show ?thesis
    using assms(2) written(1) by (simp add: group_valid_def list_all_update)
next
  case (received h p ps s)
  then have "list_all (valid_packet B) (p # ps)"
    using assms(2) by (metis group_valid_def list_all_length)
  then show ?thesis
    using assms(2) received(1) by (simp add: group_valid_def list_all_update)
qed

lemma valid_packet_read:
  assumes "archive_lossless B" and "valid_packet B p" and "u_dir_tree s \<noteq> None"
  shows "\<exists>s'. TCPManager_read_slave B (Packet_received p) s = Inr s'"
proof -
  obtain m i where m: "master_inv m" "fits B m" "unat i < 2 ^ 48"
    and p: "p = Packet_encodeData (update_of B m) \<or> p = Packet_encodeData (recognition_of B i m)"
    using assms(2) unfolding valid_packet_def by blast
  obtain r rs where r: "u_dir_tree m = Some r" "u_dir_tree s = Some rs"
    using master_inv_tree [OF m(1)] assms(3) by auto
  have wf: "wf_tree (Some r)" using m(1) r by (simp add: master_inv_def tree_inv_def)
  have len: "length (DirTree_serialize B (Some r)) < 2 ^ 48" "length (Hosts_serialize B (u_hosts m)) < 2 ^ 48"
    using m(2) r by (simp_all add: fits_def)
  show ?thesis
    using p
  proof
    assume "p = Packet_encodeData (update_of B m)"
    then show ?thesis
      using read_update [OF len, of "Packet_received p" B s] updateInfo_ok [OF assms(1) wf r(2)]
      by (simp add: received_encode update_of_def r)
  next
    assume "p = Packet_encodeData (recognition_of B i m)"
    then show ?thesis
      using read_recognition [OF len wire_safe_small [OF m(3)], of "Packet_received p" B s] slaveRecognized_ok [OF assms(1) wf r(2)]
      by (simp add: received_encode recognition_of_def r)
  qed
qed

text \<open>The next posted closure can always run.\<close>

lemma run_post_effect:
  assumes "master_inv fs"
  shows "\<exists>fs'. master_handle B RunPost fs = Inr fs' \<and> u_dir_tree fs' = u_dir_tree fs \<and> u_hosts fs' = u_hosts fs \<and>
    u_max_host_id fs' = u_max_host_id fs \<and> posted fs' = tl (posted fs) \<and> (\<forall>h. recognised h fs' = recognised h fs) \<and>
    (\<forall>h. length (mc_queue (conns fs' ! h)) \<le> Suc (length (mc_queue (conns fs ! h))) \<or> length (conns fs) \<le> h)"
proof -
  obtain m where m: "tm_master (u_tcp_manager fs) = Some m"
    using assms by (auto simp: master_inv_def master_role_def)
  let ?fs' = "fs\<lparr>u_tcp_manager := (u_tcp_manager fs)\<lparr>tm_master := Some (master_run_post m)\<rparr>\<rparr>"
  have cs: "conns fs = mm_connections m" "posted fs = mm_posted m" "conns ?fs' = mm_connections (master_run_post m)"
    "posted ?fs' = mm_posted (master_run_post m)"
    by (simp_all add: conns_def posted_def m)
  have "map mc_slave_id (conns ?fs') = map mc_slave_id (conns fs)"
    using arg_cong [OF run_post_conns [of m], of "map fst"] by (simp add: cs comp_def)
  then have "recognised h ?fs' = recognised h fs" for h
    unfolding recognised_def by (metis length_map nth_map)
  moreover have "posted ?fs' = tl (posted fs)"
    unfolding cs by (simp add: master_run_post_def run_write_def run_writeTo_def split: list.split master_post.split)
  moreover have "length (mc_queue (conns ?fs' ! h)) \<le> Suc (length (mc_queue (conns fs ! h))) \<or> length (conns fs) \<le> h" for h
    unfolding cs by (auto simp: master_run_post_def run_write_def run_writeTo_def nth_list_update not_le
        split: list.split master_post.split)
  ultimately show ?thesis
    by (simp add: run_master_def m)
qed

definition work :: "nat \<Rightarrow> group \<Rightarrow> nat" where
  "work h g = 3 * length (posted (g_master g)) + 2 * length (mc_queue (conns (g_master g) ! h)) + length (g_channels g ! h)"

definition same_view :: "UserFS \<Rightarrow> UserFS \<Rightarrow> bool" where
  "same_view m m' \<longleftrightarrow> u_dir_tree m' = u_dir_tree m \<and> u_hosts m' = u_hosts m"

lemma settle_post:
  assumes "group_inv B g" and "recognised h (g_master g)" and "posted (g_master g) \<noteq> []"
  shows "\<exists>g'. group_step B g g' \<and> work h g' < work h g \<and> recognised h (g_master g') \<and> same_view (g_master g) (g_master g')"
proof -
  have inv: "master_inv (g_master g)" "fits B (g_master g)" using assms(1) by (simp_all add: group_inv_def)
  obtain m where m: "master_handle B RunPost (g_master g) = Inr m" "u_dir_tree m = u_dir_tree (g_master g)"
    "u_hosts m = u_hosts (g_master g)" "u_max_host_id m = u_max_host_id (g_master g)"
    "posted m = tl (posted (g_master g))" "recognised h m"
    "length (mc_queue (conns m ! h)) \<le> Suc (length (mc_queue (conns (g_master g) ! h)))"
    using run_post_effect [OF inv(1), of B] assms(2) by (force simp: recognised_def)
  have "fits B m" using inv(2) m by (simp add: fits_def)
  then have "group_step B g (g\<lparr>g_master := m\<rparr>)"
    using m(1) by (intro group_step.master_event [of RunPost]) (simp_all add: polite_def)
  moreover have "work h (g\<lparr>g_master := m\<rparr>) < work h g"
    using m(5,7) assms(3) by (cases "posted (g_master g)") (simp_all add: work_def)
  ultimately show ?thesis
    using m by (intro exI [of _ "g\<lparr>g_master := m\<rparr>"]) (simp add: same_view_def)
qed

lemma settle_write:
  assumes "group_inv B g" and "recognised h (g_master g)" and "mc_queue (conns (g_master g) ! h) = p # ps"
  shows "\<exists>g'. group_step B g g' \<and> work h g' < work h g \<and> recognised h (g_master g') \<and> same_view (g_master g) (g_master g')"
proof -
  have inv: "master_inv (g_master g)" using assms(1) by (simp add: group_inv_def)
  have h: "h < length (conns (g_master g))" "h < length (g_channels g)"
    using assms(1,2) by (simp_all add: recognised_def group_inv_def)
  let ?m = "set_conn h (conn_write_finished (conns (g_master g) ! h)) (g_master g)"
  have ev: "master_handle B (Written h False (unat (pkt_size p))) (g_master g) = Inr ?m"
    using assms(3) h inv by (simp add: master_write_handler_def conn_at_eq master_inv_def master_roleD)
  note e = written_effect [OF inv h(1) assms(3) ev]
  have q: "mc_queue (conn_write_finished (conns (g_master g) ! h)) = ps"
    using assms(3) master_queue.queue_finish [of "conns (g_master g) ! h"] by simp
  let ?g = "g\<lparr>g_master := ?m, g_channels := (g_channels g)[h := g_channels g ! h @ [p]]\<rparr>"
  have "group_step B g ?g" using h(1) assms(3) ev by (rule group_step.written)
  moreover have "work h ?g < work h g" using h assms(3) q by (simp add: work_def)
  ultimately show ?thesis
    using e assms(2) by (intro exI [of _ ?g]) (simp add: same_view_def)
qed

lemma settle_read:
  assumes "archive_lossless B" and "group_inv B g" and "group_valid B g" and "recognised h (g_master g)"
    and "g_channels g ! h = p # ps"
  shows "\<exists>g'. group_step B g g' \<and> work h g' < work h g \<and> recognised h (g_master g') \<and> same_view (g_master g) (g_master g')"
proof -
  have h: "h < length (g_channels g)" "h < length (g_slaves g)"
    using assms(2,4) by (simp_all add: recognised_def group_inv_def)
  then have "valid_packet B p" "u_dir_tree (g_slaves g ! h) \<noteq> None"
    using assms(2,3,5) nth_mem [OF h(1)] by (auto simp: group_valid_def group_inv_def list_all_iff list_all_length)
  then obtain s where "TCPManager_read_slave B (Packet_received p) (g_slaves g ! h) = Inr s"
    using valid_packet_read [OF assms(1)] by blast
  from group_step.received [OF h(1) assms(5) this] assms(4,5) h show ?thesis
    by (intro exI [of _ "g\<lparr>g_slaves := (g_slaves g)[h := s], g_channels := (g_channels g)[h := ps]\<rparr>"])
      (simp add: work_def same_view_def)
qed

lemma reachable_step: "group_step B g g' \<Longrightarrow> group_reachable B g' g'' \<Longrightarrow> group_reachable B g g''"
  by (rotate_tac, induction rule: group_reachable.induct) (blast intro: group_reachable.intros)+

lemma settles:
  assumes "archive_lossless B" and "group_inv B g" and "group_valid B g" and "recognised h (g_master g)"
  shows "\<exists>g'. group_reachable B g g' \<and> under_way h g' = [] \<and> recognised h (g_master g') \<and> same_view (g_master g) (g_master g')"
  using assms(2-4)
proof (induction "work h g" arbitrary: g rule: less_induct)
  case less
  show ?case
  proof (cases "posted (g_master g) = [] \<and> mc_queue (conns (g_master g) ! h) = [] \<and> g_channels g ! h = []")
    case True
    then show ?thesis
      using less.prems by (intro exI [of _ g]) (simp add: group_start under_way_def pending_def same_view_def)
  next
    case False
    then obtain g1 where g1: "group_step B g g1" "work h g1 < work h g" "recognised h (g_master g1)"
      "same_view (g_master g) (g_master g1)"
      using settle_post [OF less.prems(1,3)] settle_write [OF less.prems(1,3)] settle_read [OF assms(1) less.prems]
      by (metis neq_Nil_conv)
    obtain g2 where g2: "group_reachable B g1 g2" "under_way h g2 = []" "recognised h (g_master g2)"
      "same_view (g_master g1) (g_master g2)"
      using less.hyps [OF g1(2) group_step_inv [OF assms(1) less.prems(1) g1(1)]
          group_step_valid [OF less.prems(1,2) g1(1)] g1(3)] by blast
    then show ?thesis
      using reachable_step [OF g1(1) g2(1)] g1(4) by (auto simp: same_view_def)
  qed
qed

subsection \<open>Starting a group\<close>

definition group_initial :: "boost_archive \<Rightarrow> group \<Rightarrow> bool" where
  "group_initial B g \<longleftrightarrow>
     master_inv (g_master g) \<and> fits B (g_master g) \<and> conns (g_master g) = [] \<and> posted (g_master g) = [] \<and>
     g_slaves g = [] \<and> g_channels g = []"

lemma group_initial_inv: "group_initial B g \<Longrightarrow> group_inv B g \<and> group_valid B g"
  by (simp add: group_initial_def group_inv_def recognised_def group_valid_def valid_master_def)

lemma group_reachable_valid:
  assumes "archive_lossless B" and "group_reachable B g0 g" and "group_initial B g0"
  shows "group_inv B g \<and> group_valid B g"
  using assms(2) group_initial_inv [OF assms(3)]
  by (induction rule: group_reachable.induct) (blast intro: group_step_inv [OF assms(1)] group_step_valid)+

lemma quiet_agrees:
  "group_inv B g \<Longrightarrow> recognised h (g_master g) \<Longrightarrow> under_way h g = [] \<Longrightarrow>
     root_children (g_slaves g ! h) = root_children (g_master g) \<and> u_hosts (g_slaves g ! h) = u_hosts (g_master g)"
  by (auto simp: group_inv_iff slave_ok_def in_sync_def split: if_splits)

lemma master_start_conns:
  assumes "u_host_id fs = 1"
    and "UserFS_initTCPNetwork B resolve listen_error addr port fs = Inr (False, fs')"
  shows "conns fs' = [] \<and> posted fs' = []"
  using assms
  by (auto simp: UserFS_initTCPNetwork_def TCPManager_initialize_def TCPManager_start_def TCPMasterMessager_init_def
      TCPMasterMessager_start_def TCPMasterMessager_new_def UserFS_pushMaster_def res_bind_eq_Inr conns_def posted_def Let_def
      split: prod.splits if_splits list.splits)

lemma group_initial_start:
  assumes "UserFS_initDirTree absolute junk now nl es wd (UserFS_setMaster UserFS_new) = Inr fs0"
    and "UserFS_initTCPNetwork B resolve listen_error addr port (UserFS_initHost addr tcp_port ssh_port fs0) = Inr (False, fs)"
    and "fits B fs"
  shows "group_initial B \<lparr>g_master = fs, g_slaves = [], g_channels = []\<rparr>"
proof -
  have "u_host_id fs0 = 1"
    by (rule initDirTree_ok [OF assms(1)]) (simp add: UserFS_setMaster_def)
  then have "conns fs = [] \<and> posted fs = []"
    by (intro master_start_conns [OF _ assms(2)]) (simp add: UserFS_initHost_def)
  with master_start [OF assms(1,2)] assms(3) show ?thesis by (simp add: group_initial_def)
qed

text \<open>A small group: a master, one slave that has joined.\<close>

definition sample_group :: group where
  "sample_group = \<lparr>g_master = sample_master [], g_slaves = [], g_channels = []\<rparr>"

lemma sample_group_initial: "group_initial tagged_archive sample_group"
proof -
  have "master_inv (sample_master [])"
    using sample_master_inv
    by (simp add: master_inv_def master_role_def tree_inv_def hosts_inv_def conns_inv_def slave_ids_def conns_def
        root_children_def sample_master_def sample_scan_def sample_defs wf_tree_def uniform_def owned_by_def)
  moreover have "u_dir_tree (sample_master []) = u_dir_tree (sample_master [conn_new])"
    by (simp add: sample_master_def)
  ultimately show ?thesis
    using sample_sizes(2,3)
    by (simp add: group_initial_def sample_group_def fits_def) (simp add: sample_master_def posted_def TCPMasterMessager_new_def)
qed

lemma sample_joined_fits:
  assumes "u_dir_tree fs = u_dir_tree (sample_master [])" and "u_hosts fs = u_hosts (sample_master [])"
    and "u_max_host_id fs = 2"
    and "u_dir_tree m = u_dir_tree (joined ''10.0.0.7'' standby_tree (sample_host 0) h fs)"
    and "u_hosts m = u_hosts (joined ''10.0.0.7'' standby_tree (sample_host 0) h fs)" and "u_max_host_id m = 3"
  shows "fits tagged_archive m" and "length (update_of tagged_archive m) + 8 < 2 ^ 48"
proof -
  have t: "tn_children (setHostID 2 standby_tree) = [sample_file 2 ''master_file1'', sample_file 2 ''standby1_file1'']"
    by (simp add: sample_defs with_host_TreeNode)
  have "u_dir_tree m = Some (sample_dir 1 [] (TreeNode DIRECTORY 0 0 0 0 6 0 1 2 ''a''
        [TreeNode REGULAR 7 0 0 0 8 0 1 1 ''c.txt'' []] # TreeNode REGULAR 22 0 0 0 5 0 1 1 ''b.txt'' [] #
        tn_children (setHostID 2 standby_tree)))"
    unfolding assms(4) joined_sel assms(1,3) t
    by (simp add: sample_master_def sample_scan_def merge_loop_def TreeNode_less_def sample_defs with_children_def)
  moreover have "u_hosts m = [sample_host 1, sample_host 1, (sample_host 0)\<lparr>h_address := ''10.0.0.7'', h_id := 2\<rparr>]"
    using assms(2,3,5) by simp
  ultimately show "fits tagged_archive m" "length (update_of tagged_archive m) + 8 < 2 ^ 48"
    using assms(6)
    by (simp_all add: fits_def update_of_def length_update_message t del: setHostID_sel) (simp_all add: sample_save)
qed

lemma group_step_master:
  assumes "group_reachable B g0 g" and "polite ev (g_master g)" and "\<forall>ec. ev \<noteq> Accepted ec"
    and "\<forall>h n. ev \<noteq> Written h False n" and "master_handle B ev (g_master g) = Inr m" and "fits B m"
  shows "group_reachable B g0 (g\<lparr>g_master := m\<rparr>)"
  by (rule group_next [OF assms(1) group_step.master_event [OF assms(2-6)]])

lemma sample_group_joins:
  "\<exists>g. group_reachable tagged_archive sample_group g \<and> recognised 0 (g_master g)"
proof -
  let ?B = tagged_archive and ?m0 = "sample_master []"
  let ?ts = "DirTree_serialize ?B (Some standby_tree)" and ?hs = "Host_serialize ?B (sample_host 0)"
  let ?msg = "hello_message ?ts ?hs"
  have inv0: "master_inv ?m0" and fits0: "fits ?B ?m0"
    using sample_group_initial by (simp_all add: group_initial_def sample_group_def)
  obtain m1 where m1: "master_handle ?B (Accepted False) ?m0 = Inr m1" "u_max_host_id m1 = 2" "fresh_connection 0 m1"
    by (auto simp: run_master_def sample_master_def master_accept_def do_new_connection_def conn_do_read_header_def
        vec_resize_def Packet_sizeLength_def fresh_connection_def conns_def sample_scan_def UserFS_new_def
        TCPMasterMessager_new_def conn_new_def)
  have e1: "master_inv m1" "u_dir_tree m1 = u_dir_tree ?m0" "u_hosts m1 = u_hosts ?m0" "0 < length (conns m1)"
    using accepted_effect [OF inv0 m1(1)] by auto
  let ?g1 = "sample_group\<lparr>g_master := m1, g_slaves := [sample_scan 0], g_channels := [[]]\<rparr>"
  have g1: "group_reachable ?B sample_group ?g1"
    using group_step.connect [of "sample_scan 0" ?B sample_group m1] m1(1)
    by (intro group_next [OF group_start]) (simp_all add: sample_group_def sample_scan_def)
  have at: "conn_at 0 m1 = Inr (conns m1 ! 0)" using e1 by (simp add: conn_at_Inr)
  obtain b where hdr: "master_header_handler ?B 0 False (host_to_network_64 (of_nat (length ?msg))) m1 =
      Inr (set_conn 0 ((conns m1 ! 0)\<lparr>mc_packet := (mc_packet (conns m1 ! 0))\<lparr>pkt_size := of_nat (length ?msg)\<rparr>,
        mc_buffer := b, mc_read := ReadBody\<rparr>) m1)" (is "_ = Inr ?m2")
    using header_handler_ok [OF at sample_sizes(1), of ?B] by blast
  have fits2: "fits ?B ?m2" using fits0 e1 m1(2) by (simp add: fits_def)
  have g2: "group_reachable ?B sample_group (?g1\<lparr>g_master := ?m2\<rparr>)"
    using hdr fits2 by (intro group_step_master [OF g1, of "HeaderRead 0 False (host_to_network_64 (of_nat (length ?msg)))"])
      (simp_all add: polite_def)
  have fresh2: "fresh_connection 0 ?m2" and inv2: "master_inv ?m2"
    using m1(3) e1 by (auto simp: fresh_connection_def intro!: set_conn_keeps_inv)
  obtain r where r: "u_dir_tree ?m2 = Some r" using master_inv_tree [OF inv2] by blast
  obtain m3 where m3: "master_body_handler ?B 0 False ?msg ''10.0.0.7'' ?m2 = Inr m3" "mc_slave_id (conns m3 ! 0) = 2"
    "u_dir_tree m3 = u_dir_tree (joined ''10.0.0.7'' standby_tree (sample_host 0) 0 ?m2)"
    "u_hosts m3 = u_hosts (joined ''10.0.0.7'' standby_tree (sample_host 0) 0 ?m2)" "u_max_host_id m3 = 3"
    using body_handler_hello [OF inv2 fresh2 r, of ?ts ?hs ?B standby_tree "sample_host 0" "''10.0.0.7''"]
      sample_sizes(1) sample_hello m1(2) e1(4) by (auto simp: unat_of_nat_small)
  have "fits ?B m3" using m1(2) e1 by (intro sample_joined_fits(1) [OF _ _ _ m3(3-5)]) simp_all
  then have "group_reachable ?B sample_group (?g1\<lparr>g_master := ?m2\<rparr>\<lparr>g_master := m3\<rparr>)"
    using m3(1) fresh2 by (intro group_step_master [OF g2, of "BodyRead 0 False ?msg ''10.0.0.7''"]) (simp_all add: polite_def)
  moreover have "told ?B ?m2 m3" using fresh2 by (intro told_body [OF inv2 _ m3(1)]) simp
  then have "recognised 0 m3" using m3(2) e1(4) by (simp add: recognised_def told_def)
  ultimately show ?thesis by force
qed

subsection \<open>Properties\<close>

text \<open>
  The group agrees. From the start of a master, through any sequence of events of the master,
  new connections, completed writes and packets read by slaves: for every recognised slave, if no
  packet is under way to it, its tree has below the root what the master's has and its hosts are the
  master's; and if packets are under way, the last of them is an update with the master's current
  tree and hosts, so that reading what is under way leads to agreement.
\<close>

theorem group_agrees:
  assumes "archive_lossless B" and "group_initial B g0" and "group_reachable B g0 g" and "recognised h (g_master g)"
  shows "if under_way h g = []
         then root_children (g_slaves g ! h) = root_children (g_master g) \<and> u_hosts (g_slaves g ! h) = u_hosts (g_master g)
         else last (under_way h g) = Packet_encodeData (update_of B (g_master g))"
  using group_reachable_valid [OF assms(1,3,2)] assms(4) quiet_agrees [of B g h]
  by (auto simp: group_inv_iff slave_ok_def split: if_splits)

theorem group_agrees_witness:
  "\<exists>g. group_reachable tagged_archive sample_group g \<and> recognised 0 (g_master g) \<and>
     (if under_way 0 g = []
      then root_children (g_slaves g ! 0) = root_children (g_master g) \<and> u_hosts (g_slaves g ! 0) = u_hosts (g_master g)
      else last (under_way 0 g) = Packet_encodeData (update_of tagged_archive (g_master g)))"
  using sample_group_joins group_agrees [OF archive_lossless_tagged sample_group_initial] by blast

text \<open>
  A group can always settle. From every state that a group can get into, and for every recognised
  slave, running the posted closures, completing the writes and reading the packets is possible, ends,
  and leads to a state in which nothing is under way to this slave and its tree and hosts are those
  that the master has and had all along. In particular every packet under way can be read.
\<close>

theorem group_settles:
  assumes "archive_lossless B" and "group_initial B g0" and "group_reachable B g0 g" and "recognised h (g_master g)"
  shows "\<exists>g'. group_reachable B g g' \<and> under_way h g' = [] \<and> recognised h (g_master g') \<and>
           root_children (g_slaves g' ! h) = root_children (g_master g) \<and> u_hosts (g_slaves g' ! h) = u_hosts (g_master g)"
proof -
  have inv: "group_inv B g" "group_valid B g" using group_reachable_valid [OF assms(1,3,2)] by simp_all
  obtain g' where g': "group_reachable B g g'" "under_way h g' = []" "recognised h (g_master g')"
    and view: "same_view (g_master g) (g_master g')"
    using settles [OF assms(1) inv assms(4)] by blast
  have "group_inv B g'"
    using g'(1) inv(1) by (induction rule: group_reachable.induct) (blast intro: group_step_inv [OF assms(1)])+
  from quiet_agrees [OF this g'(3,2)] g' view show ?thesis
    by (auto simp: same_view_def root_children_def)
qed

theorem group_settles_witness:
  "\<exists>g g'. group_reachable tagged_archive sample_group g \<and> recognised 0 (g_master g) \<and>
     group_reachable tagged_archive g g' \<and> under_way 0 g' = [] \<and>
     root_children (g_slaves g' ! 0) = root_children (g_master g)"
  using sample_group_joins group_settles [OF archive_lossless_tagged sample_group_initial] by blast

end
