(* ===== verification/Network.thy ===== *)
theory Network
  imports Group Event_System
begin

section \<open>The network: nodes, sockets and octets under way\<close>

text \<open>
  The nodes with what lies between them, octet by octet. A link is a slave and the two directions of
  its TCP connection; link \<open>h\<close> belongs to handle \<open>h\<close> of the master. Links are in the order in which
  the connections were established, which is the order in which the master accepts them; a link whose
  index is not a handle yet waits in the backlog of the listening socket.

  \<open>net_possible\<close> is what Boost.Asio and TCP guarantee: an operation completes only if it was started; a
  read that succeeds has got exactly the octets it asked for, from the front of the stream; a write
  that succeeds has put all its octets on the stream; an operation may fail at any time. The octets of a
  write reach the stream in pieces of any size, before the completion is reported, so the peer may
  have read and answered a message before its sender knows that it was sent.

  Boost.Asio can report a success that was queued before the socket was closed. Such an event is \<open>late\<close>.
  \<open>net_enabled\<close> disables the late events, so a run of the network is one in which none happens, and this
  goes beyond the guarantees. \<open>net_possible\<close> has the late events too; where a property needs that there
  are none it says so, as a hypothesis on the events. What the code does on a late event is shown with the
  handlers.

  \<open>net_handle\<close> runs the handler of the node and moves the octets. Nothing here is code of the program
  but the handlers.
\<close>

subsection \<open>State\<close>

record link =
  l_start :: UserFS      \<comment> \<open>the slave when it got its connection\<close>
  l_addr :: string       \<comment> \<open>its address, as the socket of the master reports it\<close>
  l_slave :: UserFS
  l_up :: bytes          \<comment> \<open>on the stream to the master\<close>
  l_up_sent :: nat       \<comment> \<open>octets of the slave's write under way that are on the stream or were\<close>
  l_down :: bytes
  l_down_sent :: nat

record network =
  n_master :: UserFS
  n_links :: "link list"

definition messager :: "UserFS \<Rightarrow> TCPSlaveMessager" where
  "messager s = (case tm_slave (u_tcp_manager s) of None \<Rightarrow> TCPSlaveMessager_new | Some m \<Rightarrow> m)"

abbreviation lm :: "link \<Rightarrow> TCPSlaveMessager" where
  "lm l \<equiv> messager (l_slave l)"

definition accepting :: "UserFS \<Rightarrow> bool" where
  "accepting fs = (case tm_master (u_tcp_manager fs) of None \<Rightarrow> False | Some m \<Rightarrow> mm_accepting m)"

definition map_link :: "nat \<Rightarrow> (link \<Rightarrow> link) \<Rightarrow> network \<Rightarrow> network" where
  "map_link h f n =
     (if h < length (n_links n) then n\<lparr>n_links := (n_links n)[h := f (n_links n ! h)]\<rparr> else n)"

text \<open>The octets of the write under way: the front of the queue.\<close>

definition front_wire :: "Packet list \<Rightarrow> bytes" where
  "front_wire q = (case q of [] \<Rightarrow> [] | p # _ \<Rightarrow> Packet_wire p)"

subsection \<open>Slaves that arrive\<close>

text \<open>
  What a slave is when its connection is established: it has scanned its directory, has its own host
  at index 0 and its hello message in the posted closure, or already in its queue if the closure ran
  first.
\<close>

definition own_host :: "UserFS \<Rightarrow> Host" where
  "own_host s = hd (u_hosts s)"

definition own_tree :: "UserFS \<Rightarrow> TreeNode" where
  "own_tree s = the (u_dir_tree s)"

definition hello_of :: "boost_archive \<Rightarrow> UserFS \<Rightarrow> bytes" where
  "hello_of B s = hello_message (DirTree_serialize B (u_dir_tree s)) (Host_serialize B (own_host s))"

definition slave_ready :: "boost_archive \<Rightarrow> UserFS \<Rightarrow> bool" where
  "slave_ready B s \<longleftrightarrow>
     wf_tree (u_dir_tree s) \<and> list_all (owned_by 0) (root_children s) \<and> length (u_hosts s) = 1 \<and> h_working_dir (own_host s) = u_working_dir s \<and>
     u_host_id s = 0 \<and> length (hello_of B s) < 2 ^ 48 \<and>
     (case tm_slave (u_tcp_manager s) of
        None \<Rightarrow> False
      | Some m \<Rightarrow>
          sm_connecting m \<and> sm_open m \<and> sm_read m = NoRead \<and>
          (let p = Packet_encodeData (hello_of B s)
           in sm_posted m = [SlavePostWrite p] \<and> sm_queue m = [] \<and> \<not> sm_writing m \<or>
              sm_posted m = [] \<and> sm_queue m = [p] \<and> sm_writing m))"

subsection \<open>Events\<close>

datatype net_event =
    SlaveArrives UserFS string
  | SlaveEvent nat slave_event
  | MasterEvent master_event
  | UpTransmit nat nat
  | DownTransmit nat nat

fun slave_enabled :: "slave_event \<Rightarrow> link \<Rightarrow> bool" where
  "slave_enabled (Connected ec) l = False"
| "slave_enabled (SlaveHeaderRead ec data) l =
     (sm_read (lm l) = ReadHeader \<and> take (length data) (l_down l) = data \<and>
      (if ec then length data \<le> Packet_sizeLength else sm_open (lm l) \<and> length data = Packet_sizeLength))"
| "slave_enabled (SlaveBodyRead ec data) l =
     (sm_read (lm l) = ReadBody \<and> take (length data) (l_down l) = data \<and>
      (if ec then length data \<le> unat (pkt_size (sm_packet (lm l)))
       else sm_open (lm l) \<and> length data = unat (pkt_size (sm_packet (lm l)))))"
| "slave_enabled (SlaveWritten ec k) l =
     (sm_writing (lm l) \<and>
      (ec \<or> sm_open (lm l) \<and> k = l_up_sent l \<and>
            (sm_queue (lm l) \<noteq> [] \<longrightarrow> k = length (front_wire (sm_queue (lm l))))))"
| "slave_enabled SlaveRunPost l = (sm_posted (lm l) \<noteq> [])"

fun master_enabled :: "master_event \<Rightarrow> network \<Rightarrow> bool" where
  "master_enabled (Accepted ec) n =
     (accepting (n_master n) \<and> (ec \<or> length (conns (n_master n)) < length (n_links n)))"
| "master_enabled (HeaderRead h ec data) n =
     (h < length (conns (n_master n)) \<and>
      (let c = conns (n_master n) ! h; l = n_links n ! h
       in mc_read c = ReadHeader \<and> take (length data) (l_up l) = data \<and>
          (if ec then length data \<le> Packet_sizeLength else mc_open c \<and> length data = Packet_sizeLength)))"
| "master_enabled (BodyRead h ec data remote) n =
     (h < length (conns (n_master n)) \<and>
      (let c = conns (n_master n) ! h; l = n_links n ! h
       in mc_read c = ReadBody \<and> take (length data) (l_up l) = data \<and> remote = l_addr l \<and>
          (if ec then length data \<le> unat (pkt_size (mc_packet c))
           else mc_open c \<and> length data = unat (pkt_size (mc_packet c)))))"
| "master_enabled (Written h ec k) n =
     (h < length (conns (n_master n)) \<and>
      (let c = conns (n_master n) ! h; l = n_links n ! h
       in mc_writing c \<and>
          (ec \<or> mc_open c \<and> k = l_down_sent l \<and> (mc_queue c \<noteq> [] \<longrightarrow> k = length (front_wire (mc_queue c))))))"
| "master_enabled RunPost n = (posted (n_master n) \<noteq> [])"

fun net_enabled :: "boost_archive \<Rightarrow> net_event \<Rightarrow> network \<Rightarrow> bool" where
  "net_enabled B (SlaveArrives s addr) n = slave_ready B s"
| "net_enabled B (SlaveEvent h ev) n = (h < length (n_links n) \<and> slave_enabled ev (n_links n ! h))"
| "net_enabled B (MasterEvent ev) n = master_enabled ev n"
| "net_enabled B (UpTransmit h k) n =
     (h < length (n_links n) \<and>
      (let l = n_links n ! h
       in sm_open (lm l) \<and> sm_writing (lm l) \<and> 0 < k \<and> l_up_sent l + k \<le> length (front_wire (sm_queue (lm l)))))"
| "net_enabled B (DownTransmit h k) n =
     (h < length (conns (n_master n)) \<and> h < length (n_links n) \<and>
      (let l = n_links n ! h; c = conns (n_master n) ! h
       in mc_open c \<and> mc_writing c \<and> 0 < k \<and> l_down_sent l + k \<le> length (front_wire (mc_queue c))))"

text \<open>
  The late events, and what is possible with them. A write that is reported as successful after the
  close has written what was on the stream by then; closing a connection of the master has emptied its queue.
\<close>

fun slave_late :: "slave_event \<Rightarrow> link \<Rightarrow> bool" where
  "slave_late (SlaveHeaderRead ec data) l = (\<not> ec \<and> \<not> sm_open (lm l))"
| "slave_late (SlaveBodyRead ec data) l = (\<not> ec \<and> \<not> sm_open (lm l))"
| "slave_late (SlaveWritten ec k) l = (\<not> ec \<and> \<not> sm_open (lm l))"
| "slave_late ev l = False"

fun master_late :: "master_event \<Rightarrow> UserFS \<Rightarrow> bool" where
  "master_late (HeaderRead h ec data) fs = (\<not> ec \<and> \<not> mc_open (conns fs ! h))"
| "master_late (BodyRead h ec data remote) fs = (\<not> ec \<and> \<not> mc_open (conns fs ! h))"
| "master_late (Written h ec k) fs = (\<not> ec \<and> \<not> mc_open (conns fs ! h))"
| "master_late ev fs = False"

fun late :: "net_event \<Rightarrow> network \<Rightarrow> bool" where
  "late (SlaveEvent h ev) n = slave_late ev (n_links n ! h)"
| "late (MasterEvent ev) n = master_late ev (n_master n)"
| "late ev n = False"

fun slave_possible :: "slave_event \<Rightarrow> link \<Rightarrow> bool" where
  "slave_possible (SlaveHeaderRead ec data) l =
     (sm_read (lm l) = ReadHeader \<and> take (length data) (l_down l) = data \<and>
      (if ec then length data \<le> Packet_sizeLength else length data = Packet_sizeLength))"
| "slave_possible (SlaveBodyRead ec data) l =
     (sm_read (lm l) = ReadBody \<and> take (length data) (l_down l) = data \<and>
      (if ec then length data \<le> unat (pkt_size (sm_packet (lm l))) else length data = unat (pkt_size (sm_packet (lm l)))))"
| "slave_possible (SlaveWritten ec k) l =
     (sm_writing (lm l) \<and>
      (ec \<or> k = l_up_sent l \<and> (sm_open (lm l) \<and> sm_queue (lm l) \<noteq> [] \<longrightarrow> k = length (front_wire (sm_queue (lm l))))))"
| "slave_possible ev l = slave_enabled ev l"

fun master_possible :: "master_event \<Rightarrow> network \<Rightarrow> bool" where
  "master_possible (HeaderRead h ec data) n =
     (h < length (conns (n_master n)) \<and>
      (let c = conns (n_master n) ! h; l = n_links n ! h
       in mc_read c = ReadHeader \<and> take (length data) (l_up l) = data \<and>
          (if ec then length data \<le> Packet_sizeLength else length data = Packet_sizeLength)))"
| "master_possible (BodyRead h ec data remote) n =
     (h < length (conns (n_master n)) \<and>
      (let c = conns (n_master n) ! h; l = n_links n ! h
       in mc_read c = ReadBody \<and> take (length data) (l_up l) = data \<and> remote = l_addr l \<and>
          (if ec then length data \<le> unat (pkt_size (mc_packet c)) else length data = unat (pkt_size (mc_packet c)))))"
| "master_possible (Written h ec k) n =
     (h < length (conns (n_master n)) \<and>
      (let c = conns (n_master n) ! h; l = n_links n ! h
       in mc_writing c \<and>
          (ec \<or> k = l_down_sent l \<and> (mc_open c \<and> mc_queue c \<noteq> [] \<longrightarrow> k = length (front_wire (mc_queue c))))))"
| "master_possible ev n = master_enabled ev n"

fun net_possible :: "boost_archive \<Rightarrow> net_event \<Rightarrow> network \<Rightarrow> bool" where
  "net_possible B (SlaveEvent h ev) n = (h < length (n_links n) \<and> slave_possible ev (n_links n ! h))"
| "net_possible B (MasterEvent ev) n = master_possible ev n"
| "net_possible B ev n = net_enabled B ev n"

lemma slave_enabled_possible: "slave_enabled ev l \<longleftrightarrow> slave_possible ev l \<and> \<not> slave_late ev l"
  by (cases ev) auto

lemma master_enabled_possible: "master_enabled ev n \<longleftrightarrow> master_possible ev n \<and> \<not> master_late ev (n_master n)"
  by (cases ev) (auto simp: Let_def)

lemma net_enabled_possible: "net_enabled B ev n \<longleftrightarrow> net_possible B ev n \<and> \<not> late ev n"
  by (cases ev) (auto simp: slave_enabled_possible master_enabled_possible)

subsection \<open>Running an event\<close>

text \<open>The octets a completed read has taken from the stream, the counters a completed write resets.\<close>

fun slave_moves :: "slave_event \<Rightarrow> link \<Rightarrow> link" where
  "slave_moves (SlaveHeaderRead ec data) l = l\<lparr>l_down := drop (length data) (l_down l)\<rparr>"
| "slave_moves (SlaveBodyRead ec data) l = l\<lparr>l_down := drop (length data) (l_down l)\<rparr>"
| "slave_moves (SlaveWritten ec k) l = l\<lparr>l_up_sent := 0\<rparr>"
| "slave_moves ev l = l"

fun master_moves :: "master_event \<Rightarrow> network \<Rightarrow> network" where
  "master_moves (HeaderRead h ec data) n = map_link h (\<lambda>l. l\<lparr>l_up := drop (length data) (l_up l)\<rparr>) n"
| "master_moves (BodyRead h ec data remote) n = map_link h (\<lambda>l. l\<lparr>l_up := drop (length data) (l_up l)\<rparr>) n"
| "master_moves (Written h ec k) n = map_link h (\<lambda>l. l\<lparr>l_down_sent := 0\<rparr>) n"
| "master_moves ev n = n"

definition link_new :: "UserFS \<Rightarrow> string \<Rightarrow> UserFS \<Rightarrow> link" where
  "link_new s addr s' = \<lparr>l_start = s, l_addr = addr, l_slave = s', l_up = [], l_up_sent = 0, l_down = [], l_down_sent = 0\<rparr>"

fun net_handle :: "boost_archive \<Rightarrow> net_event \<Rightarrow> network \<Rightarrow> network result" where
  "net_handle B (SlaveArrives s addr) n =
     res_bind (slave_handle B (Connected False) s) (\<lambda>s'.
       Inr (n\<lparr>n_links := n_links n @ [link_new s addr s']\<rparr>))"
| "net_handle B (SlaveEvent h ev) n =
     res_bind (slave_handle B ev (l_slave (n_links n ! h))) (\<lambda>s'.
       Inr (map_link h (\<lambda>l. (slave_moves ev l)\<lparr>l_slave := s'\<rparr>) n))"
| "net_handle B (MasterEvent ev) n =
     res_bind (master_handle B ev (n_master n)) (\<lambda>m.
       Inr ((master_moves ev n)\<lparr>n_master := m\<rparr>))"
| "net_handle B (UpTransmit h k) n =
     Inr (map_link h (\<lambda>l. l\<lparr>l_up := l_up l @ take k (drop (l_up_sent l) (front_wire (sm_queue (lm l)))),
                          l_up_sent := l_up_sent l + k\<rparr>) n)"
| "net_handle B (DownTransmit h k) n =
     Inr (map_link h (\<lambda>l. l\<lparr>l_down := l_down l @ take k (drop (l_down_sent l) (front_wire (mc_queue (conns (n_master n) ! h)))),
                          l_down_sent := l_down_sent l + k\<rparr>) n)"

text \<open>
  The bounds within which a run stays: the messages of the master and the ids fit the numbers that
  survive the wire.
\<close>

definition net_bounds :: "boost_archive \<Rightarrow> network \<Rightarrow> bool" where
  "net_bounds B n \<longleftrightarrow> fits B (n_master n) \<and> length (update_of B (n_master n)) + 8 < 2 ^ 48"

abbreviation net_run :: "boost_archive \<Rightarrow> network \<Rightarrow> network \<Rightarrow> bool" where
  "net_run B \<equiv> run (net_enabled B) (net_handle B) (net_bounds B)"

text \<open>The runs with the late events, by their events.\<close>

abbreviation net_trace :: "boost_archive \<Rightarrow> net_event list \<Rightarrow> network \<Rightarrow> network \<Rightarrow> bool" where
  "net_trace B \<equiv> trace (net_possible B) (net_handle B) (net_bounds B)"

lemmas net_trace_run = trace_avoids [OF _ _ net_enabled_possible]

end
