(* ===== verification/Network_Inv.thy ===== *)
theory Network_Inv
  imports Network
begin

section \<open>The invariant of the network\<close>

text \<open>
  For every link the invariant says what is under way in each direction. To the master: the hello
  message of the slave until the master has taken it, nothing afterwards. To the slave: a sequence of
  packets, each an update or the recognition with the slave's id; if the slave is recognised, they end
  with an update that has the current metadata of the master, or there are none and the slave agrees
  with the master. \<open>stream_ok\<close> relates the octets that the receiver still gets to the packets, given
  which part of a packet it is waiting for.
\<close>

subsection \<open>Framing\<close>

definition framed :: "Packet \<Rightarrow> bool" where
  "framed p \<longleftrightarrow> (\<exists>msg. p = Packet_encodeData msg \<and> length msg < 2 ^ 48)"

fun stream_ok :: "read_op \<Rightarrow> Packet \<Rightarrow> bytes \<Rightarrow> Packet list \<Rightarrow> bool" where
  "stream_ok NoRead q s ps \<longleftrightarrow> False"
| "stream_ok ReadHeader q s ps \<longleftrightarrow> s = concat (map Packet_wire ps)"
| "stream_ok ReadBody q s [] \<longleftrightarrow> False"
| "stream_ok ReadBody q s (p # ps) \<longleftrightarrow>
     pkt_size q = pkt_size (Packet_received p) \<and> s = pkt_data (Packet_received p) @ concat (map Packet_wire ps)"

lemma framedE:
  assumes "framed p"
  obtains msg where "p = Packet_encodeData msg" and "length msg < 2 ^ 48"
    and "Packet_wire p = host_to_network_64 (of_nat (length msg)) @ msg"
    and "Packet_received p = \<lparr>pkt_size = of_nat (length msg), pkt_data = msg\<rparr>"
    and "unat (pkt_size p) = length (Packet_wire p)"
proof -
  obtain msg where msg: "p = Packet_encodeData msg" "length msg < 2 ^ 48"
    using assms by (auto simp: framed_def)
  show thesis
    using Packet_wire_encode [OF msg(2)] received_encode [of msg] Packet_size_small [OF msg(2)] msg
    by (intro that [of msg]) (simp_all add: wire64.length_enc)
qed

lemma stream_header:
  assumes "stream_ok ReadHeader q (s @ rest) ps" and "list_all framed ps"
    and "take (length data) s = data" and "length data = Packet_sizeLength"
  obtains p ps' where "ps = p # ps'" and "framed p"
    and "\<And>q r. Packet_decodeSize (data @ r) q = Inr (q\<lparr>pkt_size := pkt_size (Packet_received p)\<rparr>)"
    and "\<And>q. stream_ok ReadBody (q\<lparr>pkt_size := pkt_size (Packet_received p)\<rparr>) (drop (length data) s @ rest) ps"
    and "unat (pkt_size (Packet_received p)) < 2 ^ 48"
proof (cases ps)
  case Nil
  with assms show thesis by (simp add: Packet_sizeLength_def)
next
  case (Cons p ps')
  obtain msg where msg: "length msg < 2 ^ 48" "Packet_wire p = host_to_network_64 (of_nat (length msg)) @ msg"
    "Packet_received p = \<lparr>pkt_size = of_nat (length msg), pkt_data = msg\<rparr>"
    using assms(2) Cons by (auto elim: framedE)
  have s: "s = data @ drop (length data) s" using assms(3) by (metis append_take_drop_id)
  have "data @ drop (length data) s @ rest = host_to_network_64 (of_nat (length msg)) @ msg @ concat (map Packet_wire ps')"
    using assms(1) s Cons msg(2) by (metis append.assoc concat.simps(2) list.simps(9) stream_ok.simps(2))
  then have d: "data = host_to_network_64 (of_nat (length msg))" "drop (length data) s @ rest = msg @ concat (map Packet_wire ps')"
    using assms(4) by (simp_all add: append_eq_append_conv wire64.length_enc Packet_sizeLength_def)
  from Cons assms(2) msg d decode_header_rest [OF msg(1)] show thesis
    by (intro that [OF Cons]) (simp_all add: unat_of_nat_small)
qed

lemma stream_body:
  assumes "stream_ok ReadBody q (s @ rest) ps" and "list_all framed ps"
    and "take (length data) s = data" and "length data = unat (pkt_size q)"
  obtains p ps' where "ps = p # ps'" and "framed p" and "data = pkt_data (Packet_received p)"
    and "\<And>q. stream_ok ReadHeader q (drop (length data) s @ rest) ps'"
proof (cases ps)
  case Nil
  with assms show thesis by simp
next
  case (Cons p ps')
  obtain msg where msg: "length msg < 2 ^ 48" "Packet_received p = \<lparr>pkt_size = of_nat (length msg), pkt_data = msg\<rparr>"
    using assms(2) Cons by (auto elim: framedE)
  have s: "s = data @ drop (length data) s" using assms(3) by (metis append_take_drop_id)
  have len: "length data = length msg" and eq: "s @ rest = msg @ concat (map Packet_wire ps')"
    using assms(1,4) Cons msg by (simp_all add: unat_of_nat_small)
  have "data @ (drop (length data) s @ rest) = msg @ concat (map Packet_wire ps')" using s eq by (metis append.assoc)
  with len have "data = msg" "drop (length data) s @ rest = concat (map Packet_wire ps')"
    by (simp_all add: append_eq_append_conv)
  with Cons assms(2) msg show thesis by (intro that [OF Cons]) simp_all
qed

lemma stream_ok_append:
  "stream_ok rd q s ps \<Longrightarrow> stream_ok rd q (s @ concat (map Packet_wire qs)) (ps @ qs)"
  by (cases rd; cases ps) simp_all

subsection \<open>Writes under way\<close>

definition unsent :: "nat \<Rightarrow> Packet list \<Rightarrow> bytes" where
  "unsent k q = drop k (concat (map Packet_wire q))"

definition counter_ok :: "nat \<Rightarrow> bool \<Rightarrow> Packet list \<Rightarrow> bool" where
  "counter_ok k w q \<longleftrightarrow> w = (q \<noteq> []) \<and> k \<le> length (front_wire q) \<and> list_all framed q"

lemma front_wire_simps [simp]: "front_wire [] = []" "front_wire (p # q) = Packet_wire p"
  by (simp_all add: front_wire_def)

lemma concat_front_wire: "concat (map Packet_wire q) = front_wire q @ concat (map Packet_wire (tl q))"
  by (cases q) simp_all

lemma unsent_transmit:
  assumes "k + j \<le> length (front_wire q)"
  shows "take j (drop k (front_wire q)) @ unsent (k + j) q = unsent k q"
proof -
  have "unsent k q = drop k (front_wire q) @ concat (map Packet_wire (tl q))"
    using assms concat_front_wire [of q] by (simp add: unsent_def)
  moreover have "unsent (k + j) q = drop j (drop k (front_wire q)) @ concat (map Packet_wire (tl q))"
    using assms concat_front_wire [of q] by (simp add: unsent_def add.commute)
  ultimately show ?thesis by (metis append.assoc append_take_drop_id)
qed

lemma unsent_finished: "k = length (front_wire q) \<Longrightarrow> unsent 0 (tl q) = unsent k q"
  using concat_front_wire [of q] by (simp add: unsent_def)

lemma unsent_push: "k \<le> length (front_wire q) \<Longrightarrow> unsent k (q @ [p]) = unsent k q @ Packet_wire p"
  using concat_front_wire [of q] by (simp add: unsent_def)

lemma counter_push: "counter_ok k w q \<Longrightarrow> framed p \<Longrightarrow> counter_ok k True (q @ [p])"
  by (cases q) (simp_all add: counter_ok_def)

lemma counter_tl: "counter_ok k w q \<Longrightarrow> counter_ok 0 (tl q \<noteq> []) (tl q)"
  by (cases q) (simp_all add: counter_ok_def)

lemma counter_size:
  "counter_ok k w q \<Longrightarrow> q = p # r \<Longrightarrow> unat (pkt_size p) = length (front_wire q)"
  by (auto simp: counter_ok_def elim: framedE)

subsection \<open>The invariant\<close>

text \<open>
  The packets of the master that may be under way to the slave with id \<open>i\<close>; 0 means that it has none
  yet. They tell what the master knew earlier, when its vector of hosts was at most as long as \<open>hs\<close> is now.
\<close>

definition earlier :: "boost_archive \<Rightarrow> Hosts \<Rightarrow> UserFS \<Rightarrow> bool" where
  "earlier B hs m \<longleftrightarrow> master_inv m \<and> fits B m \<and> prefix (u_hosts m) hs"

definition recognition_for :: "boost_archive \<Rightarrow> Hosts \<Rightarrow> u64 \<Rightarrow> Packet \<Rightarrow> bool" where
  "recognition_for B hs i p \<longleftrightarrow>
     i \<noteq> 0 \<and> unat i < 2 ^ 48 \<and> (\<exists>m. earlier B hs m \<and> p = Packet_encodeData (recognition_of B i m))"

definition packet_for :: "boost_archive \<Rightarrow> Hosts \<Rightarrow> u64 \<Rightarrow> Packet \<Rightarrow> bool" where
  "packet_for B hs i p \<longleftrightarrow> framed p \<and>
     (recognition_for B hs i p \<or> (\<exists>m. earlier B hs m \<and> p = Packet_encodeData (update_of B m)))"

definition posts :: "nat \<Rightarrow> UserFS \<Rightarrow> Packet list" where
  "posts h m = concat (map (post_to h) (posted m))"

fun post_ok :: "boost_archive \<Rightarrow> Hosts \<Rightarrow> nat \<Rightarrow> master_post \<Rightarrow> bool" where
  "post_ok B hs k (PostWrite p) = packet_for B hs 0 p"
| "post_ok B hs k (PostWriteTo p h) = (framed p \<and> h < k)"
| "post_ok B hs k PostStop = False"

definition posts_ok :: "boost_archive \<Rightarrow> UserFS \<Rightarrow> bool" where
  "posts_ok B m \<longleftrightarrow> list_all (post_ok B (u_hosts m) (length (conns m))) (posted m)"

text \<open>The connection of a link, also while the link waits to be accepted.\<close>

definition accepted_conn :: master_conn where
  "accepted_conn = conn_new\<lparr>mc_buffer := replicate Packet_sizeLength 0, mc_read := ReadHeader\<rparr>"

definition conn_of :: "UserFS \<Rightarrow> nat \<Rightarrow> master_conn" where
  "conn_of m h = (if h < length (conns m) then conns m ! h else accepted_conn)"

definition slave_posts :: "TCPSlaveMessager \<Rightarrow> Packet list" where
  "slave_posts m = concat (map (\<lambda>x. case x of SlavePostWrite p \<Rightarrow> [p] | SlavePostStop \<Rightarrow> []) (sm_posted m))"

definition node_inv :: "boost_archive \<Rightarrow> link \<Rightarrow> bool" where
  "node_inv B l \<longleftrightarrow>
     slave_ready B (l_start l) \<and> u_working_dir (l_slave l) = u_working_dir (l_start l) \<and>
     tm_slave (u_tcp_manager (l_slave l)) \<noteq> None \<and> u_dir_tree (l_slave l) \<noteq> None \<and>
     list_all framed (slave_posts (lm l)) \<and>
     (sm_open (lm l) \<longrightarrow> counter_ok (l_up_sent l) (sm_writing (lm l)) (sm_queue (lm l)))"

definition conn_inv :: "master_conn \<Rightarrow> link \<Rightarrow> bool" where
  "conn_inv c l \<longleftrightarrow> (mc_open c \<longrightarrow> counter_ok (l_down_sent l) (mc_writing c) (mc_queue c))"

definition awaited :: "boost_archive \<Rightarrow> u64 \<Rightarrow> UserFS \<Rightarrow> Packet list" where
  "awaited B i s = (if i = 0 then [Packet_encodeData (hello_of B s)] else [])"

definition up_inv :: "boost_archive \<Rightarrow> master_conn \<Rightarrow> link \<Rightarrow> bool" where
  "up_inv B c l \<longleftrightarrow>
     (mc_open c \<longrightarrow>
       (\<exists>rest. stream_ok (mc_read c) (mc_packet c) (l_up l @ rest) (awaited B (mc_slave_id c) (l_start l)) \<and>
          (sm_open (lm l) \<longrightarrow> rest = unsent (l_up_sent l) (sm_queue (lm l)) @ concat (map Packet_wire (slave_posts (lm l))))))"

definition told_inv :: "boost_archive \<Rightarrow> UserFS \<Rightarrow> u64 \<Rightarrow> UserFS \<Rightarrow> Packet list \<Rightarrow> bool" where
  "told_inv B m i s ps \<longleftrightarrow> i \<noteq> 0 \<longrightarrow> slave_ok B m s ps \<and> (u_host_id s = i \<or> (\<exists>p\<in>set ps. recognition_for B (u_hosts m) i p))"

text \<open>
  \<open>rest\<close> are the octets that will follow those on the stream. After the master has closed the
  connection nobody knows which of them will still come.
\<close>

definition due :: "boost_archive \<Rightarrow> UserFS \<Rightarrow> master_conn \<Rightarrow> Packet list \<Rightarrow> link \<Rightarrow> bytes \<Rightarrow> Packet list \<Rightarrow> bool" where
  "due B m c qs l rest ps \<longleftrightarrow>
     (if mc_open c
      then rest = unsent (l_down_sent l) (mc_queue c) \<and> list_all (packet_for B (u_hosts m) (mc_slave_id c)) (ps @ qs) \<and>
           told_inv B m (mc_slave_id c) (l_slave l) (ps @ qs)
      else list_all (\<lambda>p. \<exists>i. packet_for B (u_hosts m) i p) ps)"

definition down_inv :: "boost_archive \<Rightarrow> UserFS \<Rightarrow> master_conn \<Rightarrow> Packet list \<Rightarrow> link \<Rightarrow> bool" where
  "down_inv B m c qs l \<longleftrightarrow>
     (sm_open (lm l) \<longrightarrow>
       (\<exists>rest ps. stream_ok (sm_read (lm l)) (sm_packet (lm l)) (l_down l @ rest) ps \<and> due B m c qs l rest ps))"

definition link_inv :: "boost_archive \<Rightarrow> UserFS \<Rightarrow> master_conn \<Rightarrow> Packet list \<Rightarrow> link \<Rightarrow> bool" where
  "link_inv B m c qs l \<longleftrightarrow> node_inv B l \<and> conn_inv c l \<and> up_inv B c l \<and> down_inv B m c qs l"

definition net_inv :: "boost_archive \<Rightarrow> network \<Rightarrow> bool" where
  "net_inv B n \<longleftrightarrow>
     archive_lossless B \<and> master_inv (n_master n) \<and> net_bounds B n \<and> accepting (n_master n) \<and> posts_ok B (n_master n) \<and>
     length (conns (n_master n)) \<le> length (n_links n) \<and>
     (\<forall>h<length (n_links n). link_inv B (n_master n) (conn_of (n_master n) h) (posts h (n_master n)) (n_links n ! h))"

subsection \<open>Links that a step does not concern\<close>

lemma packet_for_0: "packet_for B hs 0 p \<Longrightarrow> packet_for B hs i p"
  by (auto simp: packet_for_def recognition_for_def)

lemma packet_for_framed: "packet_for B hs i p \<Longrightarrow> framed p"
  by (simp add: packet_for_def)

lemma earlier_mono: "earlier B hs m \<Longrightarrow> prefix hs hs' \<Longrightarrow> earlier B hs' m"
  by (auto simp: earlier_def intro: prefix_order.trans)

lemma recognition_for_mono: "recognition_for B hs i p \<Longrightarrow> prefix hs hs' \<Longrightarrow> recognition_for B hs' i p"
  by (auto simp: recognition_for_def intro: earlier_mono)

lemma packet_for_mono: "packet_for B hs i p \<Longrightarrow> prefix hs hs' \<Longrightarrow> packet_for B hs' i p"
  by (auto simp: packet_for_def intro: earlier_mono recognition_for_mono)

lemma post_ok_mono: "post_ok B hs k x \<Longrightarrow> prefix hs hs' \<Longrightarrow> k \<le> k' \<Longrightarrow> post_ok B hs' k' x"
  by (cases x) (auto intro: packet_for_mono)

lemma posts_ok_mono: "posts_ok B m \<Longrightarrow> posted m' = posted m \<Longrightarrow> prefix (u_hosts m) (u_hosts m') \<Longrightarrow>
    length (conns m) \<le> length (conns m') \<Longrightarrow> posts_ok B m'"
  by (auto simp: posts_ok_def list_all_iff intro: post_ok_mono)

lemma packet_for_update:
  assumes "master_inv m" and "fits B m" and "length (update_of B m) + 8 < 2 ^ 48"
  shows "packet_for B (u_hosts m) i (Packet_encodeData (update_of B m))"
  using assms by (auto simp: packet_for_def framed_def earlier_def)

lemma told_inv_update:
  "told_inv B m i s ps \<Longrightarrow> prefix (u_hosts m) (u_hosts m') \<Longrightarrow> told_inv B m' i s (ps @ [Packet_encodeData (update_of B m')])"
  by (auto simp: told_inv_def slave_ok_def intro: recognition_for_mono)

lemma told_inv_quiet:
  "u_dir_tree m' = u_dir_tree m \<Longrightarrow> u_hosts m' = u_hosts m \<Longrightarrow> told_inv B m' i s ps = told_inv B m i s ps"
  using slave_ok_meta [of m' m B s ps] by (simp add: told_inv_def)

lemma link_inv_quiet:
  assumes "u_dir_tree m' = u_dir_tree m" and "u_hosts m' = u_hosts m"
  shows "link_inv B m' c qs l = link_inv B m c qs l"
  by (simp add: link_inv_def down_inv_def due_def told_inv_quiet [OF assms] assms(2))

lemma link_invD:
  assumes "link_inv B m c qs l"
  shows "node_inv B l" and "conn_inv c l" and "up_inv B c l" and "down_inv B m c qs l"
  using assms by (simp_all add: link_inv_def)

lemma due_framed: "due B m c qs l rest ps \<Longrightarrow> list_all framed ps"
  by (auto simp: due_def list_all_iff dest!: packet_for_framed split: if_splits)

lemma link_inv_update:
  assumes "link_inv B m c qs l" and "packet_for B (u_hosts m') 0 (Packet_encodeData (update_of B m'))" and "prefix (u_hosts m) (u_hosts m')"
  shows "link_inv B m' c (qs @ [Packet_encodeData (update_of B m')]) l"
proof -
  have "due B m' c (qs @ [Packet_encodeData (update_of B m')]) l rest ps" if "due B m c qs l rest ps" for rest ps
    using that packet_for_0 [OF assms(2)] told_inv_update [of B m "mc_slave_id c" "l_slave l" "ps @ qs" m'] packet_for_mono [OF _ assms(3)] assms(3)
    by (auto simp: due_def list_all_iff split: if_splits) blast+
  with assms(1) show ?thesis by (auto simp: link_inv_def down_inv_def)
qed

subsection \<open>Events of a slave\<close>

lemma messager_set_slave [simp]:
  "messager (set_slave m fs) = m" "tm_slave (u_tcp_manager (set_slave m fs)) = Some m"
  "u_dir_tree (set_slave m fs) = u_dir_tree fs" "u_working_dir (set_slave m fs) = u_working_dir fs"
  "u_host_id (set_slave m fs) = u_host_id fs" "u_hosts (set_slave m fs) = u_hosts fs"
  by (simp_all add: messager_def set_slave_def)

lemma slave_of_messager: "tm_slave (u_tcp_manager s) \<noteq> None \<Longrightarrow> slave_of s = Inr (messager s)"
  by (auto simp: slave_of_def messager_def)

lemma messager_cong: "u_tcp_manager s' = u_tcp_manager s \<Longrightarrow> messager s' = messager s"
  by (simp add: messager_def)

lemma slave_ok_view:
  "root_children s' = root_children s \<Longrightarrow> u_hosts s' = u_hosts s \<Longrightarrow> slave_ok B m s' ps = slave_ok B m s ps"
  by (simp add: slave_ok_def in_sync_def)

lemma told_inv_view:
  "u_dir_tree s' = u_dir_tree s \<Longrightarrow> u_hosts s' = u_hosts s \<Longrightarrow> u_host_id s' = u_host_id s \<Longrightarrow>
     told_inv B m i s' ps = told_inv B m i s ps"
  using slave_ok_view [of s' s B m ps] by (simp add: told_inv_def root_children_def)

text \<open>
  What a step of a slave may leave alone: if tree, hosts, id and directory of the slave stay, the
  invariant is that of the messager.
\<close>

definition same_node :: "UserFS \<Rightarrow> UserFS \<Rightarrow> bool" where
  "same_node s s' \<longleftrightarrow>
     u_dir_tree s' = u_dir_tree s \<and> u_hosts s' = u_hosts s \<and> u_host_id s' = u_host_id s \<and>
     u_working_dir s' = u_working_dir s"

lemma same_node_set_slave [simp]: "same_node s (set_slave m s)"
  by (simp add: same_node_def)

lemma slave_header_ok:
  assumes "tm_slave (u_tcp_manager s) \<noteq> None" and "length data = Packet_sizeLength"
    and "\<And>q r. Packet_decodeSize (data @ r) q = Inr (q\<lparr>pkt_size := k\<rparr>)" and "unat k < 2 ^ 63"
  shows "\<exists>b. slave_header_handler False data s =
    Inr (set_slave ((messager s)\<lparr>sm_packet := (sm_packet (messager s))\<lparr>pkt_size := k\<rparr>, sm_buffer := b, sm_read := ReadBody\<rparr>) s)"
proof -
  let ?m = "messager s"
  obtain b where "vec_resize (unat k) (fill data (sm_buffer ?m)) = Inr b"
    using vec_resize_ok [of "unat k" "fill data (sm_buffer ?m)"] assms(4) by auto
  then show ?thesis
    using assms by (auto simp: slave_header_handler_def slave_of_messager fill_def slave_do_read_body_def)
qed

lemma read_slave_cong: "pkt_data q = pkt_data p \<Longrightarrow> TCPManager_read_slave B q s = TCPManager_read_slave B p s"
  by (simp add: TCPManager_read_slave_def)

lemma packet_read:
  assumes "archive_lossless B" and "packet_for B hs i p" and "u_dir_tree s \<noteq> None"
  obtains s' where "TCPManager_read_slave B (Packet_received p) s = Inr s'" and "u_tcp_manager s' = u_tcp_manager s"
    and "u_dir_tree s' \<noteq> None" and "u_working_dir s' = u_working_dir s"
    and "u_host_id s' = (if recognition_for B hs i p then i else u_host_id s)"
    and "\<exists>m. earlier B hs m \<and> in_sync m s'"
proof -
  obtain rs where rs: "u_dir_tree s = Some rs" using assms(3) by blast
  have view: "\<exists>r. u_dir_tree m = Some r \<and> wf_tree (Some r) \<and> length (DirTree_serialize B (Some r)) < 2 ^ 48 \<and>
      length (Hosts_serialize B (u_hosts m)) < 2 ^ 48" if "master_inv m" "fits B m" for m
    using master_inv_tree [OF that(1)] that by (auto simp: fits_def master_inv_def tree_inv_def)
  show thesis
  proof (cases "recognition_for B hs i p")
    case True
    then obtain m where e: "earlier B hs m" and i: "unat i < 2 ^ 48" and p: "p = Packet_encodeData (recognition_of B i m)"
      by (auto simp: recognition_for_def)
    then have m: "master_inv m" "fits B m" by (simp_all add: earlier_def)
    obtain r where r: "u_dir_tree m = Some r" "wf_tree (Some r)" "length (DirTree_serialize B (Some r)) < 2 ^ 48"
      "length (Hosts_serialize B (u_hosts m)) < 2 ^ 48" using view [OF m] by blast
    have rd: "TCPManager_read_slave B (Packet_received p) s =
        UserFS_slaveRecognized B i (DirTree_serialize B (Some r)) (Hosts_serialize B (u_hosts m)) s"
      by (rule read_recognition [OF r(3,4) wire_safe_small [OF i]]) (simp add: p received_encode recognition_of_def r(1))
    show thesis
      by (rule that [OF trans [OF rd slaveRecognized_ok [OF assms(1) r(2) rs]]]) (use e r(1) rs in \<open>auto simp: True in_sync_def root_children_def\<close>)
  next
    case False
    then obtain m where e: "earlier B hs m" and p: "p = Packet_encodeData (update_of B m)"
      using assms(2) by (auto simp: packet_for_def)
    then have m: "master_inv m" "fits B m" by (simp_all add: earlier_def)
    obtain r where r: "u_dir_tree m = Some r" "wf_tree (Some r)" "length (DirTree_serialize B (Some r)) < 2 ^ 48"
      "length (Hosts_serialize B (u_hosts m)) < 2 ^ 48" using view [OF m] by blast
    have rd: "TCPManager_read_slave B (Packet_received p) s =
        UserFS_updateInfo B (DirTree_serialize B (Some r)) (Hosts_serialize B (u_hosts m)) s"
      by (rule read_update [OF r(3,4)]) (simp add: p received_encode update_of_def r(1))
    show thesis
      by (rule that [OF trans [OF rd updateInfo_ok [OF assms(1) r(2) rs]]]) (use e r(1) rs in \<open>auto simp: False in_sync_def root_children_def\<close>)
  qed
qed

lemma slave_body_ok:
  assumes "tm_slave (u_tcp_manager s) \<noteq> None" and "length data = unat (pkt_size (sm_packet (messager s)))"
    and "archive_lossless B" and "packet_for B hs i p" and "data = pkt_data (Packet_received p)" and "u_dir_tree s \<noteq> None"
  obtains s1 s2 b q where "slave_body_handler B False data s = Inr (set_slave ((messager s)\<lparr>sm_packet := q, sm_buffer := b, sm_read := ReadHeader\<rparr>) s2)"
    and "same_node s s1" and "TCPManager_read_slave B (Packet_received p) s1 = Inr s2" and "u_dir_tree s2 \<noteq> None"
    and "u_working_dir s2 = u_working_dir s" and "u_host_id s2 = (if recognition_for B hs i p then i else u_host_id s)"
    and "\<exists>m. earlier B hs m \<and> in_sync m s2"
proof -
  let ?q = "(sm_packet (messager s))\<lparr>pkt_data := data\<rparr>"
  let ?m1 = "(messager s)\<lparr>sm_buffer := fill data (sm_buffer (messager s)), sm_read := NoRead, sm_packet := ?q\<rparr>"
  let ?s1 = "set_slave ?m1 s"
  obtain s2 where s2: "TCPManager_read_slave B (Packet_received p) ?s1 = Inr s2" "u_tcp_manager s2 = u_tcp_manager ?s1"
    "u_dir_tree s2 \<noteq> None" "u_working_dir s2 = u_working_dir ?s1" "u_host_id s2 = (if recognition_for B hs i p then i else u_host_id ?s1)"
    and known: "\<exists>m. earlier B hs m \<and> in_sync m s2"
    using packet_read [OF assms(3,4), of ?s1] assms(6) by (metis messager_set_slave(3))
  have rd: "TCPManager_read_slave B ?q ?s1 = Inr s2"
    using s2(1) read_slave_cong [of ?q "Packet_received p" B ?s1] assms(5) by simp
  have m2: "slave_of s2 = Inr ?m1"
    by (simp add: slave_of_def s2(2))
  obtain b where "slave_do_read_header ?m1 = Inr (?m1\<lparr>sm_buffer := b, sm_read := ReadHeader\<rparr>)"
    by (simp add: slave_do_read_header_def vec_resize_def Packet_sizeLength_def)
  moreover have "length data < 2 ^ 63"
  proof -
    obtain msg where "p = Packet_encodeData msg" "length msg < 2 ^ 48"
      using assms(4) unfolding packet_for_def framed_def by blast
    then show ?thesis using assms(5) by (simp add: received_encode)
  qed
  ultimately have body: "slave_body_handler B False data s = Inr (set_slave ((messager s)\<lparr>sm_packet := ?q, sm_buffer := b, sm_read := ReadHeader\<rparr>) s2)"
    using assms(1,2) rd m2 by (simp add: slave_body_handler_def slave_of_messager Let_def setData_fill)
  show thesis by (rule that [OF body same_node_set_slave s2(1)]) (use s2 known in simp_all)
qed

lemma told_inv_read:
  assumes "archive_lossless B" and "master_inv m" and "fits B m" and "u_dir_tree s \<noteq> None"
    and "TCPManager_read_slave B (Packet_received p) s = Inr s'" and "told_inv B m i s (p # ps)"
    and "u_host_id s' = (if recognition_for B (u_hosts m) i p then i else u_host_id s)"
  shows "told_inv B m i s' ps"
  using slave_ok_read [OF assms(1-5), of ps] assms(6,7) by (auto simp: told_inv_def split: if_splits)

lemma slave_disconnect_ok:
  assumes "u_dir_tree s \<noteq> None"
  obtains s' where "UserFS_disconnect s = Inr s'" and "u_tcp_manager s' = u_tcp_manager s" and "u_dir_tree s' \<noteq> None"
    and "u_working_dir s' = u_working_dir s" and "u_host_id s' = u_host_id s" and "u_hosts s' = u_hosts s"
proof -
  obtain r where "u_dir_tree s = Some r" using assms by blast
  then show thesis
    by (intro that [of "(let t = Some (with_children (removeNotOf_loop (u_host_id s) (tn_children r)) r); fs = s\<lparr>u_dir_tree := t\<rparr>
        in if u_main_thread_is_waiting fs
           then fs\<lparr>u_main_thread_is_waiting := False, u_slave_wait_sem := Suc (u_slave_wait_sem fs)\<rparr> else fs)"])
      (simp_all add: UserFS_disconnect_def DirTree_removeNotOf_def Let_def)
qed

text \<open>The parts of the invariant under a change of the slave's state.\<close>

lemma up_inv_same:
  assumes "up_inv B c l" and "l_up l' = l_up l" and "l_start l' = l_start l" and "sm_open (lm l') \<Longrightarrow> sm_open (lm l)"
    and "sm_open (lm l') \<Longrightarrow> unsent (l_up_sent l') (sm_queue (lm l')) @ concat (map Packet_wire (slave_posts (lm l'))) =
      unsent (l_up_sent l) (sm_queue (lm l)) @ concat (map Packet_wire (slave_posts (lm l)))"
  shows "up_inv B c l'"
  using assms(1,4,5) unfolding up_inv_def assms(2,3) by metis

lemma due_same:
  assumes "due B m c qs l rest ps" and "l_down_sent l' = l_down_sent l" and "same_node (l_slave l) (l_slave l')"
  shows "due B m c qs l' rest ps"
  using assms told_inv_view [of "l_slave l'" "l_slave l" B m "mc_slave_id c" "ps @ qs"]
  by (auto simp: due_def same_node_def split: if_splits)

lemma down_inv_same:
  assumes "down_inv B m c qs l" and "l_down l' = l_down l" and "l_down_sent l' = l_down_sent l"
    and "same_node (l_slave l) (l_slave l')" and "sm_open (lm l') \<Longrightarrow> sm_open (lm l)"
    and "sm_read (lm l') = sm_read (lm l)" and "sm_packet (lm l') = sm_packet (lm l)"
  shows "down_inv B m c qs l'"
  using assms(1,5) due_same [OF _ assms(3,4)] unfolding down_inv_def assms(2,6,7) by blast

text \<open>A slave whose connection fails.\<close>

lemma slave_fails:
  assumes "link_inv B m c qs l" and "\<not> sm_open (messager s)" and "sm_posted (messager s) = sm_posted (lm l)"
    and "same_node (l_slave l) s" and "tm_slave (u_tcp_manager s) \<noteq> None"
    and "l_start l' = l_start l" and "l_up l' = l_up l" and "l_down_sent l' = l_down_sent l"
  shows "\<exists>s'. UserFS_disconnect s = Inr s' \<and> link_inv B m c qs (l'\<lparr>l_slave := s'\<rparr>)"
proof -
  have "u_dir_tree s \<noteq> None" using assms(1,4) by (simp add: link_inv_def node_inv_def same_node_def)
  then obtain s' where s': "UserFS_disconnect s = Inr s'" "u_tcp_manager s' = u_tcp_manager s" "u_dir_tree s' \<noteq> None"
    "u_working_dir s' = u_working_dir s" by (rule slave_disconnect_ok)
  have closed: "\<not> sm_open (messager s')" "slave_posts (messager s') = slave_posts (lm l)"
    using assms(2,3) messager_cong [OF s'(2)] by (simp_all add: slave_posts_def)
  then have "up_inv B c (l'\<lparr>l_slave := s'\<rparr>)"
    by (intro up_inv_same [OF link_invD(3) [OF assms(1)]]) (simp_all add: assms(6,7))
  moreover have "node_inv B (l'\<lparr>l_slave := s'\<rparr>)"
    using assms(1,4,5,6) s' closed by (simp add: link_inv_def node_inv_def same_node_def)
  ultimately have "link_inv B m c qs (l'\<lparr>l_slave := s'\<rparr>)"
    using assms(1,8) closed by (simp add: link_inv_def down_inv_def conn_inv_def)
  with s'(1) show ?thesis by blast
qed

lemma link_inv_slave_header:
  assumes "link_inv B m c qs l" and "slave_enabled (SlaveHeaderRead False data) l"
  shows "\<exists>s'. slave_handle B (SlaveHeaderRead False data) (l_slave l) = Inr s' \<and>
    link_inv B m c qs ((slave_moves (SlaveHeaderRead False data) l)\<lparr>l_slave := s'\<rparr>)"
proof -
  have rd: "sm_read (lm l) = ReadHeader" "sm_open (lm l)" "take (length data) (l_down l) = data" "length data = Packet_sizeLength"
    using assms(2) by auto
  obtain rest ps where st: "stream_ok ReadHeader (sm_packet (lm l)) (l_down l @ rest) ps" and due: "due B m c qs l rest ps"
    using assms(1) rd(1,2) by (auto simp: link_inv_def down_inv_def)
  have slave: "tm_slave (u_tcp_manager (l_slave l)) \<noteq> None" using assms(1) by (simp add: link_inv_def node_inv_def)
  obtain p where p: "\<And>q r. Packet_decodeSize (data @ r) q = Inr (q\<lparr>pkt_size := pkt_size (Packet_received p)\<rparr>)"
    "\<And>q. stream_ok ReadBody (q\<lparr>pkt_size := pkt_size (Packet_received p)\<rparr>) (drop (length data) (l_down l) @ rest) ps"
    "unat (pkt_size (Packet_received p)) < 2 ^ 48"
    by (rule stream_header [OF st due_framed [OF due] rd(3,4)]) blast
  obtain b where s': "slave_header_handler False data (l_slave l) = Inr (set_slave ((lm l)\<lparr>sm_packet :=
      (sm_packet (lm l))\<lparr>pkt_size := pkt_size (Packet_received p)\<rparr>, sm_buffer := b, sm_read := ReadBody\<rparr>) (l_slave l))"
    (is "_ = Inr ?s'")
    using slave_header_ok [OF slave rd(4) p(1)] p(3) by auto
  let ?l = "l\<lparr>l_down := drop (length data) (l_down l), l_slave := ?s'\<rparr>"
  have "due B m c qs ?l rest ps" using due by (rule due_same) simp_all
  then have "down_inv B m c qs ?l" using p(2) by (auto simp: down_inv_def)
  moreover have "node_inv B ?l" "conn_inv c ?l"
    using assms(1) by (simp_all add: link_inv_def node_inv_def conn_inv_def slave_posts_def)
  moreover have "up_inv B c ?l"
    by (rule up_inv_same [OF link_invD(3) [OF assms(1)]]) (simp_all add: slave_posts_def)
  ultimately show ?thesis using s' by (simp add: link_inv_def)
qed

lemma due_read:
  assumes "archive_lossless B" and "master_inv m" and "fits B m" and "u_dir_tree s1 \<noteq> None"
    and "due B m c qs l rest (p # ps)" and "same_node (l_slave l) s1"
    and "TCPManager_read_slave B (Packet_received p) s1 = Inr s2"
    and "mc_open c \<Longrightarrow> u_host_id s2 = (if recognition_for B (u_hosts m) (mc_slave_id c) p then mc_slave_id c else u_host_id (l_slave l))"
    and "u_dir_tree s' = u_dir_tree s2" "u_hosts s' = u_hosts s2" "u_host_id s' = u_host_id s2"
  shows "due B m c qs (l\<lparr>l_down := d, l_slave := s'\<rparr>) rest ps"
proof (cases "mc_open c")
  case True
  let ?i = "mc_slave_id c"
  have t: "told_inv B m ?i (l_slave l) (p # ps @ qs)"
    using assms(5) True by (simp add: due_def)
  have node: "u_dir_tree s1 = u_dir_tree (l_slave l)" "u_hosts s1 = u_hosts (l_slave l)" "u_host_id s1 = u_host_id (l_slave l)"
    using assms(6) by (simp_all add: same_node_def)
  have "told_inv B m ?i s1 (p # ps @ qs)" using t told_inv_view [OF node] by simp
  from told_inv_read [OF assms(1-4,7) this] assms(8) [OF True] node(3) have "told_inv B m ?i s2 (ps @ qs)" by simp
  with told_inv_view [OF assms(9-11)] have "told_inv B m ?i s' (ps @ qs)" by simp
  with assms(5) True show ?thesis by (simp add: due_def)
next
  case False
  with assms(5) show ?thesis by (simp add: due_def)
qed

lemma due_packet:
  assumes "due B m c qs l rest (p # ps)"
  obtains i where "packet_for B (u_hosts m) i p" and "mc_open c \<Longrightarrow> i = mc_slave_id c"
  using assms by (auto simp: due_def split: if_splits)

lemma link_inv_slave_body:
  assumes "archive_lossless B" and "master_inv m" and "fits B m" and "link_inv B m c qs l"
    and "slave_enabled (SlaveBodyRead False data) l"
  shows "\<exists>s'. slave_handle B (SlaveBodyRead False data) (l_slave l) = Inr s' \<and>
    link_inv B m c qs ((slave_moves (SlaveBodyRead False data) l)\<lparr>l_slave := s'\<rparr>)"
proof -
  have rd: "sm_read (lm l) = ReadBody" "sm_open (lm l)" "take (length data) (l_down l) = data"
    "length data = unat (pkt_size (sm_packet (lm l)))"
    using assms(5) by auto
  obtain rest ps where st: "stream_ok ReadBody (sm_packet (lm l)) (l_down l @ rest) ps" and due: "due B m c qs l rest ps"
    using assms(4) rd(1,2) by (auto simp: link_inv_def down_inv_def)
  have node: "tm_slave (u_tcp_manager (l_slave l)) \<noteq> None" "u_dir_tree (l_slave l) \<noteq> None"
    using assms(4) by (simp_all add: link_inv_def node_inv_def)
  obtain p ps' where p: "ps = p # ps'" "data = pkt_data (Packet_received p)"
    "\<And>q. stream_ok ReadHeader q (drop (length data) (l_down l) @ rest) ps'"
    by (rule stream_body [OF st due_framed [OF due] rd(3,4)]) blast
  obtain i where i: "packet_for B (u_hosts m) i p" "mc_open c \<Longrightarrow> i = mc_slave_id c"
    by (rule due_packet [OF due [unfolded p(1)]]) blast
  obtain s1 s2 b q where body: "slave_body_handler B False data (l_slave l) =
      Inr (set_slave ((lm l)\<lparr>sm_packet := q, sm_buffer := b, sm_read := ReadHeader\<rparr>) s2)" (is "_ = Inr ?s'")
    and s1: "same_node (l_slave l) s1" and read: "TCPManager_read_slave B (Packet_received p) s1 = Inr s2"
    and s2: "u_dir_tree s2 \<noteq> None" "u_working_dir s2 = u_working_dir (l_slave l)"
      "u_host_id s2 = (if recognition_for B (u_hosts m) i p then i else u_host_id (l_slave l))"
    by (rule slave_body_ok [OF node(1) rd(4) assms(1) i(1) p(2) node(2)])
  let ?l = "l\<lparr>l_down := drop (length data) (l_down l), l_slave := ?s'\<rparr>"
  have "due B m c qs ?l rest ps'"
    using node(2) s1 s2(3) i(2) by (intro due_read [OF assms(1-3) _ due [unfolded p(1)] s1 read]) (auto simp: same_node_def)
  then have "down_inv B m c qs ?l" using p(3) by (auto simp: down_inv_def)
  moreover have "node_inv B ?l" "conn_inv c ?l"
    using assms(4) s2(1,2) by (simp_all add: link_inv_def node_inv_def conn_inv_def slave_posts_def)
  moreover have "up_inv B c ?l"
    by (rule up_inv_same [OF link_invD(3) [OF assms(4)]]) (simp_all add: slave_posts_def)
  ultimately show ?thesis using body by (simp add: link_inv_def)
qed

lemma link_inv_slave_written:
  assumes "link_inv B m c qs l" and "slave_enabled (SlaveWritten False k) l"
  shows "\<exists>s'. slave_handle B (SlaveWritten False k) (l_slave l) = Inr s' \<and>
    link_inv B m c qs ((slave_moves (SlaveWritten False k) l)\<lparr>l_slave := s'\<rparr>)"
proof -
  let ?q = "sm_queue (lm l)"
  have open1: "sm_open (lm l)" and k: "k = l_up_sent l" and counter: "counter_ok k (sm_writing (lm l)) ?q"
    and slave: "tm_slave (u_tcp_manager (l_slave l)) \<noteq> None"
    using assms by (auto simp: link_inv_def node_inv_def)
  then obtain p r where q: "?q = p # r" using assms(2) by (cases ?q) (auto simp: counter_ok_def)
  have size: "k = length (front_wire ?q)" "k = unat (pkt_size p)" using assms(2) q counter_size [OF counter q] by auto
  let ?s' = "set_slave (slave_write_finished (lm l)) (l_slave l)"
  have fin: "sm_queue (slave_write_finished (lm l)) = tl ?q" "sm_writing (slave_write_finished (lm l)) = (tl ?q \<noteq> [])"
    "sm_read (slave_write_finished (lm l)) = sm_read (lm l)" "sm_packet (slave_write_finished (lm l)) = sm_packet (lm l)"
    "sm_open (slave_write_finished (lm l)) = sm_open (lm l)" "slave_posts (slave_write_finished (lm l)) = slave_posts (lm l)"
    using slave_queue.queue_finish [of "lm l"] slave_queue.writing_finish [of "lm l"]
    by (simp_all add: slave_write_finished_def slave_do_write_def Let_def slave_posts_def)
  let ?l = "l\<lparr>l_up_sent := 0, l_slave := ?s'\<rparr>"
  have "slave_handle B (SlaveWritten False k) (l_slave l) = Inr ?s'"
    using q size(2) by (simp add: slave_write_handler_def slave_of_messager [OF slave])
  moreover have "node_inv B ?l" "conn_inv c ?l"
    using assms(1) counter_tl [OF counter] by (simp_all add: link_inv_def node_inv_def conn_inv_def fin)
  moreover have "unsent 0 (tl ?q) = unsent (l_up_sent l) ?q" using unsent_finished size(1) k by metis
  then have "up_inv B c ?l" by (intro up_inv_same [OF link_invD(3) [OF assms(1)]]) (simp_all add: fin)
  moreover have "down_inv B m c qs ?l"
    by (rule down_inv_same [OF link_invD(4) [OF assms(1)]]) (simp_all add: fin)
  ultimately show ?thesis by (simp add: link_inv_def)
qed

lemma link_inv_slave_post:
  assumes "link_inv B m c qs l" and "slave_enabled SlaveRunPost l"
  shows "\<exists>s'. slave_handle B SlaveRunPost (l_slave l) = Inr s' \<and> link_inv B m c qs (l\<lparr>l_slave := s'\<rparr>)"
proof -
  let ?m = "lm l" and ?m' = "slave_run_post (lm l)"
  let ?s' = "set_slave ?m' (l_slave l)"
  have slave: "tm_slave (u_tcp_manager (l_slave l)) \<noteq> None" and posts: "list_all framed (slave_posts ?m)"
    and counter: "sm_open ?m \<Longrightarrow> counter_ok (l_up_sent l) (sm_writing ?m) (sm_queue ?m)"
    using assms(1) by (auto simp: link_inv_def node_inv_def)
  have same: "sm_read ?m' = sm_read ?m" "sm_packet ?m' = sm_packet ?m" "sm_open ?m' = sm_open ?m"
    by (auto simp: slave_run_post_def slave_enqueue_def slave_do_write_def Let_def split: list.split slave_post.split)
  obtain x xs where x: "sm_posted ?m = x # xs" using assms(2) by (cases "sm_posted ?m") auto
  have post: "list_all framed (slave_posts ?m') \<and> (sm_open ?m \<longrightarrow> counter_ok (l_up_sent l) (sm_writing ?m') (sm_queue ?m') \<and>
      unsent (l_up_sent l) (sm_queue ?m') @ concat (map Packet_wire (slave_posts ?m')) =
      unsent (l_up_sent l) (sm_queue ?m) @ concat (map Packet_wire (slave_posts ?m)))"
  proof (cases x)
    case (SlavePostWrite p)
    have run: "?m' = slave_enqueue p (?m\<lparr>sm_posted := xs\<rparr>)" by (simp add: slave_run_post_def x SlavePostWrite)
    have p: "framed p" "slave_posts ?m = p # slave_posts ?m'" using posts
      by (simp_all add: slave_posts_def x SlavePostWrite run slave_enqueue_def slave_do_write_def Let_def)
    have "sm_queue ?m' = sm_queue ?m @ [p]" "sm_open ?m \<longrightarrow> sm_writing ?m'"
      using counter by (auto simp: run slave_enqueue_def slave_do_write_def Let_def counter_ok_def)
    then show ?thesis
      using posts counter counter_push [OF counter p(1)] unsent_push [of "l_up_sent l" "sm_queue ?m" p] p(2)
      by (simp add: counter_ok_def)
  next
    case SlavePostStop
    then show ?thesis using posts counter by (simp add: slave_run_post_def x slave_posts_def)
  qed
  let ?l = "l\<lparr>l_slave := ?s'\<rparr>"
  have "node_inv B ?l" "conn_inv c ?l"
    using assms(1) post by (simp_all add: link_inv_def node_inv_def conn_inv_def same)
  moreover have "up_inv B c ?l"
    using post by (intro up_inv_same [OF link_invD(3) [OF assms(1)]]) (simp_all add: same)
  moreover have "down_inv B m c qs ?l"
    by (rule down_inv_same [OF link_invD(4) [OF assms(1)]]) (simp_all add: same)
  ultimately show ?thesis by (simp add: link_inv_def slave_of_messager [OF slave])
qed

lemma link_inv_slave_error:
  assumes "link_inv B m c qs l" and "slave_enabled ev l"
    and "(\<exists>data. ev = SlaveHeaderRead True data) \<or> (\<exists>data. ev = SlaveBodyRead True data) \<or> (\<exists>k. ev = SlaveWritten True k)"
  shows "\<exists>s'. slave_handle B ev (l_slave l) = Inr s' \<and> link_inv B m c qs ((slave_moves ev l)\<lparr>l_slave := s'\<rparr>)"
proof -
  have slave: "tm_slave (u_tcp_manager (l_slave l)) \<noteq> None" using assms(1) by (simp add: link_inv_def node_inv_def)
  obtain m' where "slave_handle B ev (l_slave l) = UserFS_disconnect (set_slave m' (l_slave l))"
    and "\<not> sm_open m'" and "sm_posted m' = sm_posted (lm l)"
    using assms(3) slave
    by (auto simp: slave_of_messager slave_header_handler_def slave_body_handler_def slave_write_handler_def Let_def)
  moreover from assms(3) have "l_start (slave_moves ev l) = l_start l" "l_up (slave_moves ev l) = l_up l"
    "l_down_sent (slave_moves ev l) = l_down_sent l" by auto
  ultimately show ?thesis
    using slave_fails [OF assms(1), of "set_slave m' (l_slave l)" "slave_moves ev l"] by auto
qed

lemma link_inv_slave_event:
  assumes "archive_lossless B" and "master_inv m" and "fits B m" and "link_inv B m c qs l" and "slave_enabled ev l"
  shows "\<exists>s'. slave_handle B ev (l_slave l) = Inr s' \<and> link_inv B m c qs ((slave_moves ev l)\<lparr>l_slave := s'\<rparr>)"
proof (cases ev)
  case (Connected ec)
  with assms(5) show ?thesis by simp
next
  case (SlaveHeaderRead ec data)
  with assms show ?thesis
    by (cases ec) (blast intro: link_inv_slave_error, simp del: slave_enabled.simps slave_moves.simps slave_handle.simps add: link_inv_slave_header)
next
  case (SlaveBodyRead ec data)
  with assms show ?thesis
    by (cases ec) (blast intro: link_inv_slave_error, simp del: slave_enabled.simps slave_moves.simps slave_handle.simps add: link_inv_slave_body)
next
  case (SlaveWritten ec k)
  with assms show ?thesis
    by (cases ec) (blast intro: link_inv_slave_error, simp del: slave_enabled.simps slave_moves.simps slave_handle.simps add: link_inv_slave_written)
next
  case SlaveRunPost
  with link_inv_slave_post [OF assms(4)] assms(5) show ?thesis by simp
qed

subsection \<open>Octets move, slaves arrive\<close>

lemma link_inv_up_transmit:
  assumes "link_inv B m c qs l" and "sm_open (lm l)" and "l_up_sent l + k \<le> length (front_wire (sm_queue (lm l)))"
  shows "link_inv B m c qs (l\<lparr>l_up := l_up l @ take k (drop (l_up_sent l) (front_wire (sm_queue (lm l)))), l_up_sent := l_up_sent l + k\<rparr>)"
    (is "link_inv B m c qs ?l")
proof -
  have move: "l_up ?l @ unsent (l_up_sent ?l) (sm_queue (lm ?l)) @ r = l_up l @ unsent (l_up_sent l) (sm_queue (lm l)) @ r" for r
    using arg_cong [OF unsent_transmit [OF assms(3)], of "\<lambda>x. l_up l @ x @ r"] by simp
  have "up_inv B c ?l"
    unfolding up_inv_def
  proof
    assume "mc_open c"
    then have "stream_ok (mc_read c) (mc_packet c)
        (l_up ?l @ unsent (l_up_sent ?l) (sm_queue (lm ?l)) @ concat (map Packet_wire (slave_posts (lm ?l))))
        (awaited B (mc_slave_id c) (l_start ?l))"
      unfolding move using link_invD(3) [OF assms(1)] assms(2) by (auto simp: up_inv_def)
    then show "\<exists>rest. stream_ok (mc_read c) (mc_packet c) (l_up ?l @ rest)
        (awaited B (mc_slave_id c) (l_start ?l)) \<and>
      (sm_open (lm ?l) \<longrightarrow> rest = unsent (l_up_sent ?l) (sm_queue (lm ?l)) @ concat (map Packet_wire (slave_posts (lm ?l))))"
      by blast
  qed
  moreover have "node_inv B ?l" using link_invD(1) [OF assms(1)] assms(3) by (simp add: node_inv_def counter_ok_def)
  moreover have "down_inv B m c qs ?l"
    by (rule down_inv_same [OF link_invD(4) [OF assms(1)]]) (simp_all add: same_node_def)
  ultimately show ?thesis using link_invD(2) [OF assms(1)] by (simp add: link_inv_def conn_inv_def)
qed

lemma link_inv_down_transmit:
  assumes "link_inv B m c qs l" and "mc_open c" and "l_down_sent l + k \<le> length (front_wire (mc_queue c))"
  shows "link_inv B m c qs (l\<lparr>l_down := l_down l @ take k (drop (l_down_sent l) (front_wire (mc_queue c))), l_down_sent := l_down_sent l + k\<rparr>)"
    (is "link_inv B m c qs ?l")
proof -
  have "down_inv B m c qs ?l"
    unfolding down_inv_def
  proof
    assume "sm_open (lm ?l)"
    then obtain rest ps where "stream_ok (sm_read (lm l)) (sm_packet (lm l)) (l_down l @ rest) ps" "due B m c qs l rest ps"
      using link_invD(4) [OF assms(1)] by (auto simp: down_inv_def)
    then show "\<exists>rest ps. stream_ok (sm_read (lm ?l)) (sm_packet (lm ?l)) (l_down ?l @ rest) ps \<and> due B m c qs ?l rest ps"
      using assms(2) unsent_transmit [OF assms(3)]
      by (intro exI [of _ "unsent (l_down_sent l + k) (mc_queue c)"] exI [of _ ps]) (simp add: due_def)
  qed
  moreover have "conn_inv c ?l" using link_invD(2) [OF assms(1)] assms(3) by (simp add: conn_inv_def counter_ok_def)
  moreover have "up_inv B c ?l" by (rule up_inv_same [OF link_invD(3) [OF assms(1)]]) simp_all
  ultimately show ?thesis using link_invD(1) [OF assms(1)] by (simp add: link_inv_def node_inv_def)
qed

end
