(* ===== verification/Network_Master.thy ===== *)
theory Network_Master
  imports Network_Inv
begin

section \<open>The invariant of the network under the events of the master\<close>

text \<open>
  The effect of each event of the master on its connections and posted closures, and that it keeps the
  invariant of every link. At the end the network is an instance of \<open>event_system\<close>.
\<close>

subsection \<open>Arrival of a slave\<close>

lemma hello_framed: "slave_ready B s \<Longrightarrow> framed (Packet_encodeData (hello_of B s))"
  by (auto simp: slave_ready_def framed_def)

lemma link_inv_new:
  assumes "slave_ready B s" and "list_all (packet_for B (u_hosts m) 0) qs"
  shows "\<exists>s'. slave_handle B (Connected False) s = Inr s' \<and> link_inv B m accepted_conn qs (link_new s addr s')"
proof -
  let ?p = "Packet_encodeData (hello_of B s)"
  obtain sm where sm: "tm_slave (u_tcp_manager s) = Some sm" "sm_open sm" "u_dir_tree s \<noteq> None"
    and state: "sm_posted sm = [SlavePostWrite ?p] \<and> sm_queue sm = [] \<and> \<not> sm_writing sm \<or>
      sm_posted sm = [] \<and> sm_queue sm = [?p] \<and> sm_writing sm"
    using assms(1) by (auto simp: slave_ready_def Let_def wf_tree_def split: option.splits)
  obtain b where hdr: "slave_do_read_header (sm\<lparr>sm_connecting := False\<rparr>) =
      Inr (sm\<lparr>sm_connecting := False, sm_buffer := b, sm_read := ReadHeader\<rparr>)" (is "_ = Inr ?sm")
    by (simp add: slave_do_read_header_def vec_resize_def Packet_sizeLength_def)
  let ?s' = "set_slave ?sm s"
  have "slave_handle B (Connected False) s = Inr ?s'"
    by (simp add: slave_connect_handler_def slave_of_def sm(1) hdr)
  moreover have "node_inv B (link_new s addr ?s')"
    using assms(1) sm(3) state hello_framed [OF assms(1)]
    by (auto simp: node_inv_def link_new_def slave_posts_def counter_ok_def)
  moreover have "up_inv B accepted_conn (link_new s addr ?s')"
    using state by (auto simp: up_inv_def link_new_def accepted_conn_def conn_new_def slave_posts_def unsent_def awaited_def)
  moreover have "down_inv B m accepted_conn qs (link_new s addr ?s')"
    using assms(2)
    by (auto simp: down_inv_def due_def link_new_def accepted_conn_def conn_new_def unsent_def told_inv_def intro: exI [of _ "[]"])
  ultimately show ?thesis
    by (simp add: link_inv_def conn_inv_def accepted_conn_def conn_new_def counter_ok_def link_new_def)
qed

lemma posts_unaccepted: "posts_ok B m \<Longrightarrow> length (conns m) \<le> h \<Longrightarrow> list_all (packet_for B (u_hosts m) 0) (posts h m)"
  by (force simp: posts_ok_def posts_def post_to_def list_all_iff split: master_post.splits if_splits)

subsection \<open>Links and their connections\<close>

lemma conn_of_update:
  "conns m' = (conns m)[h := c] \<Longrightarrow> h < length (conns m) \<Longrightarrow> conn_of m' k = (if k = h then c else conn_of m k)"
  by (simp add: conn_of_def)

lemma posts_cong: "posted m' = posted m \<Longrightarrow> posts h m' = posts h m"
  by (simp add: posts_def)

lemma posts_snoc: "posted m' = posted m @ [x] \<Longrightarrow> posts h m' = posts h m @ post_to h x"
  by (simp add: posts_def)

text \<open>The octets of a closed connection are no longer the master's concern.\<close>

lemma link_inv_closed:
  assumes "link_inv B m c qs l" and "\<not> mc_open c'" and "l_start l' = l_start l" and "l_slave l' = l_slave l"
    and "l_up_sent l' = l_up_sent l" and "l_down l' = l_down l" and "prefix (u_hosts m) (u_hosts m')"
  shows "link_inv B m' c' qs' l'"
proof -
  have "list_all (\<lambda>p. \<exists>i. packet_for B (u_hosts m') i p) ps" if "due B m c qs l rest ps" for rest ps
    using that packet_for_mono [OF _ assms(7)] by (auto simp: due_def list_all_iff split: if_splits) blast+
  then have "down_inv B m' c' qs' l'"
    using link_invD(4) [OF assms(1)] assms(2,4,6) by (auto simp: down_inv_def due_def [of B m' c'])
  then show ?thesis
    using link_invD(1) [OF assms(1)] assms by (simp add: link_inv_def node_inv_def conn_inv_def up_inv_def)
qed

lemma link_inv_enqueue:
  assumes "link_inv B m c (p # qs) l" and "mc_open c" and "framed p"
  shows "link_inv B m (conn_enqueue p c) qs l"
proof -
  have c: "mc_queue (conn_enqueue p c) = mc_queue c @ [p]" "mc_read (conn_enqueue p c) = mc_read c"
    "mc_packet (conn_enqueue p c) = mc_packet c" "mc_slave_id (conn_enqueue p c) = mc_slave_id c"
    "mc_open (conn_enqueue p c) = mc_open c"
    by (simp_all add: conn_enqueue_def conn_do_write_def Let_def)
  have ctr: "counter_ok (l_down_sent l) (mc_writing c) (mc_queue c)"
    using link_invD(2) [OF assms(1)] assms(2) by (simp add: conn_inv_def)
  then have "mc_writing (conn_enqueue p c)"
    by (simp add: conn_enqueue_def conn_do_write_def Let_def counter_ok_def)
  with counter_push [OF ctr assms(3)] have "conn_inv (conn_enqueue p c) l" by (simp add: conn_inv_def c)
  moreover have "down_inv B m (conn_enqueue p c) qs l"
    unfolding down_inv_def
  proof
    assume "sm_open (lm l)"
    then obtain rest ps where st: "stream_ok (sm_read (lm l)) (sm_packet (lm l)) (l_down l @ rest) ps" and due: "due B m c (p # qs) l rest ps"
      using link_invD(4) [OF assms(1)] by (auto simp: down_inv_def)
    have "due B m (conn_enqueue p c) qs l (rest @ Packet_wire p) (ps @ [p])"
      using due assms(2) ctr by (simp add: due_def c unsent_push counter_ok_def)
    moreover have "stream_ok (sm_read (lm l)) (sm_packet (lm l)) (l_down l @ rest @ Packet_wire p) (ps @ [p])"
      using stream_ok_append [OF st, of "[p]"] by simp
    ultimately show "\<exists>rest ps. stream_ok (sm_read (lm l)) (sm_packet (lm l)) (l_down l @ rest) ps \<and> due B m (conn_enqueue p c) qs l rest ps"
      by blast
  qed
  moreover have "up_inv B (conn_enqueue p c) l" using link_invD(3) [OF assms(1)] by (simp add: up_inv_def c)
  ultimately show ?thesis using link_invD(1) [OF assms(1)] by (simp add: link_inv_def)
qed

text \<open>A closure that writes to all connections passes a link that is not accepted yet.\<close>

lemma link_inv_drop_post:
  assumes "link_inv B m c (p # qs) l" and "mc_slave_id c = 0"
  shows "link_inv B m c qs l"
proof -
  have "due B m c qs l rest ps" if "due B m c (p # qs) l rest ps" for rest ps
    using that assms(2) by (auto simp: due_def told_inv_def split: if_splits)
  then show ?thesis using assms(1) by (auto simp: link_inv_def down_inv_def)
qed

subsection \<open>Events that change one connection\<close>

lemma map_link_sel [simp]:
  "n_master (map_link h f n) = n_master n" "length (n_links (map_link h f n)) = length (n_links n)"
  by (simp_all add: map_link_def)

lemma map_link_nth:
  "k < length (n_links n) \<Longrightarrow> n_links (map_link h f n) ! k = (if k = h then f (n_links n ! h) else n_links n ! k)"
  by (simp add: map_link_def)

lemma accepting_set_conn [simp]: "accepting (set_conn h c fs) = accepting fs"
  by (simp add: accepting_def set_conn_def map_master_def split: option.split)

lemma net_bounds_meta:
  "u_dir_tree (n_master n') = u_dir_tree (n_master n) \<Longrightarrow> u_hosts (n_master n') = u_hosts (n_master n) \<Longrightarrow>
     u_max_host_id (n_master n') = u_max_host_id (n_master n) \<Longrightarrow> net_bounds B n' = net_bounds B n"
  by (simp add: net_bounds_def fits_def update_of_def)

lemma net_inv_conn:
  assumes "net_inv B n" and "h < length (conns (n_master n))"
    and "mc_slave_id c = mc_slave_id (conns (n_master n) ! h)" and "mc_open c = mc_open (conns (n_master n) ! h)"
    and "link_inv B (n_master n) c (posts h (n_master n)) (f (n_links n ! h))"
  shows "net_inv B ((map_link h f n)\<lparr>n_master := set_conn h c (n_master n)\<rparr>)"
proof -
  let ?m = "n_master n" and ?m' = "set_conn h c (n_master n)"
  have "link_inv B ?m' (conn_of ?m' k) (posts k ?m') (n_links (map_link h f n) ! k)" if k: "k < length (n_links n)" for k
  proof -
    have "conn_of ?m' k = (if k = h then c else conn_of ?m k)" using assms(2) by (simp add: conn_of_update)
    moreover have "posts k ?m' = posts k ?m" by (rule posts_cong) simp
    moreover have "link_inv B ?m (conn_of ?m k) (posts k ?m) (n_links n ! k)" using assms(1) k by (simp add: net_inv_def)
    ultimately show ?thesis
      using assms(5) k link_inv_quiet [of ?m' ?m B] by (simp add: map_link_nth)
  qed
  moreover have "master_inv ?m'" using assms(1,3,4) by (intro set_conn_keeps_inv) (simp_all add: net_inv_def)
  moreover have "posts_ok B ?m'" using assms(1) by (simp add: net_inv_def posts_ok_def)
  moreover have "net_bounds B ((map_link h f n)\<lparr>n_master := ?m'\<rparr>) = net_bounds B n" by (rule net_bounds_meta) simp_all
  ultimately show ?thesis using assms(1) by (simp add: net_inv_def)
qed

lemma net_inv_link:
  assumes "net_inv B n" and "h < length (n_links n)"
  shows "link_inv B (n_master n) (conn_of (n_master n) h) (posts h (n_master n)) (n_links n ! h)"
  using assms by (simp add: net_inv_def)

lemma net_inv_conn_link:
  assumes "net_inv B n" and "h < length (conns (n_master n))"
  shows "link_inv B (n_master n) (conns (n_master n) ! h) (posts h (n_master n)) (n_links n ! h)"
    and "conn_at h (n_master n) = Inr (conns (n_master n) ! h)"
  using net_inv_link [OF assms(1), of h] assms by (simp_all add: conn_of_def net_inv_def conn_at_Inr)

lemma link_inv_conn_same:
  assumes "link_inv B m c qs l" and "mc_open c' = mc_open c" and "mc_slave_id c' = mc_slave_id c"
    and "mc_queue c' = mc_queue c" and "mc_writing c' = mc_writing c" and "l_down_sent l' = l_down_sent l"
    and "l_start l' = l_start l" and "l_slave l' = l_slave l" and "l_up_sent l' = l_up_sent l" and "l_down l' = l_down l"
    and "up_inv B c' l'"
  shows "link_inv B m c' qs l'"
proof -
  have "due B m c' qs l' rest ps" if "due B m c qs l rest ps" for rest ps
    using that assms(2-8) by (auto simp: due_def split: if_splits)
  then show ?thesis
    using assms(1,11) by (auto simp: link_inv_def node_inv_def conn_inv_def down_inv_def assms(2-10))
qed

lemma net_master_header:
  assumes "net_inv B n" and "master_enabled (HeaderRead h False data) n"
  shows "\<exists>n'. net_handle B (MasterEvent (HeaderRead h False data)) n = Inr n' \<and> net_inv B n'"
proof -
  let ?m = "n_master n" and ?l = "n_links n ! h"
  let ?c = "conns ?m ! h"
  have h: "h < length (conns ?m)" and rd: "mc_read ?c = ReadHeader" "mc_open ?c" "take (length data) (l_up ?l) = data"
    "length data = Packet_sizeLength"
    using assms(2) by (auto simp: Let_def)
  note link = net_inv_conn_link [OF assms(1) h]
  let ?ps = "awaited B (mc_slave_id ?c) (l_start ?l)"
  obtain rest where st: "stream_ok ReadHeader (mc_packet ?c) (l_up ?l @ rest) ?ps"
    and rest: "sm_open (lm ?l) \<longrightarrow> rest = unsent (l_up_sent ?l) (sm_queue (lm ?l)) @ concat (map Packet_wire (slave_posts (lm ?l)))"
    using link_invD(3) [OF link(1)] rd(1,2) by (auto simp: up_inv_def)
  have "list_all framed ?ps" using link_invD(1) [OF link(1)] hello_framed by (simp add: node_inv_def awaited_def)
  from stream_header [OF st this rd(3,4)] obtain p
    where p: "\<And>q r. Packet_decodeSize (data @ r) q = Inr (q\<lparr>pkt_size := pkt_size (Packet_received p)\<rparr>)"
      "\<And>q. stream_ok ReadBody (q\<lparr>pkt_size := pkt_size (Packet_received p)\<rparr>) (drop (length data) (l_up ?l) @ rest) ?ps"
      "unat (pkt_size (Packet_received p)) < 2 ^ 48" by metis
  let ?k = "pkt_size (Packet_received p)"
  obtain b where b: "vec_resize (unat ?k) (fill data (mc_buffer ?c)) = Inr b"
    using vec_resize_ok [of "unat ?k" "fill data (mc_buffer ?c)"] p(3) by auto
  let ?c' = "?c\<lparr>mc_packet := (mc_packet ?c)\<lparr>pkt_size := ?k\<rparr>, mc_buffer := b, mc_read := ReadBody\<rparr>"
  let ?f = "\<lambda>l. l\<lparr>l_up := drop (length data) (l_up l)\<rparr>"
  have "master_handle B (HeaderRead h False data) ?m = Inr (set_conn h ?c' ?m)"
    using rd(4) b p(1) by (simp add: master_header_handler_def link(2) fill_def conn_do_read_body_def)
  moreover have "up_inv B ?c' (?f ?l)" using p(2) rest by (auto simp: up_inv_def simp del: stream_ok.simps intro!: exI [of _ rest])
  then have "net_inv B ((map_link h ?f n)\<lparr>n_master := set_conn h ?c' ?m\<rparr>)"
    by (intro net_inv_conn [OF assms(1) h] link_inv_conn_same [OF link(1)]) simp_all
  ultimately show ?thesis by simp
qed

lemma net_master_written:
  assumes "net_inv B n" and "master_enabled (Written h False k) n"
  shows "\<exists>n'. net_handle B (MasterEvent (Written h False k)) n = Inr n' \<and> net_inv B n'"
proof -
  let ?m = "n_master n" and ?l = "n_links n ! h"
  let ?c = "conns ?m ! h"
  let ?q = "mc_queue ?c" and ?c' = "conn_write_finished ?c" and ?f = "\<lambda>l. l\<lparr>l_down_sent := 0\<rparr>"
  have h: "h < length (conns ?m)" and wr: "mc_writing ?c" "mc_open ?c" "k = l_down_sent ?l" "?q \<noteq> [] \<Longrightarrow> k = length (front_wire ?q)"
    using assms(2) by (auto simp: Let_def)
  note link = net_inv_conn_link [OF assms(1) h]
  have counter: "counter_ok k (mc_writing ?c) ?q" using link_invD(2) [OF link(1)] wr(2,3) by (simp add: conn_inv_def)
  then obtain p r where q: "?q = p # r" using wr(1) by (cases ?q) (auto simp: counter_ok_def)
  have size: "k = length (front_wire ?q)" "k = unat (pkt_size p)" using wr(4) q counter_size [OF counter q] by auto
  have fin: "mc_queue ?c' = tl ?q" "mc_writing ?c' = (tl ?q \<noteq> [])" "mc_read ?c' = mc_read ?c" "mc_packet ?c' = mc_packet ?c"
    "mc_open ?c' = mc_open ?c" "mc_slave_id ?c' = mc_slave_id ?c"
    using master_queue.queue_finish [of ?c] master_queue.writing_finish [of ?c]
    by (simp_all add: conn_write_finished_def conn_do_write_def Let_def)
  have un: "unsent 0 (tl ?q) = unsent (l_down_sent ?l) ?q" using unsent_finished size(1) wr(3) by metis
  have "due B ?m ?c' (posts h ?m) (?f ?l) rest ps" if "due B ?m ?c (posts h ?m) ?l rest ps" for rest ps
    using that by (auto simp: due_def fin un split: if_splits)
  then have "down_inv B ?m ?c' (posts h ?m) (?f ?l)"
    using link_invD(4) [OF link(1)] by (auto simp: down_inv_def)
  moreover have "conn_inv ?c' (?f ?l)" using counter_tl [OF counter] by (simp add: conn_inv_def fin)
  moreover have "up_inv B ?c' (?f ?l)" using link_invD(3) [OF link(1)] by (simp add: up_inv_def fin)
  ultimately have "link_inv B ?m ?c' (posts h ?m) (?f ?l)"
    using link_invD(1) [OF link(1)] by (simp add: link_inv_def node_inv_def)
  then have "net_inv B ((map_link h ?f n)\<lparr>n_master := set_conn h ?c' ?m\<rparr>)"
    using fin by (intro net_inv_conn [OF assms(1) h]) simp_all
  moreover have "master_handle B (Written h False k) ?m = Inr (set_conn h ?c' ?m)"
    using q size(2) by (simp add: master_write_handler_def link(2))
  ultimately show ?thesis by simp
qed

subsection \<open>Closing a connection\<close>

lemma accepting_update [simp]:
  "accepting (fs\<lparr>u_dir_tree := d\<rparr>) = accepting fs" "accepting (fs\<lparr>u_hosts := hs\<rparr>) = accepting fs"
  "accepting (fs\<lparr>u_max_host_id := k\<rparr>) = accepting fs" "accepting (fs\<lparr>u_dir_tree := d, u_hosts := hs\<rparr>) = accepting fs"
  by (simp_all add: accepting_def)

lemma sendUpdate_accepting: "UserFS_sendUpdate_seq ts hs fs = Inr fs' \<Longrightarrow> accepting fs \<Longrightarrow> accepting fs'"
  by (auto simp: UserFS_sendUpdate_seq_def TCPManager_write_def accepting_def TCPMasterMessager_write_def res_bind_eq_Inr Let_def
      split: if_splits option.splits)

lemma close_accepting: "TCPMasterMessager_close B h fs = Inr fs' \<Longrightarrow> accepting fs \<Longrightarrow> accepting fs'"
  by (auto simp: TCPMasterMessager_close_def UserFS_disconnect_slave_def UserFS_sendUpdate_def res_bind_eq_Inr
      split: if_splits elim!: sendUpdate_accepting)

text \<open>What closing does, whether the connection is still open or not, and whether it has a slave or not.\<close>

lemma close_effect:
  assumes "master_inv m" and "h < length (conns m)"
  obtains m' c where "TCPMasterMessager_close B h m = Inr m'" and "master_inv m'" and "conns m' = (conns m)[h := c]"
    and "\<not> mc_open c" and "mc_slave_id c = 0" and "u_hosts m' = u_hosts m" and "u_max_host_id m' = u_max_host_id m"
    and "u_dir_tree m' = u_dir_tree m \<and> posted m' = posted m \<or>
      posted m' = posted m @ [PostWrite (Packet_encodeData (update_of B m'))]"
proof -
  obtain r where r: "u_dir_tree m = Some r" using master_inv_tree [OF assms(1)] by blast
  have role: "master_role m" using assms(1) by (simp add: master_inv_def)
  show thesis
  proof (cases "mc_open (conns m ! h)")
    case False
    then have "mc_slave_id (conns m ! h) = 0" using assms by (auto simp: master_inv_def conns_inv_def list_all_iff)
    with False close_closed [OF role assms(2) False] assms(1) show thesis by (intro that [of m "conns m ! h"]) simp_all
  next
    case True
    obtain m' where close: "TCPMasterMessager_close B h m = Inr m'" and same: "same_but_posted (left h m) m'"
      and post: "posted m' = posted m @ (if mc_slave_id (conns m ! h) = 0 then [] else [PostWrite (Packet_encodeData (update_of B m'))])"
      using close_implements_left [OF role r assms(2) True, of B] same_but_posted_of(1) by auto
    have "u_dir_tree m' = u_dir_tree m" if "mc_slave_id (conns m ! h) = 0"
      using same left_unrecognised [OF that] by (simp add: same_but_posted_def)
    with close same post close_keeps_inv [OF assms(1) close] show thesis
      by (intro that [of m' "(conn_close (conns m ! h))\<lparr>mc_slave_id := 0\<rparr>"]) (simp_all add: same_but_posted_def conn_close_def)
  qed
qed

lemma net_inv_update_all:
  assumes "net_inv B n" and "master_inv m'" and "accepting m'" and "net_bounds B n'"
    and "n_master n' = m'" and "length (n_links n') = length (n_links n)" and "length (conns m') = length (conns (n_master n))"
    and "\<And>k. k < length (n_links n) \<Longrightarrow> k \<noteq> h \<Longrightarrow> conn_of m' k = conn_of (n_master n) k \<and> n_links n' ! k = n_links n ! k"
    and "h < length (n_links n) \<Longrightarrow> link_inv B m' (conn_of m' h) (posts h m') (n_links n' ! h)"
    and "u_dir_tree m' = u_dir_tree (n_master n) \<and> u_hosts m' = u_hosts (n_master n) \<and> posted m' = posted (n_master n) \<or>
      posted m' = posted (n_master n) @ [PostWrite (Packet_encodeData (update_of B m'))]"
    and "u_hosts m' = u_hosts (n_master n)"
  shows "net_inv B n'"
proof -
  let ?m = "n_master n" and ?u = "Packet_encodeData (update_of B m')"
  have u: "packet_for B (u_hosts m') 0 ?u" using assms(2,4,5) by (intro packet_for_update) (simp_all add: net_bounds_def)
  have "link_inv B m' (conn_of m' k) (posts k m') (n_links n' ! k)" if k: "k < length (n_links n)" for k
  proof (cases "k = h")
    case True
    with assms(9) k show ?thesis by simp
  next
    case False
    note link = net_inv_link [OF assms(1) k]
    from assms(10) show ?thesis
    proof
      assume "u_dir_tree m' = u_dir_tree ?m \<and> u_hosts m' = u_hosts ?m \<and> posted m' = posted ?m"
      with link link_inv_quiet [of m' ?m B] assms(8) [OF k False] posts_cong [of m' ?m k] show ?thesis by simp
    next
      assume "posted m' = posted ?m @ [PostWrite ?u]"
      with link_inv_update [OF link u] assms(11) assms(8) [OF k False] show ?thesis by (simp add: posts_snoc post_to_def)
    qed
  qed
  moreover have "posts_ok B m'" using assms(1,7,10,11) u by (auto simp: net_inv_def posts_ok_def)
  ultimately show ?thesis using assms by (simp add: net_inv_def)
qed

lemma net_master_close:
  assumes "net_inv B n" and "h < length (conns (n_master n))"
    and "mc_slave_id c = mc_slave_id (conns (n_master n) ! h)" and "mc_open c = mc_open (conns (n_master n) ! h)"
    and "\<And>l. l_start (f l) = l_start l \<and> l_slave (f l) = l_slave l \<and> l_up_sent (f l) = l_up_sent l \<and> l_down (f l) = l_down l"
  shows "\<exists>m'. TCPMasterMessager_close B h (set_conn h c (n_master n)) = Inr m' \<and>
    (net_bounds B ((map_link h f n)\<lparr>n_master := m'\<rparr>) \<longrightarrow> net_inv B ((map_link h f n)\<lparr>n_master := m'\<rparr>))"
proof -
  let ?m = "n_master n" and ?m1 = "set_conn h c (n_master n)"
  have inv: "master_inv ?m" "accepting ?m" and len: "h < length (n_links n)" using assms(1,2) by (simp_all add: net_inv_def)
  have inv1: "master_inv ?m1" using inv(1) assms(3,4) by (intro set_conn_keeps_inv)
  obtain m' c' where m': "TCPMasterMessager_close B h ?m1 = Inr m'" "master_inv m'" "conns m' = (conns ?m1)[h := c']"
    and c': "\<not> mc_open c'" and meta: "u_hosts m' = u_hosts ?m1" "u_max_host_id m' = u_max_host_id ?m1"
      "u_dir_tree m' = u_dir_tree ?m1 \<and> posted m' = posted ?m1 \<or> posted m' = posted ?m1 @ [PostWrite (Packet_encodeData (update_of B m'))]"
    by (rule close_effect [OF inv1]) (use assms(2) in simp)
  have conns: "conns m' = (conns ?m)[h := c']" using m'(3) by simp
  have "link_inv B m' (conn_of m' h) (posts h m') (n_links (map_link h f n) ! h)"
    using link_inv_closed [OF net_inv_link [OF assms(1) len] c', of "f (n_links n ! h)" m' "posts h m'"] assms(2,5) len meta(1)
    by (simp add: conn_of_update [OF conns] map_link_nth)
  then have "net_inv B ((map_link h f n)\<lparr>n_master := m'\<rparr>)" if "net_bounds B ((map_link h f n)\<lparr>n_master := m'\<rparr>)"
    using that m'(2) close_accepting [OF m'(1)] inv(2) conns assms(2) meta
    by (intro net_inv_update_all [OF assms(1), of m' _ h]) (auto simp: conn_of_update [OF conns] map_link_nth)
  with m'(1) show ?thesis by blast
qed

lemma net_master_error:
  assumes "net_inv B n" and "master_enabled ev n"
    and "(\<exists>h data. ev = HeaderRead h True data) \<or> (\<exists>h data remote. ev = BodyRead h True data remote) \<or> (\<exists>h k. ev = Written h True k)"
  shows "\<exists>n'. net_handle B (MasterEvent ev) n = Inr n' \<and> (net_bounds B n' \<longrightarrow> net_inv B n')"
  using assms(3)
proof (elim disjE exE)
  fix h data
  assume ev: "ev = HeaderRead h True data"
  then have h: "h < length (conns (n_master n))" using assms(2) by simp
  let ?c = "conns (n_master n) ! h"
  show ?thesis
    using net_master_close [OF assms(1) h, of "?c\<lparr>mc_buffer := fill data (mc_buffer ?c), mc_read := NoRead\<rparr>"
        "\<lambda>l. l\<lparr>l_up := drop (length data) (l_up l)\<rparr>"]
    by (auto simp: ev master_header_handler_def net_inv_conn_link(2) [OF assms(1) h] Let_def)
next
  fix h data remote
  assume ev: "ev = BodyRead h True data remote"
  then have h: "h < length (conns (n_master n))" using assms(2) by simp
  let ?c = "conns (n_master n) ! h"
  show ?thesis
    using net_master_close [OF assms(1) h, of "?c\<lparr>mc_buffer := fill data (mc_buffer ?c), mc_read := NoRead\<rparr>"
        "\<lambda>l. l\<lparr>l_up := drop (length data) (l_up l)\<rparr>"]
    by (auto simp: ev master_body_handler_def net_inv_conn_link(2) [OF assms(1) h] Let_def)
next
  fix h k
  assume ev: "ev = Written h True k"
  then have h: "h < length (conns (n_master n))" using assms(2) by simp
  show ?thesis
    using net_master_close [OF assms(1) h, of "(conns (n_master n) ! h)\<lparr>mc_writing := False\<rparr>" "\<lambda>l. l\<lparr>l_down_sent := 0\<rparr>"]
    by (auto simp: ev master_write_handler_def net_inv_conn_link(2) [OF assms(1) h])
qed

subsection \<open>A slave is recognised\<close>

lemma writeTo_accepting:
  "TCPManager_writeTo msg h (u_tcp_manager fs) = Inr tm \<Longrightarrow> accepting fs \<Longrightarrow> accepting (fs\<lparr>u_tcp_manager := tm\<rparr>)"
  by (auto simp: TCPManager_writeTo_def TCPMasterMessager_writeTo_def accepting_def res_bind_eq_Inr split: option.splits)

lemma newConnection_accepting:
  assumes "UserFS_newConnection B remote ts hs h fs = Inr fs'" and "accepting fs"
  shows "accepting fs'"
proof -
  have acc: "accepting (set_conn h c (fs\<lparr>u_max_host_id := k\<rparr>)\<lparr>u_dir_tree := d, u_hosts := hs\<rparr>)" for c k d hs
    using assms(2) by simp
  show ?thesis
    using assms
    by (auto simp: UserFS_newConnection_def res_bind_eq_Inr Let_def simp del: accepting_update split: if_splits
        dest: close_accepting intro: sendUpdate_accepting [OF _ writeTo_accepting [OF _ acc]])
qed

text \<open>
  The body of a packet that a master reads is the hello message of the slave at the other end, on an
  open connection that has no slave yet: nothing else is ever under way.
\<close>

lemma net_join_effect:
  assumes "net_inv B n" and "master_enabled (BodyRead h False data remote) n"
  obtains m' b p where "master_handle B (BodyRead h False data remote) (n_master n) = Inr m'"
    and "fresh_connection h (n_master n)" and "master_inv m'" and "accepting m'"
    and "data = hello_of B (l_start (n_links n ! h))" and "remote = l_addr (n_links n ! h)"
    and "u_dir_tree m' = u_dir_tree (joined remote (own_tree (l_start (n_links n ! h))) (own_host (l_start (n_links n ! h))) h (n_master n))"
    and "u_hosts m' = u_hosts (joined remote (own_tree (l_start (n_links n ! h))) (own_host (l_start (n_links n ! h))) h (n_master n))"
    and "u_max_host_id m' = u_max_host_id (n_master n) + 1"
    and "conns m' = (conns (n_master n))[h := (conns (n_master n) ! h)\<lparr>mc_packet := p, mc_slave_id := u_max_host_id (n_master n),
      mc_buffer := b, mc_read := ReadHeader\<rparr>]"
    and "posted m' = posted (n_master n) @ [PostWriteTo (Packet_encodeData (recognition_of B (u_max_host_id (n_master n)) m')) h,
      PostWrite (Packet_encodeData (update_of B m'))]"
    and "\<forall>q rest. stream_ok ReadBody (mc_packet (conns (n_master n) ! h)) (l_up (n_links n ! h) @ rest) (awaited B 0 (l_start (n_links n ! h))) \<longrightarrow>
      stream_ok ReadHeader q (drop (length data) (l_up (n_links n ! h)) @ rest) []"
proof -
  let ?m = "n_master n" and ?l = "n_links n ! h"
  let ?c = "conns ?m ! h" and ?s = "l_start ?l"
  have h: "h < length (conns ?m)" and rd: "mc_read ?c = ReadBody" "mc_open ?c" "take (length data) (l_up ?l) = data"
    "length data = unat (pkt_size (mc_packet ?c))" and remote: "remote = l_addr ?l"
    using assms(2) by (auto simp: Let_def)
  note link = net_inv_conn_link [OF assms(1) h]
  have ready: "slave_ready B ?s" using link_invD(1) [OF link(1)] by (simp add: node_inv_def)
  obtain rest where st: "stream_ok ReadBody (mc_packet ?c) (l_up ?l @ rest) (awaited B (mc_slave_id ?c) ?s)"
    using link_invD(3) [OF link(1)] rd(1,2) by (auto simp: up_inv_def)
  then have id: "mc_slave_id ?c = 0" by (auto simp: awaited_def split: if_splits)
  have fr: "list_all framed (awaited B (mc_slave_id ?c) ?s)" using hello_framed [OF ready] by (simp add: awaited_def)
  obtain p0 ps0 where "awaited B (mc_slave_id ?c) ?s = p0 # ps0" "data = pkt_data (Packet_received p0)"
    by (rule stream_body [OF st fr rd(3,4)]) blast
  then have data: "data = hello_of B ?s" by (auto simp: id awaited_def received_encode)
  have after: "stream_ok ReadHeader q (drop (length data) (l_up ?l) @ rest) []"
    if "stream_ok ReadBody (mc_packet ?c) (l_up ?l @ rest) (awaited B 0 ?s)" for q rest
    by (rule stream_body [OF that fr [unfolded id] rd(3,4)]) (simp add: awaited_def del: stream_ok.simps)
  obtain t where t: "u_dir_tree ?s = Some t" "own_tree ?s = t" "wf_tree (Some t)"
    using ready by (auto simp: slave_ready_def wf_tree_def own_tree_def split: option.splits)
  have inv: "master_inv ?m" "accepting ?m" and max: "unat (u_max_host_id ?m) < 2 ^ 48" and B: "archive_lossless B"
    using assms(1) by (simp_all add: net_inv_def net_bounds_def fits_def)
  have fresh: "fresh_connection h ?m" using h rd(2) id max by (simp add: fresh_connection_def)
  obtain r where r: "u_dir_tree ?m = Some r" using master_inv_tree [OF inv(1)] by blast
  have hello: "hello_of B ?s = hello_message (DirTree_serialize B (Some t)) (Host_serialize B (own_host ?s))"
    by (simp add: hello_of_def t(1))
  obtain m' where m': "master_body_handler B h False data remote ?m = Inr m'"
    "u_dir_tree m' = u_dir_tree (joined remote t (own_host ?s) h ?m)" "u_hosts m' = u_hosts (joined remote t (own_host ?s) h ?m)"
    "u_max_host_id m' = u_max_host_id ?m + 1"
    "\<exists>b p. conns m' = (conns ?m)[h := ?c\<lparr>mc_packet := p, mc_slave_id := u_max_host_id ?m, mc_buffer := b, mc_read := ReadHeader\<rparr>]"
    "posted m' = posted ?m @ [PostWriteTo (Packet_encodeData (recognition_of B (u_max_host_id ?m) m')) h, PostWrite (Packet_encodeData (update_of B m'))]"
    using body_handler_hello [OF inv(1) fresh r, of "DirTree_serialize B (Some t)" "Host_serialize B (own_host ?s)" B t "own_host ?s" remote]
      rd(4) ready B t(3) by (auto simp: data hello codec_simps slave_ready_def)
  have "master_inv m'" using body_handler_keeps_inv [OF inv(1) _ m'(1)] fresh by blast
  moreover have "accepting m'"
    using m'(1) inv(2) newConnection_accepting
    by (auto simp: master_body_handler_def link(2) Let_def rd(4) TCPManager_read_master_def res_bind_eq_Inr split: if_splits)
  ultimately show thesis
    using m' fresh data remote after t(2) by (auto intro!: that)
qed

lemma length_recognition: "length (recognition_of B i m) = length (update_of B m) + 8"
  by (simp add: recognition_of_def recognition_message_def update_of_def update_message_def wire64.length_enc)

lemma due_join:
  assumes "due B m c qs l rest ps" and "mc_open c" and "mc_slave_id c = 0" and "mc_open c'" and "mc_queue c' = mc_queue c"
    and "mc_slave_id c' = i" and "i \<noteq> 0" and "unat i < 2 ^ 48" and "master_inv m'" and "fits B m'" and "length (update_of B m') + 8 < 2 ^ 48"
    and "l_down_sent l' = l_down_sent l" and "prefix (u_hosts m) (u_hosts m')"
  shows "due B m' c' (qs @ [Packet_encodeData (recognition_of B i m'), Packet_encodeData (update_of B m')]) l' rest ps"
proof -
  have rec: "recognition_for B (u_hosts m') i (Packet_encodeData (recognition_of B i m'))"
    using assms(7-10) by (auto simp: recognition_for_def earlier_def)
  have "framed (Packet_encodeData (recognition_of B i m'))"
    using assms(11) by (auto simp: framed_def length_recognition intro!: exI [of _ "recognition_of B i m'"])
  with rec have "packet_for B (u_hosts m') i (Packet_encodeData (recognition_of B i m'))" by (simp add: packet_for_def)
  moreover have "packet_for B (u_hosts m') i (Packet_encodeData (update_of B m'))" by (rule packet_for_update [OF assms(9-11)])
  moreover have "list_all (packet_for B (u_hosts m') i) (ps @ qs)"
    using assms(1-3) packet_for_mono [OF packet_for_0 assms(13)] by (auto simp: due_def list_all_iff)
  ultimately show ?thesis
    using assms(1-6,12) rec by (simp add: due_def told_inv_def slave_ok_def)
qed

lemma net_master_join:
  assumes "net_inv B n" and "master_enabled (BodyRead h False data remote) n"
  shows "\<exists>n'. net_handle B (MasterEvent (BodyRead h False data remote)) n = Inr n' \<and> (net_bounds B n' \<longrightarrow> net_inv B n')"
proof -
  let ?m = "n_master n" and ?l = "n_links n ! h" and ?f = "\<lambda>l. l\<lparr>l_up := drop (length data) (l_up l)\<rparr>"
  let ?c = "conns ?m ! h" and ?i = "u_max_host_id (n_master n)"
  obtain m' b p where m': "master_handle B (BodyRead h False data remote) ?m = Inr m'" "fresh_connection h ?m" "master_inv m'" "accepting m'"
    and hosts: "u_hosts m' = u_hosts (joined remote (own_tree (l_start ?l)) (own_host (l_start ?l)) h ?m)"
    and conns: "conns m' = (conns ?m)[h := ?c\<lparr>mc_packet := p, mc_slave_id := ?i, mc_buffer := b, mc_read := ReadHeader\<rparr>]"
    and post: "posted m' = posted ?m @ [PostWriteTo (Packet_encodeData (recognition_of B ?i m')) h, PostWrite (Packet_encodeData (update_of B m'))]"
    and after: "\<forall>q rest. stream_ok ReadBody (mc_packet ?c) (l_up ?l @ rest) (awaited B 0 (l_start ?l)) \<longrightarrow>
      stream_ok ReadHeader q (drop (length data) (l_up ?l) @ rest) []"
    by (rule net_join_effect [OF assms]) blast
  let ?c' = "?c\<lparr>mc_packet := p, mc_slave_id := ?i, mc_buffer := b, mc_read := ReadHeader\<rparr>"
  let ?n = "(map_link h ?f n)\<lparr>n_master := m'\<rparr>"
  have h: "h < length (conns ?m)" and c: "mc_open ?c" "mc_slave_id ?c = 0" using m'(2) by (simp_all add: fresh_connection_def)
  have len: "h < length (n_links n)" and inv: "conns_inv ?m" "hosts_inv ?m" "unat ?i < 2 ^ 48"
    using assms(1) h by (simp_all add: net_inv_def master_inv_def net_bounds_def fits_def)
  have i: "?i \<noteq> 0" using next_id_fresh(2) [OF inv(1,2)] .
  note link = net_inv_conn_link [OF assms(1) h]
  have posts: "posts k m' = posts k ?m @ (if k = h then [Packet_encodeData (recognition_of B ?i m')] else []) @ [Packet_encodeData (update_of B m')]" for k
    by (simp add: posts_def post post_to_def)
  have "net_inv B ?n" if bounds: "net_bounds B ?n"
  proof -
    have small: "fits B m'" "length (update_of B m') + 8 < 2 ^ 48" using bounds by (simp_all add: net_bounds_def)
    have u: "packet_for B (u_hosts m') 0 (Packet_encodeData (update_of B m'))" using packet_for_update [OF m'(3) small] .
    have grown: "prefix (u_hosts ?m) (u_hosts m')" by (simp add: hosts)
    have "mc_read ?c = ReadBody" using assms(2) by (simp add: Let_def)
    then obtain rest where "stream_ok ReadBody (mc_packet ?c) (l_up ?l @ rest) (awaited B 0 (l_start ?l))"
      and rest: "sm_open (lm ?l) \<longrightarrow> rest = unsent (l_up_sent ?l) (sm_queue (lm ?l)) @ concat (map Packet_wire (slave_posts (lm ?l)))"
      using link_invD(3) [OF link(1)] c by (auto simp: up_inv_def)
    with after have "stream_ok ReadHeader p (drop (length data) (l_up ?l) @ rest) []" by blast
    with rest i have "up_inv B ?c' (?f ?l)" by (auto simp: up_inv_def awaited_def)
    moreover have "down_inv B m' ?c' (posts h m') (?f ?l)"
      using link_invD(4) [OF link(1)] due_join [OF _ c, of B ?m "posts h ?m" ?l _ _ ?c' ?i m' "?f ?l"] c i inv(3) m'(3) small grown
      by (auto simp: down_inv_def posts)
    ultimately have "link_inv B m' ?c' (posts h m') (?f ?l)"
      using link_invD(1,2) [OF link(1)] by (simp add: link_inv_def node_inv_def conn_inv_def)
    moreover have "link_inv B m' (conn_of m' k) (posts k m') (n_links n ! k)" if "k < length (n_links n)" "k \<noteq> h" for k
      using link_inv_update [OF net_inv_link [OF assms(1) that(1)] u grown] that(2) h by (simp add: posts conn_of_update [OF conns])
    moreover have "framed (Packet_encodeData (recognition_of B ?i m'))"
      using small(2) by (auto simp: framed_def length_recognition intro!: exI [of _ "recognition_of B ?i m'"])
    then have "posts_ok B m'" using assms(1) u h grown by (auto simp: net_inv_def posts_ok_def post conns list_all_iff intro: post_ok_mono)
    ultimately show ?thesis
      using assms(1) m'(3,4) bounds h by (simp add: net_inv_def conns map_link_nth conn_of_update [OF conns])
  qed
  with m'(1) show ?thesis by simp
qed

subsection \<open>Accepting, and running closures\<close>

lemma net_master_accept:
  assumes "net_inv B n" and "master_enabled (Accepted ec) n"
  shows "\<exists>n'. net_handle B (MasterEvent (Accepted ec)) n = Inr n' \<and> net_inv B n'"
proof -
  let ?m = "n_master n"
  obtain mm where mm: "tm_master (u_tcp_manager ?m) = Some mm"
    using assms(1) by (auto simp: net_inv_def master_inv_def master_role_def)
  let ?new = "if ec then [] else [accepted_conn]"
  let ?m' = "?m\<lparr>u_tcp_manager := (u_tcp_manager ?m)\<lparr>tm_master := Some (mm\<lparr>mm_connections := mm_connections mm @ ?new, mm_accepting := True\<rparr>)\<rparr>\<rparr>"
  have "do_new_connection conn_new = Inr accepted_conn"
    by (simp add: do_new_connection_def conn_do_read_header_def vec_resize_def accepted_conn_def conn_new_def Packet_sizeLength_def)
  then have ev: "master_handle B (Accepted ec) ?m = Inr ?m'"
    by (simp add: run_master_def mm master_accept_def)
  have conns: "conns ?m' = conns ?m @ ?new" "posted ?m' = posted ?m" "accepting ?m'"
    by (simp_all add: conns_def posted_def accepting_def mm)
  have "conn_of ?m' k = conn_of ?m k" "posts k ?m' = posts k ?m" for k
    by (auto simp: conn_of_def conns nth_append posts_def)
  then have "link_inv B ?m' (conn_of ?m' k) (posts k ?m') (n_links n ! k)" if "k < length (n_links n)" for k
    using net_inv_link [OF assms(1) that] link_inv_quiet [of ?m' ?m B] by simp
  moreover have "master_inv ?m'" using assms(1) ev by (intro master_handle_keeps_inv [OF _ _ ev]) (simp_all add: net_inv_def polite_def)
  moreover have "posts_ok B ?m'" using assms(1) by (rule_tac posts_ok_mono [of B ?m]) (simp_all add: net_inv_def conns)
  moreover have "net_bounds B (n\<lparr>n_master := ?m'\<rparr>) = net_bounds B n" by (rule net_bounds_meta) simp_all
  moreover have "length (conns ?m') \<le> length (n_links n)"
    unfolding conns(1) using assms by (cases ec) (simp_all add: net_inv_def)
  ultimately have "net_inv B (n\<lparr>n_master := ?m'\<rparr>)" using assms(1) conns(3) by (simp add: net_inv_def)
  with ev show ?thesis by simp
qed

lemma run_post_state:
  assumes "master_inv m"
  obtains mm m' where "tm_master (u_tcp_manager m) = Some mm" and "master_handle B RunPost m = Inr m'" and "master_inv m'"
    and "u_dir_tree m' = u_dir_tree m" and "u_hosts m' = u_hosts m" and "u_max_host_id m' = u_max_host_id m"
    and "accepting m' = accepting m" and "posted m' = tl (posted m)" and "conns m' = mm_connections (master_run_post mm)"
    and "conns m = mm_connections mm" and "posted m = mm_posted mm"
proof -
  obtain mm where mm: "tm_master (u_tcp_manager m) = Some mm" using assms by (auto simp: master_inv_def master_role_def)
  let ?m' = "m\<lparr>u_tcp_manager := (u_tcp_manager m)\<lparr>tm_master := Some (master_run_post mm)\<rparr>\<rparr>"
  have ev: "master_handle B RunPost m = Inr ?m'" by (simp add: run_master_def mm)
  have "master_inv ?m'" using assms by (rule master_handle_keeps_inv [OF _ _ ev]) (simp add: polite_def)
  moreover have "posted ?m' = tl (posted m)" "accepting ?m' = accepting m"
    by (simp_all add: posted_def accepting_def mm master_run_post_def run_write_def run_writeTo_def split: list.split master_post.split)
  ultimately show thesis
    by (intro that [OF mm ev]) (simp_all add: conns_def posted_def mm)
qed

lemma run_post_same_conns:
  assumes "conns m' = mm_connections (master_run_post mm)" and "conns m = mm_connections mm"
  shows "length (conns m') = length (conns m)" and "mc_open (conn_of m' k) = mc_open (conn_of m k)"
    and "mc_slave_id (conn_of m' k) = mc_slave_id (conn_of m k)"
proof -
  have same: "map (\<lambda>c. (mc_slave_id c, mc_open c)) (conns m') = map (\<lambda>c. (mc_slave_id c, mc_open c)) (conns m)"
    by (simp add: assms run_post_conns)
  then show len: "length (conns m') = length (conns m)" by (rule map_eq_imp_length_eq)
  show "mc_open (conn_of m' k) = mc_open (conn_of m k)" "mc_slave_id (conn_of m' k) = mc_slave_id (conn_of m k)"
    using arg_cong [OF same, of "\<lambda>xs. xs ! k"] len by (cases "k < length (conns m)"; simp add: conn_of_def)+
qed

text \<open>The first posted closure runs, seen from one link.\<close>

definition conn_after_post :: "UserFS \<Rightarrow> master_post \<Rightarrow> nat \<Rightarrow> master_conn" where
  "conn_after_post m x k =
     (case x of
        PostWrite p \<Rightarrow> if k < length (conns m) \<and> mc_open (conn_of m k) then conn_enqueue p (conn_of m k) else conn_of m k
      | PostWriteTo p h \<Rightarrow> if k = h then conn_enqueue p (conn_of m k) else conn_of m k
      | PostStop \<Rightarrow> conn_of m k)"

lemma run_post_conn_of:
  assumes "posted m = x # xs" and "post_ok B (u_hosts m) (length (conns m)) x" and "conns m' = mm_connections (master_run_post mm)"
    and "conns m = mm_connections mm" and "posted m = mm_posted mm"
  shows "conn_of m' k = conn_after_post m x k"
  using assms by (cases x) (auto simp: conn_after_post_def conn_of_def master_run_post_def run_write_def run_writeTo_def)

lemma link_inv_post:
  assumes "link_inv B m (conn_of m k) (post_to k x @ qs) l" and "post_ok B (u_hosts m) (length (conns m)) x"
  shows "link_inv B m (conn_after_post m x k) qs l"
proof (cases x)
  case (PostWrite p)
  have p: "framed p" using assms(2) PostWrite by (simp add: packet_for_framed)
  have link: "link_inv B m (conn_of m k) (p # qs) l" using assms(1) PostWrite by (simp add: post_to_def)
  consider "k < length (conns m)" "mc_open (conn_of m k)" | "\<not> mc_open (conn_of m k)" | "\<not> k < length (conns m)" by blast
  then show ?thesis
  proof cases
    case 1
    with link_inv_enqueue [OF link _ p] show ?thesis by (simp add: conn_after_post_def PostWrite)
  next
    case 2
    with link_inv_closed [OF link 2] show ?thesis by (simp add: conn_after_post_def PostWrite)
  next
    case 3
    then have "mc_slave_id (conn_of m k) = 0" by (simp add: conn_of_def accepted_conn_def conn_new_def)
    with link_inv_drop_post [OF link] 3 show ?thesis by (simp add: conn_after_post_def PostWrite)
  qed
next
  case (PostWriteTo p h)
  have p: "framed p" using assms(2) PostWriteTo by simp
  show ?thesis
  proof (cases "k = h")
    case False
    with assms(1) show ?thesis by (simp add: post_to_def PostWriteTo conn_after_post_def)
  next
    case True
    then have "link_inv B m (conn_of m k) (p # qs) l" using assms(1) by (simp add: post_to_def PostWriteTo)
    then show ?thesis
      using link_inv_enqueue [of B m "conn_of m k" p] link_inv_closed [of B m _ _ l "conn_enqueue p (conn_of m k)"] p True
      by (cases "mc_open (conn_of m k)") (simp_all add: conn_after_post_def PostWriteTo)
  qed
next
  case PostStop
  with assms(2) show ?thesis by simp
qed

lemma net_master_post:
  assumes "net_inv B n" and "master_enabled RunPost n"
  shows "\<exists>n'. net_handle B (MasterEvent RunPost) n = Inr n' \<and> net_inv B n'"
proof -
  let ?m = "n_master n"
  have inv: "master_inv ?m" "posts_ok B ?m" using assms(1) by (simp_all add: net_inv_def)
  obtain mm m' where m': "master_handle B RunPost ?m = Inr m'" "master_inv m'" "u_dir_tree m' = u_dir_tree ?m" "u_hosts m' = u_hosts ?m"
    "u_max_host_id m' = u_max_host_id ?m" "accepting m' = accepting ?m" "posted m' = tl (posted ?m)"
    and conns: "conns m' = mm_connections (master_run_post mm)" "conns ?m = mm_connections mm" "posted ?m = mm_posted mm"
    by (rule run_post_state [OF inv(1), of B])
  obtain x xs where x: "posted ?m = x # xs" using assms(2) by (cases "posted ?m") auto
  have xok: "post_ok B (u_hosts ?m) (length (conns ?m)) x" and xs: "list_all (post_ok B (u_hosts ?m) (length (conns ?m))) xs"
    using inv(2) by (simp_all add: posts_ok_def x)
  have posts: "posts k ?m = post_to k x @ posts k m'" for k by (simp add: posts_def m'(7) x)
  note len = run_post_same_conns(1) [OF conns(1,2)]
  have "link_inv B m' (conn_of m' k) (posts k m') (n_links n ! k)" if "k < length (n_links n)" for k
    using link_inv_post [OF net_inv_link [OF assms(1) that, unfolded posts] xok] run_post_conn_of [OF x xok conns]
      link_inv_quiet [OF m'(3,4), of B] by simp
  moreover have "posts_ok B m'" using xs by (simp add: posts_ok_def m'(4,7) x len)
  moreover have "net_bounds B (n\<lparr>n_master := m'\<rparr>) = net_bounds B n" using m'(3-5) by (intro net_bounds_meta) simp_all
  ultimately have "net_inv B (n\<lparr>n_master := m'\<rparr>)" using assms(1) m'(2,6) len by (simp add: net_inv_def)
  with m'(1) show ?thesis by simp
qed

subsection \<open>All events\<close>

lemma net_master_event:
  assumes "net_inv B n" and "master_enabled ev n"
  shows "\<exists>n'. net_handle B (MasterEvent ev) n = Inr n' \<and> (net_bounds B n' \<longrightarrow> net_inv B n')"
proof (cases ev)
  case (Accepted ec)
  with net_master_accept assms show ?thesis by blast
next
  case (HeaderRead h ec data)
  with net_master_error [OF assms] net_master_header [OF assms(1), of h data] assms(2) show ?thesis by (cases ec) auto
next
  case (BodyRead h ec data remote)
  with net_master_error [OF assms] net_master_join [OF assms(1), of h data remote] assms(2) show ?thesis by (cases ec) auto
next
  case (Written h ec k)
  with net_master_error [OF assms] net_master_written [OF assms(1), of h k] assms(2) show ?thesis by (cases ec) auto
next
  case RunPost
  with net_master_post assms show ?thesis by blast
qed

lemma net_inv_map_link:
  assumes "net_inv B n" and "h < length (n_links n)"
    and "link_inv B (n_master n) (conn_of (n_master n) h) (posts h (n_master n)) (f (n_links n ! h))"
  shows "net_inv B (map_link h f n)"
proof -
  have "net_bounds B (map_link h f n) = net_bounds B n" by (rule net_bounds_meta) simp_all
  with assms show ?thesis by (simp add: net_inv_def map_link_nth)
qed

lemma net_arrival:
  assumes "net_inv B n" and "slave_ready B s"
  shows "\<exists>n'. net_handle B (SlaveArrives s addr) n = Inr n' \<and> net_inv B n'"
proof -
  let ?m = "n_master n" and ?h = "length (n_links n)"
  have len: "length (conns ?m) \<le> ?h" and posts: "posts_ok B ?m" using assms(1) by (simp_all add: net_inv_def)
  obtain s' where s': "slave_handle B (Connected False) s = Inr s'" "link_inv B ?m accepted_conn (posts ?h ?m) (link_new s addr s')"
    using link_inv_new [OF assms(2) posts_unaccepted [OF posts len]] by blast
  let ?n = "n\<lparr>n_links := n_links n @ [link_new s addr s']\<rparr>"
  have "conn_of ?m ?h = accepted_conn" using len by (simp add: conn_of_def)
  then have "link_inv B ?m (conn_of ?m k) (posts k ?m) ((n_links n @ [link_new s addr s']) ! k)" if "k < Suc ?h" for k
    using that s'(2) net_inv_link [OF assms(1)] by (auto simp: nth_append less_Suc_eq)
  moreover have "net_bounds B ?n = net_bounds B n" by (rule net_bounds_meta) simp_all
  ultimately have "net_inv B ?n" using assms(1) by (simp add: net_inv_def)
  with s'(1) show ?thesis by simp
qed

lemma net_event_ok:
  assumes "net_inv B n" and "net_enabled B ev n"
  shows "\<exists>n'. net_handle B ev n = Inr n' \<and> (net_bounds B n' \<longrightarrow> net_inv B n')"
proof (cases ev)
  case (SlaveArrives s addr)
  with net_arrival assms show ?thesis by fastforce
next
  case (SlaveEvent h sev)
  then have h: "h < length (n_links n)" "slave_enabled sev (n_links n ! h)" using assms(2) by simp_all
  have "archive_lossless B" "master_inv (n_master n)" "fits B (n_master n)" using assms(1) by (simp_all add: net_inv_def net_bounds_def)
  from link_inv_slave_event [OF this net_inv_link [OF assms(1) h(1)] h(2)] show ?thesis
    using net_inv_map_link [OF assms(1) h(1)] by (fastforce simp: SlaveEvent)
next
  case (MasterEvent mev)
  with net_master_event [OF assms(1)] assms(2) show ?thesis by simp
next
  case (UpTransmit h k)
  with assms(2) have h: "h < length (n_links n)" "sm_open (lm (n_links n ! h))"
    "l_up_sent (n_links n ! h) + k \<le> length (front_wire (sm_queue (lm (n_links n ! h))))" by (simp_all add: Let_def)
  have "net_inv B (map_link h (\<lambda>l. l\<lparr>l_up := l_up l @ take k (drop (l_up_sent l) (front_wire (sm_queue (lm l)))),
      l_up_sent := l_up_sent l + k\<rparr>) n)"
    by (rule net_inv_map_link [OF assms(1) h(1)]) (rule link_inv_up_transmit [OF net_inv_link [OF assms(1) h(1)] h(2,3)])
  then show ?thesis by (simp add: UpTransmit)
next
  case (DownTransmit h k)
  with assms(2) have h: "h < length (n_links n)" and c: "conn_of (n_master n) h = conns (n_master n) ! h"
    and o: "mc_open (conn_of (n_master n) h)" "l_down_sent (n_links n ! h) + k \<le> length (front_wire (mc_queue (conn_of (n_master n) h)))"
    by (simp_all add: Let_def conn_of_def)
  have "net_inv B (map_link h (\<lambda>l. l\<lparr>l_down := l_down l @ take k (drop (l_down_sent l) (front_wire (mc_queue (conn_of (n_master n) h)))),
      l_down_sent := l_down_sent l + k\<rparr>) n)"
    by (rule net_inv_map_link [OF assms(1) h]) (rule link_inv_down_transmit [OF net_inv_link [OF assms(1) h] o])
  then show ?thesis by (simp add: DownTransmit c)
qed

interpretation net: event_system "net_enabled B" "net_handle B" "net_bounds B" "net_inv B" for B
  by unfold_locales (use net_event_ok in fastforce)+

end
