(* ===== verification/Network_Settle.thy ===== *)
theory Network_Settle
  imports Network_Master
begin

section \<open>The network comes to rest\<close>

text \<open>
  The internal events of the network are those that the nodes and the network do by themselves while
  nothing fails and no new slave arrives: accepting, moving octets, completing reads and writes, running
  closures. Each of them uses something up. \<open>net_weight\<close> counts first the slaves that wait to be
  recognised, because a recognition makes the master post new messages, and then what is under way:
  octets count twice until they are on the stream, once on it; every packet in a queue, every posted
  closure, every half-read packet and every connection in the backlog counts as well.
\<close>

subsection \<open>Internal events and their weight\<close>

fun slave_internal :: "slave_event \<Rightarrow> bool" where
  "slave_internal (Connected ec) = False"
| "slave_internal (SlaveHeaderRead ec data) = (\<not> ec)"
| "slave_internal (SlaveBodyRead ec data) = (\<not> ec)"
| "slave_internal (SlaveWritten ec k) = (\<not> ec)"
| "slave_internal SlaveRunPost = True"

fun master_internal :: "master_event \<Rightarrow> bool" where
  "master_internal (Accepted ec) = (\<not> ec)"
| "master_internal (HeaderRead h ec data) = (\<not> ec)"
| "master_internal (BodyRead h ec data remote) = (\<not> ec)"
| "master_internal (Written h ec k) = (\<not> ec)"
| "master_internal RunPost = True"

fun net_internal :: "net_event \<Rightarrow> bool" where
  "net_internal (SlaveArrives s addr) = False"
| "net_internal (SlaveEvent h ev) = slave_internal ev"
| "net_internal (MasterEvent ev) = master_internal ev"
| "net_internal (UpTransmit h k) = True"
| "net_internal (DownTransmit h k) = True"

definition read_weight :: "read_op \<Rightarrow> nat" where
  "read_weight rd = (if rd = ReadBody then 1 else 0)"

definition write_weight :: "nat \<Rightarrow> Packet list \<Rightarrow> nat" where
  "write_weight k q = 2 * length (unsent k q) + length q"

fun slave_post_weight :: "slave_post \<Rightarrow> nat" where
  "slave_post_weight (SlavePostWrite p) = 2 * length (Packet_wire p) + 2"
| "slave_post_weight SlavePostStop = 1"

definition slave_weight :: "link \<Rightarrow> nat" where
  "slave_weight l =
     write_weight (l_up_sent l) (sm_queue (lm l)) + sum_list (map slave_post_weight (sm_posted (lm l))) +
     length (l_up l) + length (l_down l) + read_weight (sm_read (lm l))"

definition conn_weight :: "nat \<Rightarrow> master_conn \<Rightarrow> nat" where
  "conn_weight k c = write_weight k (mc_queue c) + read_weight (mc_read c)"

definition link_weight :: "master_conn \<Rightarrow> link \<Rightarrow> nat" where
  "link_weight c l = slave_weight l + conn_weight (l_down_sent l) c"

fun post_weight :: "nat \<Rightarrow> master_post \<Rightarrow> nat" where
  "post_weight n (PostWrite p) = Suc (n * (2 * length (Packet_wire p) + 1))"
| "post_weight n (PostWriteTo p h) = Suc (2 * length (Packet_wire p) + 1)"
| "post_weight n PostStop = 1"

definition posts_weight :: "nat \<Rightarrow> UserFS \<Rightarrow> nat" where
  "posts_weight n m = sum_list (map (post_weight n) (posted m))"

definition links_weight :: "network \<Rightarrow> nat" where
  "links_weight n = (\<Sum>h<length (n_links n). link_weight (conn_of (n_master n) h) (n_links n ! h))"

definition unrecognised :: "network \<Rightarrow> nat" where
  "unrecognised n =
     (\<Sum>h<length (n_links n). if mc_open (conn_of (n_master n) h) \<and> mc_slave_id (conn_of (n_master n) h) = 0 then 1 else 0)"

definition net_weight :: "network \<Rightarrow> nat \<times> nat" where
  "net_weight n =
     (unrecognised n,
      (length (n_links n) - length (conns (n_master n))) + links_weight n + posts_weight (length (n_links n)) (n_master n))"

subsection \<open>Sums over the links\<close>

lemma sum_less_at:
  fixes f g :: "nat \<Rightarrow> nat"
  assumes "h < n" and "g h < f h" and "\<And>k. k < n \<Longrightarrow> k \<noteq> h \<Longrightarrow> g k = f k"
  shows "(\<Sum>k<n. g k) < (\<Sum>k<n. f k)"
  using assms by (intro sum_strict_mono_ex1) (auto simp: le_less)

lemma sum_le_plus:
  fixes f g :: "nat \<Rightarrow> nat"
  assumes "\<And>k. k < n \<Longrightarrow> g k \<le> f k + d"
  shows "(\<Sum>k<n. g k) \<le> (\<Sum>k<n. f k) + n * d"
proof -
  have "(\<Sum>k<n. g k) \<le> (\<Sum>k<n. f k + d)" using assms by (intro sum_mono) simp
  then show ?thesis by (simp add: sum.distrib)
qed

lemma sum_le_plus_at:
  fixes f g :: "nat \<Rightarrow> nat"
  assumes "\<And>k. k < n \<Longrightarrow> g k \<le> f k + (if k = h then d else 0)"
  shows "(\<Sum>k<n. g k) \<le> (\<Sum>k<n. f k) + d"
proof -
  have "(\<Sum>k<n. g k) \<le> (\<Sum>k<n. f k + (if k = h then d else 0))" using assms by (intro sum_mono) simp
  also have "\<dots> \<le> (\<Sum>k<n. f k) + d" by (simp add: sum.distrib sum.delta)
  finally show ?thesis .
qed

lemma unrecognised_cong:
  assumes "length (n_links n') = length (n_links n)"
    and "\<And>k. mc_open (conn_of (n_master n') k) = mc_open (conn_of (n_master n) k) \<and>
      mc_slave_id (conn_of (n_master n') k) = mc_slave_id (conn_of (n_master n) k)"
  shows "unrecognised n' = unrecognised n"
  by (simp add: unrecognised_def assms)

text \<open>An event that changes one link, and of the master at most the reading and writing on its connection.\<close>

lemma weight_one_link:
  assumes "h < length (n_links n)" and "n_links n' = (n_links n)[h := l]"
    and "\<And>k. k \<noteq> h \<Longrightarrow> conn_of (n_master n') k = conn_of (n_master n) k"
    and "mc_open (conn_of (n_master n') h) = mc_open (conn_of (n_master n) h)"
    and "mc_slave_id (conn_of (n_master n') h) = mc_slave_id (conn_of (n_master n) h)"
    and "link_weight (conn_of (n_master n') h) l < link_weight (conn_of (n_master n) h) (n_links n ! h)"
    and "length (conns (n_master n')) = length (conns (n_master n))" and "posted (n_master n') = posted (n_master n)"
  shows "(net_weight n', net_weight n) \<in> less_than <*lex*> less_than"
proof -
  have "links_weight n' < links_weight n"
    unfolding links_weight_def using assms by (simp add: sum_less_at)
  moreover have "mc_open (conn_of (n_master n') k) = mc_open (conn_of (n_master n) k) \<and>
      mc_slave_id (conn_of (n_master n') k) = mc_slave_id (conn_of (n_master n) k)" for k
    using assms(3-5) by (cases "k = h") simp_all
  then have "unrecognised n' = unrecognised n" using assms(2) by (intro unrecognised_cong) simp_all
  ultimately show ?thesis using assms(2,7,8) by (simp add: net_weight_def posts_weight_def)
qed

lemma write_weight_transmit:
  assumes "k + j \<le> length (front_wire q)"
  shows "write_weight k q = write_weight (k + j) q + 2 * j"
proof -
  have "length (unsent k q) = length (take j (drop k (front_wire q))) + length (unsent (k + j) q)"
    using arg_cong [OF unsent_transmit [OF assms], of length] by simp
  with assms show ?thesis by (simp add: write_weight_def)
qed

lemma write_weight_finished:
  "q \<noteq> [] \<Longrightarrow> k = length (front_wire q) \<Longrightarrow> write_weight k q = Suc (write_weight 0 (tl q))"
  using unsent_finished [of k q] by (cases q) (simp_all add: write_weight_def)

lemma write_weight_push: "write_weight k (q @ [p]) \<le> write_weight k q + (2 * length (Packet_wire p) + 1)"
  by (simp add: write_weight_def unsent_def)

subsection \<open>Events of a slave\<close>

lemma read_slave_messager: "TCPManager_read_slave B p s = Inr s' \<Longrightarrow> u_tcp_manager s' = u_tcp_manager s"
  by (auto simp: TCPManager_read_slave_def UserFS_slaveRecognized_def UserFS_updateInfo_def res_bind_eq_Inr Let_def split: if_splits)

text \<open>An internal event of a slave makes it lighter and leaves its socket open if it was.\<close>

definition lighter :: "slave_event \<Rightarrow> link \<Rightarrow> UserFS \<Rightarrow> bool" where
  "lighter ev l s' \<longleftrightarrow>
     slave_weight ((slave_moves ev l)\<lparr>l_slave := s'\<rparr>) < slave_weight l \<and> sm_open (messager s') = sm_open (lm l)"

lemma slave_header_lighter:
  assumes "slave_of (l_slave l) = Inr (lm l)" and "slave_enabled (SlaveHeaderRead False data) l"
    and "slave_handle B (SlaveHeaderRead False data) (l_slave l) = Inr s'"
  shows "lighter (SlaveHeaderRead False data) l s'"
proof -
  have d: "length data = 8" "take 8 (l_down l) = data" "sm_read (lm l) = ReadHeader"
    using assms(2) by (auto simp: Packet_sizeLength_def)
  have "sm_queue (messager s') = sm_queue (lm l) \<and> sm_posted (messager s') = sm_posted (lm l) \<and> sm_read (messager s') = ReadBody \<and>
      sm_open (messager s') = sm_open (lm l)"
    using assms(3) d(1)
    by (auto simp: slave_header_handler_def assms(1) Let_def Packet_sizeLength_def slave_do_read_body_def res_bind_eq_Inr)
  moreover have "8 \<le> length (l_down l)" using d(1,2) by (metis length_take min.cobounded1)
  ultimately show ?thesis using d by (simp add: lighter_def slave_weight_def read_weight_def)
qed

lemma slave_body_lighter:
  assumes "slave_of (l_slave l) = Inr (lm l)" and "slave_enabled (SlaveBodyRead False data) l"
    and "slave_handle B (SlaveBodyRead False data) (l_slave l) = Inr s'"
  shows "lighter (SlaveBodyRead False data) l s'"
proof -
  have d: "length data = unat (pkt_size (sm_packet (lm l)))" "sm_read (lm l) = ReadBody" using assms(2) by auto
  have "sm_queue (messager s') = sm_queue (lm l) \<and> sm_posted (messager s') = sm_posted (lm l) \<and> sm_read (messager s') = ReadHeader \<and>
      sm_open (messager s') = sm_open (lm l)"
    using assms(3) d(1) read_slave_messager
    by (fastforce simp: slave_body_handler_def assms(1) Let_def slave_do_read_header_def res_bind_eq_Inr slave_of_def set_slave_def
        messager_def)
  then show ?thesis using d by (simp add: lighter_def slave_weight_def read_weight_def)
qed

lemma slave_written_lighter:
  assumes "node_inv B l" and "slave_of (l_slave l) = Inr (lm l)" and "slave_enabled (SlaveWritten False k) l"
    and "slave_handle B (SlaveWritten False k) (l_slave l) = Inr s'"
  shows "lighter (SlaveWritten False k) l s'"
proof -
  have k: "k = l_up_sent l" "sm_open (lm l)" "sm_writing (lm l)" "sm_queue (lm l) \<noteq> [] \<Longrightarrow> k = length (front_wire (sm_queue (lm l)))"
    using assms(3) by auto
  have ctr: "counter_ok k (sm_writing (lm l)) (sm_queue (lm l))" using assms(1) k by (simp add: node_inv_def)
  then have q: "sm_queue (lm l) \<noteq> []" using k(3) by (simp add: counter_ok_def)
  then obtain p r where pr: "sm_queue (lm l) = p # r" by (cases "sm_queue (lm l)") simp_all
  have "k = unat (pkt_size p)" using counter_size [OF ctr pr] k(4) q by simp
  then have "s' = set_slave (slave_write_finished (lm l)) (l_slave l)"
    using assms(4) pr by (simp add: slave_write_handler_def assms(2))
  then have "sm_queue (messager s') = tl (sm_queue (lm l))" "sm_posted (messager s') = sm_posted (lm l)"
    "sm_read (messager s') = sm_read (lm l)" "sm_open (messager s') = sm_open (lm l)"
    by (simp_all add: slave_write_finished_def slave_do_write_def Let_def)
  then show ?thesis using write_weight_finished [OF q k(4) [OF q]] k(1) by (simp add: lighter_def slave_weight_def)
qed

lemma slave_post_lighter:
  assumes "slave_of (l_slave l) = Inr (lm l)" and "slave_enabled SlaveRunPost l" and "slave_handle B SlaveRunPost (l_slave l) = Inr s'"
  shows "lighter SlaveRunPost l s'"
proof -
  obtain x xs where x: "sm_posted (lm l) = x # xs" using assms(2) by (cases "sm_posted (lm l)") auto
  have s': "messager s' = slave_run_post (lm l)" using assms(3) by (auto simp: assms(1))
  show ?thesis
  proof (cases x)
    case (SlavePostWrite p)
    then have "sm_queue (messager s') = sm_queue (lm l) @ [p]" "sm_posted (messager s') = xs" "sm_read (messager s') = sm_read (lm l)"
      "sm_open (messager s') = sm_open (lm l)"
      by (simp_all add: s' slave_run_post_def x slave_enqueue_def slave_do_write_def Let_def)
    then show ?thesis
      using write_weight_push [of "l_up_sent l" "sm_queue (lm l)" p] by (simp add: lighter_def slave_weight_def x SlavePostWrite)
  next
    case SlavePostStop
    then show ?thesis by (simp add: lighter_def slave_weight_def s' slave_run_post_def x)
  qed
qed

lemma slave_event_effect:
  assumes "node_inv B l" and "slave_enabled ev l" and "slave_internal ev" and "slave_handle B ev (l_slave l) = Inr s'"
  shows "lighter ev l s'"
proof -
  have slave: "slave_of (l_slave l) = Inr (lm l)" using assms(1) by (intro slave_of_messager) (simp add: node_inv_def)
  show ?thesis
    using assms slave_header_lighter [OF slave] slave_body_lighter [OF slave] slave_written_lighter [OF assms(1) slave]
      slave_post_lighter [OF slave]
    by (cases ev) (simp_all del: slave_enabled.simps slave_handle.simps)
qed

subsection \<open>Events of the master\<close>

lemma accept_state:
  assumes "master_handle B (Accepted ec) m = Inr m'"
  shows "conns m' = conns m @ (if ec then [] else [accepted_conn])" and "posted m' = posted m" and "u_dir_tree m' = u_dir_tree m"
    and "u_hosts m' = u_hosts m" and "u_max_host_id m' = u_max_host_id m"
  using assms
  by (cases ec; auto simp: run_master_def master_accept_def do_new_connection_def conn_do_read_header_def vec_resize_def accepted_conn_def
      conn_new_def Packet_sizeLength_def conns_def posted_def res_bind_eq_Inr)+

lemma accept_weight:
  assumes "net_inv B n" and "master_enabled (Accepted False) n" and "master_handle B (Accepted False) (n_master n) = Inr m'"
  shows "(net_weight (n\<lparr>n_master := m'\<rparr>), net_weight n) \<in> less_than <*lex*> less_than"
proof -
  have st: "conns m' = conns (n_master n) @ [accepted_conn]" "posted m' = posted (n_master n)"
    using accept_state(1,2) [OF assms(3)] by simp_all
  then have c: "conn_of m' k = conn_of (n_master n) k" for k by (auto simp: conn_of_def nth_append)
  then have "unrecognised (n\<lparr>n_master := m'\<rparr>) = unrecognised n" by (intro unrecognised_cong) simp_all
  moreover have "links_weight (n\<lparr>n_master := m'\<rparr>) = links_weight n" by (simp add: links_weight_def c)
  ultimately show ?thesis using assms(2) st by (auto simp: net_weight_def posts_weight_def)
qed

lemma set_conn_weight:
  assumes "net_inv B n" and "h < length (conns (n_master n))" and "m' = set_conn h c (n_master n)"
    and "mc_open c = mc_open (conns (n_master n) ! h)" and "mc_slave_id c = mc_slave_id (conns (n_master n) ! h)"
    and "link_weight c (f (n_links n ! h)) < link_weight (conns (n_master n) ! h) (n_links n ! h)"
  shows "(net_weight ((map_link h f n)\<lparr>n_master := m'\<rparr>), net_weight n) \<in> less_than <*lex*> less_than"
proof -
  have len: "h < length (n_links n)" using assms(1,2) by (simp add: net_inv_def)
  have c: "conn_of m' k = (if k = h then c else conn_of (n_master n) k)" for k
    using assms(2,3) by (simp add: conn_of_update)
  have h: "conn_of (n_master n) h = conns (n_master n) ! h" using assms(2) by (simp add: conn_of_def)
  show ?thesis
    by (rule weight_one_link [OF len, where l = "f (n_links n ! h)"])
      (use assms len in \<open>simp_all add: map_link_def c [unfolded assms(3)] h\<close>)
qed

lemma header_state:
  assumes "net_inv B n" and "master_enabled (HeaderRead h False data) n"
    and "master_handle B (HeaderRead h False data) (n_master n) = Inr m'"
  obtains c where "m' = set_conn h c (n_master n)" and "mc_open c = mc_open (conns (n_master n) ! h)"
    and "mc_slave_id c = mc_slave_id (conns (n_master n) ! h)" and "mc_queue c = mc_queue (conns (n_master n) ! h)"
    and "mc_read c = ReadBody"
proof -
  have "h < length (conns (n_master n))" and "length data = 8" using assms(2) by (auto simp: Let_def Packet_sizeLength_def)
  with assms(3) net_inv_conn_link(2) [OF assms(1)] that show thesis
    by (auto simp: master_header_handler_def Let_def Packet_sizeLength_def conn_do_read_body_def res_bind_eq_Inr)
qed

lemma header_weight:
  assumes "net_inv B n" and "master_enabled (HeaderRead h False data) n"
    and "master_handle B (HeaderRead h False data) (n_master n) = Inr m'"
  shows "(net_weight ((master_moves (HeaderRead h False data) n)\<lparr>n_master := m'\<rparr>), net_weight n) \<in> less_than <*lex*> less_than"
proof -
  let ?c = "conns (n_master n) ! h" and ?l = "n_links n ! h"
  have h: "h < length (conns (n_master n))" and d: "length data = 8" "take 8 (l_up ?l) = data" "mc_read ?c = ReadHeader"
    using assms(2) by (auto simp: Let_def Packet_sizeLength_def)
  obtain c where c: "m' = set_conn h c (n_master n)" "mc_open c = mc_open ?c" "mc_slave_id c = mc_slave_id ?c" "mc_queue c = mc_queue ?c"
    "mc_read c = ReadBody" by (rule header_state [OF assms])
  have "8 \<le> length (l_up ?l)" using d(1,2) by (metis length_take min.cobounded1)
  then have "link_weight c (?l\<lparr>l_up := drop (length data) (l_up ?l)\<rparr>) < link_weight ?c ?l"
    using d c by (simp add: link_weight_def conn_weight_def slave_weight_def read_weight_def)
  from set_conn_weight [OF assms(1) h c(1,2,3), of "\<lambda>l. l\<lparr>l_up := drop (length data) (l_up l)\<rparr>"] this
  show ?thesis by simp
qed

lemma written_state:
  assumes "net_inv B n" and "master_enabled (Written h False k) n"
    and "master_handle B (Written h False k) (n_master n) = Inr m'"
  shows "m' = set_conn h (conn_write_finished (conns (n_master n) ! h)) (n_master n)" and "mc_queue (conns (n_master n) ! h) \<noteq> []"
proof -
  let ?c = "conns (n_master n) ! h" and ?l = "n_links n ! h"
  let ?q = "mc_queue ?c"
  have h: "h < length (conns (n_master n))" and wr: "mc_writing ?c" "mc_open ?c" "k = l_down_sent ?l" "?q \<noteq> [] \<Longrightarrow> k = length (front_wire ?q)"
    using assms(2) by (auto simp: Let_def)
  note link = net_inv_conn_link [OF assms(1) h]
  have counter: "counter_ok k (mc_writing ?c) ?q" using link_invD(2) [OF link(1)] wr(2,3) by (simp add: conn_inv_def)
  then obtain p r where q: "?q = p # r" using wr(1) by (cases ?q) (auto simp: counter_ok_def)
  have "k = unat (pkt_size p)" using wr(4) q counter_size [OF counter q] by simp
  then show "m' = set_conn h (conn_write_finished ?c) (n_master n)" "?q \<noteq> []"
    using assms(3) q by (simp_all add: master_write_handler_def link(2))
qed

lemma write_finished_sel [simp]:
  "mc_queue (conn_write_finished c) = tl (mc_queue c)" "mc_read (conn_write_finished c) = mc_read c"
  "mc_open (conn_write_finished c) = mc_open c" "mc_slave_id (conn_write_finished c) = mc_slave_id c"
  by (simp_all add: conn_write_finished_def conn_do_write_def Let_def)

lemma written_weight:
  assumes "net_inv B n" and "master_enabled (Written h False k) n"
    and "master_handle B (Written h False k) (n_master n) = Inr m'"
  shows "(net_weight ((master_moves (Written h False k) n)\<lparr>n_master := m'\<rparr>), net_weight n) \<in> less_than <*lex*> less_than"
proof -
  let ?c = "conns (n_master n) ! h" and ?l = "n_links n ! h"
  let ?q = "mc_queue ?c"
  have h: "h < length (conns (n_master n))" and wr: "k = l_down_sent ?l" "?q \<noteq> [] \<Longrightarrow> k = length (front_wire ?q)"
    using assms(2) by (auto simp: Let_def)
  note st = written_state [OF assms]
  have "write_weight (l_down_sent ?l) ?q = Suc (write_weight 0 (tl ?q))"
    using wr st(2) by (intro write_weight_finished) simp_all
  then have "link_weight (conn_write_finished ?c) (?l\<lparr>l_down_sent := 0\<rparr>) < link_weight ?c ?l"
    by (simp add: link_weight_def conn_weight_def slave_weight_def)
  from set_conn_weight [OF assms(1) h st(1) write_finished_sel(3,4), of "\<lambda>l. l\<lparr>l_down_sent := 0\<rparr>"] this show ?thesis by simp
qed

lemma join_weight:
  assumes "net_inv B n" and "master_enabled (BodyRead h False data remote) n"
    and "master_handle B (BodyRead h False data remote) (n_master n) = Inr m'"
  shows "(net_weight ((master_moves (BodyRead h False data remote) n)\<lparr>n_master := m'\<rparr>), net_weight n) \<in> less_than <*lex*> less_than"
proof -
  let ?m = "n_master n"
  obtain p b where fresh: "fresh_connection h ?m"
    and conns: "conns m' = (conns ?m)[h := (conns ?m ! h)\<lparr>mc_packet := p, mc_slave_id := u_max_host_id ?m, mc_buffer := b, mc_read := ReadHeader\<rparr>]"
    by (rule net_join_effect [OF assms(1,2)]) (use assms(3) in auto)
  have h: "h < length (conns ?m)" "h < length (n_links n)" "mc_open (conns ?m ! h)" "mc_slave_id (conns ?m ! h) = 0"
    using fresh assms(1) by (simp_all add: fresh_connection_def net_inv_def)
  have i: "u_max_host_id ?m \<noteq> 0" using assms(1) by (intro next_id_fresh) (simp_all add: net_inv_def master_inv_def)
  have c: "conn_of m' k = (if k = h then (conns ?m ! h)\<lparr>mc_packet := p, mc_slave_id := u_max_host_id ?m, mc_buffer := b, mc_read := ReadHeader\<rparr>
      else conn_of ?m k)" for k
    by (rule conn_of_update [OF conns h(1)])
  have "unrecognised ((master_moves (BodyRead h False data remote) n)\<lparr>n_master := m'\<rparr>) < unrecognised n"
    unfolding unrecognised_def using h i
    by (simp add: c, intro sum_less_at [of h]) (simp_all add: conn_of_def [of ?m h])
  then show ?thesis by (simp add: net_weight_def)
qed

lemma enqueue_weight: "link_weight (conn_enqueue p c) l \<le> link_weight c l + (2 * length (Packet_wire p) + 1)"
proof -
  have c: "mc_queue (conn_enqueue p c) = mc_queue c @ [p]" "mc_read (conn_enqueue p c) = mc_read c"
    by (simp_all add: conn_enqueue_def conn_do_write_def Let_def)
  show ?thesis using write_weight_push [of "l_down_sent l" "mc_queue c" p] by (simp add: link_weight_def conn_weight_def c)
qed

lemma links_weight_post:
  assumes "\<And>k. conn_of (n_master n') k = conn_after_post (n_master n) x k" and "n_links n' = n_links n" and "x \<noteq> PostStop"
  shows "links_weight n' < links_weight n + post_weight (length (n_links n)) x"
proof -
  let ?m = "n_master n" and ?L = "length (n_links n)"
  have lw: "links_weight n' = (\<Sum>k<?L. link_weight (conn_after_post ?m x k) (n_links n ! k))"
    "links_weight n = (\<Sum>k<?L. link_weight (conn_of ?m k) (n_links n ! k))"
    by (simp_all add: links_weight_def assms)
  show ?thesis
  proof (cases x)
    case (PostWrite p)
    have "link_weight (conn_after_post ?m x k) (n_links n ! k) \<le> link_weight (conn_of ?m k) (n_links n ! k) + (2 * length (Packet_wire p) + 1)" for k
      using enqueue_weight [of p "conn_of ?m k" "n_links n ! k"] by (simp add: conn_after_post_def PostWrite)
    then have "links_weight n' \<le> links_weight n + ?L * (2 * length (Packet_wire p) + 1)" unfolding lw by (rule sum_le_plus)
    then show ?thesis by (simp add: PostWrite)
  next
    case (PostWriteTo p h)
    have "link_weight (conn_after_post ?m x k) (n_links n ! k) \<le>
        link_weight (conn_of ?m k) (n_links n ! k) + (if k = h then 2 * length (Packet_wire p) + 1 else 0)" for k
      using enqueue_weight [of p "conn_of ?m k" "n_links n ! k"] by (auto simp: conn_after_post_def PostWriteTo)
    then have "links_weight n' \<le> links_weight n + (2 * length (Packet_wire p) + 1)" unfolding lw by (rule sum_le_plus_at)
    then show ?thesis by (simp add: PostWriteTo)
  qed (use assms(3) in simp)
qed

lemma post_weight_less:
  assumes "net_inv B n" and "posted (n_master n) \<noteq> []" and "master_handle B RunPost (n_master n) = Inr m'"
  shows "(net_weight (n\<lparr>n_master := m'\<rparr>), net_weight n) \<in> less_than <*lex*> less_than"
proof -
  let ?m = "n_master n" and ?n = "n\<lparr>n_master := m'\<rparr>"
  have inv: "master_inv ?m" "posts_ok B ?m" using assms(1) by (simp_all add: net_inv_def)
  obtain mm where post: "posted m' = tl (posted ?m)" and conns: "conns m' = mm_connections (master_run_post mm)"
    "conns ?m = mm_connections mm" "posted ?m = mm_posted mm"
    by (rule run_post_state [OF inv(1), of B]) (use assms(3) in auto)
  obtain x xs where x: "posted ?m = x # xs" using assms(2) by (cases "posted ?m") auto
  have xok: "post_ok B (u_hosts ?m) (length (conns ?m)) x" using inv(2) by (simp add: posts_ok_def x)
  note same = run_post_same_conns [OF conns(1,2)]
  have un: "unrecognised ?n = unrecognised n" by (intro unrecognised_cong) (simp_all add: same)
  have "links_weight ?n < links_weight n + post_weight (length (n_links n)) x"
    using run_post_conn_of [OF x xok conns] xok by (intro links_weight_post) auto
  then show ?thesis using un same(1) by (simp add: net_weight_def posts_weight_def post x)
qed

subsection \<open>All events\<close>

lemma transmit_weight:
  assumes "h < length (n_links n)" and "link_weight (conn_of (n_master n) h) (f (n_links n ! h)) < link_weight (conn_of (n_master n) h) (n_links n ! h)"
  shows "(net_weight (map_link h f n), net_weight n) \<in> less_than <*lex*> less_than"
  by (rule weight_one_link [OF assms(1), where l = "f (n_links n ! h)"]) (use assms in \<open>simp_all add: map_link_def\<close>)

lemma master_internal_weight:
  assumes "net_inv B n" and "master_enabled ev n" and "master_internal ev" and "master_handle B ev (n_master n) = Inr m'"
  shows "(net_weight ((master_moves ev n)\<lparr>n_master := m'\<rparr>), net_weight n) \<in> less_than <*lex*> less_than"
proof (cases ev)
  case (Accepted ec)
  with accept_weight [OF assms(1)] assms(2-4) show ?thesis by simp
next
  case (HeaderRead h ec data)
  with header_weight [OF assms(1)] assms(2-4) show ?thesis by simp
next
  case (BodyRead h ec data remote)
  with join_weight [OF assms(1)] assms(2-4) show ?thesis by simp
next
  case (Written h ec k)
  with written_weight [OF assms(1)] assms(2-4) show ?thesis by simp
next
  case RunPost
  with post_weight_less [OF assms(1)] assms(2,4) show ?thesis by simp
qed

lemma net_internal_weight:
  assumes "net_inv B n" and "net_enabled B ev n" and "net_internal ev" and "net_handle B ev n = Inr n'"
  shows "(net_weight n', net_weight n) \<in> less_than <*lex*> less_than"
proof (cases ev)
  case (SlaveArrives s addr)
  with assms(3) show ?thesis by simp
next
  case (SlaveEvent h sev)
  then have h: "h < length (n_links n)" "slave_enabled sev (n_links n ! h)" and i: "slave_internal sev" using assms(2,3) by simp_all
  let ?l = "n_links n ! h" and ?c = "conn_of (n_master n) h"
  obtain s' where s': "slave_handle B sev (l_slave ?l) = Inr s'" "n' = map_link h (\<lambda>l. (slave_moves sev l)\<lparr>l_slave := s'\<rparr>) n"
    using assms(4) by (auto simp: SlaveEvent res_bind_eq_Inr)
  have "slave_weight ((slave_moves sev ?l)\<lparr>l_slave := s'\<rparr>) < slave_weight ?l"
    using slave_event_effect [OF link_invD(1) [OF net_inv_link [OF assms(1) h(1)]] h(2) i s'(1)] by (simp add: lighter_def)
  moreover have "l_down_sent (slave_moves sev ?l) = l_down_sent ?l" by (cases sev) simp_all
  ultimately have "link_weight ?c ((slave_moves sev ?l)\<lparr>l_slave := s'\<rparr>) < link_weight ?c ?l" by (simp add: link_weight_def)
  then show ?thesis unfolding s'(2) by (rule transmit_weight [OF h(1)])
next
  case (MasterEvent mev)
  with assms master_internal_weight [OF assms(1)] show ?thesis by (auto simp: res_bind_eq_Inr)
next
  case (UpTransmit h k)
  let ?l = "n_links n ! h" and ?c = "conn_of (n_master n) h"
  have h: "h < length (n_links n)" "0 < k" "l_up_sent ?l + k \<le> length (front_wire (sm_queue (lm ?l)))"
    using assms(2) UpTransmit by (simp_all add: Let_def)
  have "n' = map_link h (\<lambda>l. l\<lparr>l_up := l_up l @ take k (drop (l_up_sent l) (front_wire (sm_queue (lm l)))), l_up_sent := l_up_sent l + k\<rparr>) n"
    using assms(4) by (simp add: UpTransmit)
  moreover have "link_weight ?c (?l\<lparr>l_up := l_up ?l @ take k (drop (l_up_sent ?l) (front_wire (sm_queue (lm ?l)))), l_up_sent := l_up_sent ?l + k\<rparr>)
      < link_weight ?c ?l"
    using write_weight_transmit [OF h(3)] h(2,3) by (simp add: link_weight_def slave_weight_def)
  ultimately show ?thesis using transmit_weight [OF h(1)] by simp
next
  case (DownTransmit h k)
  let ?l = "n_links n ! h" and ?c = "conn_of (n_master n) h"
  have h: "h < length (n_links n)" "0 < k" "l_down_sent ?l + k \<le> length (front_wire (mc_queue ?c))" and c: "?c = conns (n_master n) ! h"
    using assms(2) DownTransmit by (simp_all add: Let_def conn_of_def)
  have "n' = map_link h (\<lambda>l. l\<lparr>l_down := l_down l @ take k (drop (l_down_sent l) (front_wire (mc_queue ?c))), l_down_sent := l_down_sent l + k\<rparr>) n"
    using assms(4) by (simp add: DownTransmit c)
  moreover have "link_weight ?c (?l\<lparr>l_down := l_down ?l @ take k (drop (l_down_sent ?l) (front_wire (mc_queue ?c))), l_down_sent := l_down_sent ?l + k\<rparr>)
      < link_weight ?c ?l"
    using write_weight_transmit [OF h(3)] h(2,3) by (simp add: link_weight_def slave_weight_def conn_weight_def)
  ultimately show ?thesis using transmit_weight [OF h(1)] by simp
qed

interpretation net_settles: settling_system "net_enabled B" "net_handle B" "net_bounds B" "net_inv B" net_internal net_weight for B
  by unfold_locales (rule net_internal_weight)


subsection \<open>At rest\<close>

definition net_at_rest :: "boost_archive \<Rightarrow> network \<Rightarrow> bool" where
  "net_at_rest B n \<longleftrightarrow> (\<forall>ev. net_internal ev \<longrightarrow> \<not> net_enabled B ev n)"

definition both_open :: "nat \<Rightarrow> network \<Rightarrow> bool" where
  "both_open h n \<longleftrightarrow> h < length (n_links n) \<and> mc_open (conn_of (n_master n) h) \<and> sm_open (lm (n_links n ! h))"

lemma net_at_restD: "net_at_rest B n \<Longrightarrow> net_internal ev \<Longrightarrow> \<not> net_enabled B ev n"
  by (simp add: net_at_rest_def)

lemma rest_accepted:
  assumes "net_inv B n" and "net_at_rest B n"
  shows "length (conns (n_master n)) = length (n_links n)" and "posted (n_master n) = []"
  using net_at_restD [OF assms(2), of "MasterEvent (Accepted False)"] net_at_restD [OF assms(2), of "MasterEvent RunPost"] assms(1)
  by (auto simp: net_inv_def)

lemma counter_done: "counter_ok k w q \<Longrightarrow> w \<Longrightarrow> \<not> k < length (front_wire q) \<Longrightarrow> k = length (front_wire q)"
  by (simp add: counter_ok_def)

lemma rest_slave_sent:
  assumes "net_inv B n" and "net_at_rest B n" and "both_open h n"
  shows "sm_queue (lm (n_links n ! h)) = []" and "sm_posted (lm (n_links n ! h)) = []"
proof -
  let ?l = "n_links n ! h"
  have h: "h < length (n_links n)" "sm_open (lm ?l)" using assms(3) by (simp_all add: both_open_def)
  then have c: "counter_ok (l_up_sent ?l) (sm_writing (lm ?l)) (sm_queue (lm ?l))"
    using link_invD(1) [OF net_inv_link [OF assms(1) h(1)]] by (simp add: node_inv_def)
  have "\<not> sm_writing (lm ?l)"
  proof
    assume w: "sm_writing (lm ?l)"
    with net_at_restD [OF assms(2), of "UpTransmit h 1"] h have "\<not> l_up_sent ?l < length (front_wire (sm_queue (lm ?l)))" by (simp add: Let_def)
    from counter_done [OF c w this] net_at_restD [OF assms(2), of "SlaveEvent h (SlaveWritten False (l_up_sent ?l))"] h w
    show False by simp
  qed
  with c show "sm_queue (lm ?l) = []" by (simp add: counter_ok_def)
  show "sm_posted (lm ?l) = []" using net_at_restD [OF assms(2), of "SlaveEvent h SlaveRunPost"] h by simp
qed

lemma rest_master_sent:
  assumes "net_inv B n" and "net_at_rest B n" and "both_open h n"
  shows "mc_queue (conn_of (n_master n) h) = []"
proof -
  let ?l = "n_links n ! h" and ?c = "conn_of (n_master n) h"
  have h: "h < length (n_links n)" "mc_open ?c" "h < length (conns (n_master n))" and c: "?c = conns (n_master n) ! h"
    using assms(3) rest_accepted [OF assms(1,2)] by (auto simp: both_open_def conn_of_def)
  have k: "counter_ok (l_down_sent ?l) (mc_writing ?c) (mc_queue ?c)"
    using link_invD(2) [OF net_inv_link [OF assms(1) h(1)]] h(2) by (simp add: conn_inv_def)
  have "\<not> mc_writing ?c"
  proof
    assume w: "mc_writing ?c"
    with net_at_restD [OF assms(2), of "DownTransmit h 1"] h c have "\<not> l_down_sent ?l < length (front_wire (mc_queue ?c))" by (simp add: Let_def)
    from counter_done [OF k w this] net_at_restD [OF assms(2), of "MasterEvent (Written h False (l_down_sent ?l))"] h c w
    show False by (simp add: Let_def)
  qed
  with k show ?thesis by (simp add: counter_ok_def)
qed

text \<open>A stream of which a packet is left has enough octets for the read under way.\<close>

lemma stream_has_next:
  assumes "stream_ok rd q s ps" and "list_all framed ps" and "ps \<noteq> []"
  shows "rd = ReadHeader \<and> Packet_sizeLength \<le> length s \<or> rd = ReadBody \<and> unat (pkt_size q) \<le> length s"
proof -
  obtain p ps' where ps: "ps = p # ps'" using assms(3) by (cases ps) auto
  with assms(2) obtain msg where msg: "length msg < 2 ^ 48" "Packet_wire p = host_to_network_64 (of_nat (length msg)) @ msg"
    "Packet_received p = \<lparr>pkt_size = of_nat (length msg), pkt_data = msg\<rparr>" by (auto elim: framedE)
  with assms(1) ps show ?thesis by (cases rd) (simp_all add: wire64.length_enc Packet_sizeLength_def unat_of_nat_small)
qed

lemma stream_drained: "stream_ok rd q s [] \<Longrightarrow> rd = ReadHeader \<and> s = []"
  by (cases rd) simp_all

lemma rest_recognised:
  assumes "net_inv B n" and "net_at_rest B n" and "both_open h n"
  shows "mc_slave_id (conn_of (n_master n) h) \<noteq> 0" and "l_up (n_links n ! h) = []"
proof -
  let ?l = "n_links n ! h" and ?c = "conn_of (n_master n) h"
  have h: "h < length (n_links n)" "mc_open ?c" "sm_open (lm ?l)" "h < length (conns (n_master n))" and c: "?c = conns (n_master n) ! h"
    using assms(3) rest_accepted [OF assms(1,2)] by (auto simp: both_open_def conn_of_def)
  have l: "node_inv B ?l" "up_inv B ?c ?l" using link_invD(1,3) [OF net_inv_link [OF assms(1) h(1)]] by simp_all
  have "length (hello_of B (l_start ?l)) < 2 ^ 48" using l(1) by (simp add: node_inv_def slave_ready_def)
  then have fr: "list_all framed (awaited B (mc_slave_id ?c) (l_start ?l))" by (auto simp: awaited_def framed_def)
  have st: "stream_ok (mc_read ?c) (mc_packet ?c) (l_up ?l) (awaited B (mc_slave_id ?c) (l_start ?l))"
    using l(2) h rest_slave_sent [OF assms] by (simp add: up_inv_def unsent_def slave_posts_def)
  have "awaited B (mc_slave_id ?c) (l_start ?l) = []"
  proof (rule ccontr)
    assume "awaited B (mc_slave_id ?c) (l_start ?l) \<noteq> []"
    from stream_has_next [OF st fr this] show False using h c
      net_at_restD [OF assms(2), of "MasterEvent (HeaderRead h False (take Packet_sizeLength (l_up ?l)))"]
      net_at_restD [OF assms(2), of "MasterEvent (BodyRead h False (take (unat (pkt_size (mc_packet ?c))) (l_up ?l)) (l_addr ?l))"]
      by (elim disjE) (simp_all add: Let_def min_absorb2)
  qed
  with stream_drained st show "l_up ?l = []" "mc_slave_id ?c \<noteq> 0" by (auto simp: awaited_def)
qed

lemma rest_agrees:
  assumes "net_inv B n" and "net_at_rest B n" and "both_open h n"
  shows "l_down (n_links n ! h) = []" and "in_sync (n_master n) (l_slave (n_links n ! h))"
    and "u_host_id (l_slave (n_links n ! h)) = mc_slave_id (conn_of (n_master n) h)"
proof -
  let ?l = "n_links n ! h" and ?c = "conn_of (n_master n) h"
  have h: "h < length (n_links n)" "mc_open ?c" "sm_open (lm ?l)" using assms(3) by (simp_all add: both_open_def)
  have "down_inv B (n_master n) ?c (posts h (n_master n)) ?l" using link_invD(4) [OF net_inv_link [OF assms(1) h(1)]] .
  then obtain rest ps where "stream_ok (sm_read (lm ?l)) (sm_packet (lm ?l)) (l_down ?l @ rest) ps"
    and due: "due B (n_master n) ?c (posts h (n_master n)) ?l rest ps" using h by (auto simp: down_inv_def)
  then have st: "stream_ok (sm_read (lm ?l)) (sm_packet (lm ?l)) (l_down ?l) ps"
    using h rest_master_sent [OF assms] by (simp add: due_def unsent_def)
  have "ps = []"
  proof (rule ccontr)
    assume "ps \<noteq> []"
    from stream_has_next [OF st due_framed [OF due] this] show False using h
      net_at_restD [OF assms(2), of "SlaveEvent h (SlaveHeaderRead False (take Packet_sizeLength (l_down ?l)))"]
      net_at_restD [OF assms(2), of "SlaveEvent h (SlaveBodyRead False (take (unat (pkt_size (sm_packet (lm ?l)))) (l_down ?l)))"]
      by (elim disjE) (simp_all add: min_absorb2)
  qed
  with stream_drained st show "l_down ?l = []" by blast
  have "told_inv B (n_master n) (mc_slave_id ?c) (l_slave ?l) []"
    using due h \<open>ps = []\<close> rest_accepted(2) [OF assms(1,2)] by (simp add: due_def posts_def)
  then show "in_sync (n_master n) (l_slave ?l)" "u_host_id (l_slave ?l) = mc_slave_id ?c"
    using rest_recognised(1) [OF assms] by (simp_all add: told_inv_def slave_ok_def)
qed

end
