(* ===== verification/Network_Effects.thy ===== *)
theory Network_Effects
  imports Network_Settle
begin

section \<open>What events change of the metadata; the group settles\<close>

text \<open>
  An event of the master is one of three kinds. Accepting, reading a header, completing a write and
  running a closure are quiet: tree, hosts, ids and connections stay. Taking a hello message is a join.
  A failure closes a connection: the hosts stay, and of the tree only nodes go. The first two kinds are
  the internal ones, so without failures nothing is closed, and since internal events cannot go on for
  ever, a group in which nothing fails comes to rest with all its members in agreement.
\<close>

subsection \<open>Quiet events and failures\<close>

definition quiet :: "UserFS \<Rightarrow> UserFS \<Rightarrow> bool" where
  "quiet m m' \<longleftrightarrow>
     u_dir_tree m' = u_dir_tree m \<and> u_hosts m' = u_hosts m \<and> u_max_host_id m' = u_max_host_id m \<and>
     (\<forall>k. mc_open (conn_of m' k) = mc_open (conn_of m k) \<and> mc_slave_id (conn_of m' k) = mc_slave_id (conn_of m k))"

definition shrinks :: "UserFS \<Rightarrow> UserFS \<Rightarrow> bool" where
  "shrinks m m' \<longleftrightarrow>
     u_hosts m' = u_hosts m \<and> set (root_children m') \<subseteq> set (root_children m) \<and>
     (\<forall>k. mc_slave_id (conn_of m' k) \<in> {0, mc_slave_id (conn_of m k)})"

lemma quiet_shrinks: "quiet m m' \<Longrightarrow> shrinks m m'"
  by (simp add: quiet_def shrinks_def root_children_def)

lemma quiet_set_conn:
  assumes "h < length (conns m)" and "mc_open c = mc_open (conns m ! h)" and "mc_slave_id c = mc_slave_id (conns m ! h)"
  shows "quiet m (set_conn h c m)"
  using assms by (auto simp: quiet_def conn_of_def nth_list_update)

lemma quiet_run_post:
  assumes "net_inv B n" and "master_handle B RunPost (n_master n) = Inr m'"
  shows "quiet (n_master n) m'"
proof -
  let ?m = "n_master n"
  have inv: "master_inv ?m" using assms(1) by (simp add: net_inv_def)
  obtain mm where m': "u_dir_tree m' = u_dir_tree ?m" "u_hosts m' = u_hosts ?m" "u_max_host_id m' = u_max_host_id ?m"
    and conns: "conns m' = mm_connections (master_run_post mm)" "conns ?m = mm_connections mm"
    by (rule run_post_state [OF inv, of B]) (use assms(2) in auto)
  from m' run_post_same_conns(2,3) [OF conns] show ?thesis by (simp add: quiet_def)
qed

lemma master_event_quiet:
  assumes "net_inv B n" and "master_enabled ev n" and "master_handle B ev (n_master n) = Inr m'"
    and "master_internal ev \<or> (\<exists>ec. ev = Accepted ec)" and "\<forall>h data remote. ev \<noteq> BodyRead h False data remote"
  shows "quiet (n_master n) m'"
proof (cases ev)
  case (Accepted ec)
  from accept_state [OF assms(3) [unfolded Accepted]] show ?thesis
    by (auto simp: quiet_def conn_of_def nth_append)
next
  case (HeaderRead h ec data)
  then have e: "\<not> ec" "h < length (conns (n_master n))" using assms(2,4) by auto
  obtain c where "m' = set_conn h c (n_master n)" "mc_open c = mc_open (conns (n_master n) ! h)"
    "mc_slave_id c = mc_slave_id (conns (n_master n) ! h)"
    by (rule header_state [OF assms(1), of h data]) (use assms(2,3) HeaderRead e in auto)
  with quiet_set_conn [OF e(2)] show ?thesis by simp
next
  case (BodyRead h ec data remote)
  with assms(4,5) show ?thesis by auto
next
  case (Written h ec k)
  then have e: "\<not> ec" "h < length (conns (n_master n))" using assms(2,4) by auto
  with written_state(1) [OF assms(1), of h k] assms(2,3) quiet_set_conn [OF e(2), of "conn_write_finished (conns (n_master n) ! h)"] Written
  show ?thesis by auto
next
  case RunPost
  with quiet_run_post [OF assms(1)] assms(3) show ?thesis by blast
qed

lemma close_shrinks:
  assumes "master_inv m" and "h < length (conns m)" and "TCPMasterMessager_close B h m = Inr m'"
  shows "shrinks m m'"
proof -
  obtain c where c: "conns m' = (conns m)[h := c]" "mc_slave_id c = 0" "u_hosts m' = u_hosts m"
    by (rule close_effect [OF assms(1,2), of B]) (use assms(3) in auto)
  obtain r where r: "u_dir_tree m = Some r" using master_inv_tree [OF assms(1)] by blast
  have role: "master_role m" using assms(1) by (simp add: master_inv_def)
  have "set (root_children m') \<subseteq> set (root_children m)"
  proof (cases "mc_open (conns m ! h)")
    case False
    with close_closed [OF role assms(2) False] assms(3) show ?thesis by simp
  next
    case True
    then have "same_but_posted (left h m) m'"
      using close_implements_left [OF role r assms(2) True, of B] assms(3) by auto
    then show ?thesis by (auto simp: same_but_posted_def root_children_def left_def Let_def r)
  qed
  with c show ?thesis using conn_of_update [OF c(1) assms(2)] by (simp add: shrinks_def)
qed

text \<open>What fails closes a connection; the handler has only updated buffers and flags of it before.\<close>

lemma master_error_closes:
  assumes "net_inv B n" and "master_enabled ev n" and "master_handle B ev (n_master n) = Inr m'"
    and "\<not> (master_internal ev \<or> (\<exists>ec. ev = Accepted ec))"
  obtains h c where "h < length (conns (n_master n))" and "mc_open c = mc_open (conns (n_master n) ! h)"
    and "mc_slave_id c = mc_slave_id (conns (n_master n) ! h)"
    and "TCPMasterMessager_close B h (set_conn h c (n_master n)) = Inr m'"
proof -
  consider (hdr) h data where "ev = HeaderRead h True data" | (body) h data remote where "ev = BodyRead h True data remote"
    | (wr) h k where "ev = Written h True k" using assms(4) by (cases ev) auto
  then show thesis
  proof cases
    case hdr
    then have h: "h < length (conns (n_master n))" using assms(2) by simp
    with assms(3) hdr show thesis by (auto simp: master_header_handler_def net_inv_conn_link(2) [OF assms(1) h] Let_def dest!: that [OF h, rotated 2])
  next
    case body
    then have h: "h < length (conns (n_master n))" using assms(2) by simp
    with assms(3) body show thesis by (auto simp: master_body_handler_def net_inv_conn_link(2) [OF assms(1) h] Let_def dest!: that [OF h, rotated 2])
  next
    case wr
    then have h: "h < length (conns (n_master n))" using assms(2) by simp
    with assms(3) wr show thesis by (auto simp: master_write_handler_def net_inv_conn_link(2) [OF assms(1) h] dest!: that [OF h, rotated 2])
  qed
qed

lemma master_event_shrinks:
  assumes "net_inv B n" and "master_enabled ev n" and "master_handle B ev (n_master n) = Inr m'"
    and "\<forall>h data remote. ev \<noteq> BodyRead h False data remote"
  shows "shrinks (n_master n) m'"
proof (cases "master_internal ev \<or> (\<exists>ec. ev = Accepted ec)")
  case True
  with master_event_quiet [OF assms(1-3) _ assms(4)] show ?thesis by (blast intro: quiet_shrinks)
next
  case False
  obtain h c where h: "h < length (conns (n_master n))" and c: "mc_open c = mc_open (conns (n_master n) ! h)"
    "mc_slave_id c = mc_slave_id (conns (n_master n) ! h)" and close: "TCPMasterMessager_close B h (set_conn h c (n_master n)) = Inr m'"
    by (rule master_error_closes [OF assms(1-3) False])
  have "master_inv (n_master n)" using assms(1) by (simp add: net_inv_def)
  then have inv: "master_inv (set_conn h c (n_master n))" using c by (intro set_conn_keeps_inv)
  have "quiet (n_master n) (set_conn h c (n_master n))" by (rule quiet_set_conn [OF h c])
  with close_shrinks [OF inv _ close] h show ?thesis by (auto simp: quiet_def shrinks_def root_children_def)
qed

subsection \<open>Links stay\<close>

lemma slave_moves_kept [simp]: "l_start (slave_moves ev l) = l_start l" "l_addr (slave_moves ev l) = l_addr l"
  by (cases ev; simp)+

lemma master_moves_kept:
  "length (n_links (master_moves ev n)) = length (n_links n)"
  "k < length (n_links n) \<Longrightarrow> l_start (n_links (master_moves ev n) ! k) = l_start (n_links n ! k)"
  "k < length (n_links n) \<Longrightarrow> l_addr (n_links (master_moves ev n) ! k) = l_addr (n_links n ! k)"
  by (cases ev; simp add: map_link_nth)+

lemma net_links_kept:
  assumes "net_handle B ev n = Inr n'" and "k < length (n_links n)"
  shows "l_start (n_links n' ! k) = l_start (n_links n ! k)" and "l_addr (n_links n' ! k) = l_addr (n_links n ! k)"
    and "length (n_links n) \<le> length (n_links n')" and "(\<forall>s addr. ev \<noteq> SlaveArrives s addr) \<Longrightarrow> length (n_links n') = length (n_links n)"
  using assms by (cases ev; auto simp: res_bind_eq_Inr map_link_nth nth_append master_moves_kept)+

subsection \<open>Internal events\<close>

abbreviation net_internal_step :: "boost_archive \<Rightarrow> network \<Rightarrow> network \<Rightarrow> bool" where
  "net_internal_step B \<equiv> step_of net_internal (net_enabled B) (net_handle B) (net_bounds B)"

text \<open>An internal event would carry the group beyond the bounds.\<close>

definition net_overflows :: "boost_archive \<Rightarrow> network \<Rightarrow> bool" where
  "net_overflows B n \<longleftrightarrow> (\<exists>ev n'. net_internal ev \<and> net_enabled B ev n \<and> net_handle B ev n = Inr n' \<and> \<not> net_bounds B n')"

definition same_tables :: "UserFS \<Rightarrow> UserFS \<Rightarrow> bool" where
  "same_tables m m' \<longleftrightarrow> u_dir_tree m' = u_dir_tree m \<and> u_hosts m' = u_hosts m \<and> u_max_host_id m' = u_max_host_id m"

lemma join_keeps_open:
  assumes "net_inv B n" and "master_enabled (BodyRead h False data remote) n"
    and "master_handle B (BodyRead h False data remote) (n_master n) = Inr m'"
  shows "mc_open (conn_of m' k) = mc_open (conn_of (n_master n) k)" and "unrecognised n \<noteq> 0"
proof -
  let ?m = "n_master n"
  obtain p b where fresh: "fresh_connection h ?m"
    and conns: "conns m' = (conns ?m)[h := (conns ?m ! h)\<lparr>mc_packet := p, mc_slave_id := u_max_host_id ?m, mc_buffer := b, mc_read := ReadHeader\<rparr>]"
    by (rule net_join_effect [OF assms(1,2)]) (use assms(3) in auto)
  have h: "h < length (conns ?m)" "mc_open (conns ?m ! h)" "mc_slave_id (conns ?m ! h) = 0" "h < length (n_links n)"
    using fresh assms(1) by (simp_all add: fresh_connection_def net_inv_def)
  from conn_of_update [OF conns h(1)] show "mc_open (conn_of m' k) = mc_open (conn_of ?m k)" using h(1) by (simp add: conn_of_def)
  show "unrecognised n \<noteq> 0" using h by (auto simp: unrecognised_def conn_of_def)
qed

lemma net_internal_effect:
  assumes "net_inv B n" and "net_enabled B ev n" and "net_internal ev" and "net_handle B ev n = Inr n'"
  shows "both_open h n \<Longrightarrow> both_open h n'"
    and "unrecognised n = 0 \<or> (\<forall>k data remote. ev \<noteq> MasterEvent (BodyRead k False data remote)) \<Longrightarrow> same_tables (n_master n) (n_master n')"
proof -
  have "(both_open h n \<longrightarrow> both_open h n') \<and>
      (unrecognised n = 0 \<or> (\<forall>k data remote. ev \<noteq> MasterEvent (BodyRead k False data remote)) \<longrightarrow> same_tables (n_master n) (n_master n'))"
  proof (cases ev)
    case (SlaveArrives s addr)
    with assms(3) show ?thesis by simp
  next
    case (SlaveEvent k sev)
    then have k: "k < length (n_links n)" "slave_enabled sev (n_links n ! k)" "slave_internal sev" using assms(2,3) by simp_all
    obtain s' where s': "slave_handle B sev (l_slave (n_links n ! k)) = Inr s'" "n' = map_link k (\<lambda>l. (slave_moves sev l)\<lparr>l_slave := s'\<rparr>) n"
      using assms(4) by (auto simp: SlaveEvent res_bind_eq_Inr)
    have "sm_open (messager s') = sm_open (lm (n_links n ! k))"
      using slave_event_effect [OF link_invD(1) [OF net_inv_link [OF assms(1) k(1)]] k(2,3) s'(1)] by (simp add: lighter_def)
    with s'(2) k(1) show ?thesis by (auto simp: both_open_def same_tables_def map_link_nth)
  next
    case (MasterEvent mev)
    then obtain m' where m': "master_handle B mev (n_master n) = Inr m'" "n' = (master_moves mev n)\<lparr>n_master := m'\<rparr>"
      using assms(4) by (auto simp: res_bind_eq_Inr)
    have mev: "master_enabled mev n" "master_internal mev" using MasterEvent assms(2,3) by simp_all
    have links: "length (n_links n') = length (n_links n) \<and> lm (n_links n' ! h) = lm (n_links n ! h)" if "h < length (n_links n)"
      using m'(2) that by (cases mev) (simp_all add: map_link_nth)
    show ?thesis
    proof (cases "\<exists>k data remote. mev = BodyRead k False data remote")
      case True
      then obtain k data remote where j: "mev = BodyRead k False data remote" by blast
      note open_kept = join_keeps_open [OF assms(1) mev(1) [unfolded j] m'(1) [unfolded j]]
      show ?thesis using open_kept m'(2) links MasterEvent j by (auto simp: both_open_def)
    next
      case False
      then have "quiet (n_master n) m'" using mev by (intro master_event_quiet [OF assms(1) mev(1) m'(1)]) auto
      with m'(2) links show ?thesis by (auto simp: quiet_def both_open_def same_tables_def)
    qed
  next
    case (UpTransmit k j)
    with assms(4) show ?thesis by (auto simp: both_open_def same_tables_def map_link_nth)
  next
    case (DownTransmit k j)
    with assms(4) show ?thesis by (auto simp: both_open_def same_tables_def map_link_nth)
  qed
  then show "both_open h n \<Longrightarrow> both_open h n'"
    and "unrecognised n = 0 \<or> (\<forall>k data remote. ev \<noteq> MasterEvent (BodyRead k False data remote)) \<Longrightarrow> same_tables (n_master n) (n_master n')"
    by blast+
qed

text \<open>When everyone is recognised, internal events stay within the bounds and change no view of the master.\<close>

lemma net_internal_settled:
  assumes "net_inv B n" and "unrecognised n = 0" and "net_enabled B ev n" and "net_internal ev" and "net_handle B ev n = Inr n'"
  shows "net_bounds B n'" and "unrecognised n' = 0"
proof -
  have "same_tables (n_master n) (n_master n')" using net_internal_effect(2) [OF assms(1,3-5)] assms(2) by simp
  then have "net_bounds B n' = net_bounds B n" by (intro net_bounds_meta) (simp_all add: same_tables_def)
  with assms(1) show "net_bounds B n'" by (simp add: net_inv_def)
  show "unrecognised n' = 0" using net_internal_weight [OF assms(1,3-5)] assms(2) by (simp add: net_weight_def)
qed

lemma not_overflowing: "net_inv B n \<Longrightarrow> unrecognised n = 0 \<Longrightarrow> \<not> net_overflows B n"
  using net_internal_settled(1) by (auto simp: net_overflows_def)

lemma internal_run_effect:
  assumes "(net_internal_step B)\<^sup>*\<^sup>* n n'" and "net_inv B n"
  shows "net_inv B n' \<and> (\<forall>h. both_open h n \<longrightarrow> both_open h n') \<and>
    (unrecognised n = 0 \<longrightarrow> unrecognised n' = 0 \<and> same_tables (n_master n) (n_master n'))"
  using assms
proof (induction rule: rtranclp_induct)
  case base
  then show ?case by (simp add: same_tables_def)
next
  case (step n1 n2)
  then have inv: "net_inv B n1" by blast
  from step(2) obtain ev where ev: "net_enabled B ev n1" "net_internal ev" "net_handle B ev n1 = Inr n2" "net_bounds B n2"
    by (auto simp: step_of_def)
  have "net_inv B n2" using net_event_ok [OF inv ev(1)] ev(3,4) by auto
  with step net_internal_effect [OF inv ev(1-3)] net_internal_settled(2) [OF inv _ ev(1-3)] show ?case by (auto simp: same_tables_def)
qed

lemma net_comes_to_rest:
  assumes "net_inv B n"
  shows "\<exists>n'. (net_internal_step B)\<^sup>*\<^sup>* n n' \<and> net_inv B n' \<and> (net_at_rest B n' \<or> net_overflows B n')"
proof -
  obtain n' where n': "(net_internal_step B)\<^sup>*\<^sup>* n n'" "net_inv B n'" "\<forall>n''. \<not> net_internal_step B n' n''"
    using net_settles.internal_end [OF assms] by blast
  have "net_at_rest B n' \<or> net_overflows B n'"
  proof (rule disjCI)
    assume "\<not> net_overflows B n'"
    with n'(3) net_event_ok [OF n'(2)] show "net_at_rest B n'"
      unfolding net_at_rest_def net_overflows_def step_of_def by metis
  qed
  with n'(1,2) show ?thesis by blast
qed

end
