(* ===== verification/Network_Start.thy ===== *)
theory Network_Start
  imports Network_Effects
begin

section \<open>Starting the nodes of a network\<close>

text \<open>
  A run of the network begins with a master that has started and listens, and no slaves. This theory
  shows that the start-up operations of the program lead there, that a slave which has started
  is ready to arrive, and follows a small network until its slave is recognised and everything is quiet.
\<close>

subsection \<open>The start of a master\<close>

definition net_initial :: "boost_archive \<Rightarrow> network \<Rightarrow> bool" where
  "net_initial B n \<longleftrightarrow>
     archive_lossless B \<and> master_inv (n_master n) \<and> net_bounds B n \<and> accepting (n_master n) \<and>
     conns (n_master n) = [] \<and> posted (n_master n) = [] \<and> n_links n = []"

lemma net_initial_inv: "net_initial B n \<Longrightarrow> net_inv B n"
  by (simp add: net_initial_def net_inv_def posts_ok_def)

lemma net_run_inv: "net_initial B n0 \<Longrightarrow> net_run B n0 n \<Longrightarrow> net_inv B n"
  by (rule net.run_inv [OF _ net_initial_inv])

lemma master_start_accepting:
  assumes "u_host_id fs = 1" and "UserFS_initTCPNetwork B resolve False addr port fs = Inr (False, fs')"
  shows "accepting fs'"
  using assms
  by (auto simp: UserFS_initTCPNetwork_def TCPManager_initialize_def TCPManager_start_def TCPMasterMessager_init_def
      TCPMasterMessager_start_def TCPMasterMessager_new_def UserFS_pushMaster_def res_bind_eq_Inr accepting_def Let_def
      split: prod.splits if_splits list.splits)

lemma net_initial_start:
  assumes "archive_lossless B"
    and "UserFS_initDirTree absolute junk now nl es wd (UserFS_setMaster UserFS_new) = Inr fs0"
    and "UserFS_initTCPNetwork B resolve False addr port (UserFS_initHost addr tcp_port ssh_port fs0) = Inr (False, fs)"
    and "net_bounds B \<lparr>n_master = fs, n_links = []\<rparr>"
  shows "net_initial B \<lparr>n_master = fs, n_links = []\<rparr>"
proof -
  have "u_host_id fs0 = 1" by (rule initDirTree_ok [OF assms(2)]) (simp add: UserFS_setMaster_def)
  then have id: "u_host_id (UserFS_initHost addr tcp_port ssh_port fs0) = 1" by (simp add: UserFS_initHost_def)
  from master_start_conns [OF id assms(3)] master_start_accepting [OF id assms(3)] master_start [OF assms(2,3)] assms(1,4)
  show ?thesis by (simp add: net_initial_def)
qed

subsection \<open>The start of a slave\<close>

text \<open>
  A slave that has come through \<^verbatim>\<open>initDirTree\<close>, \<^verbatim>\<open>initHost\<close> and \<^verbatim>\<open>initTCPNetwork\<close> is ready, and
  stays so when its first closure runs before the connection stands.
\<close>

lemma slave_start_ready:
  assumes "UserFS_initDirTree absolute junk now nl es wd UserFS_new = Inr fs"
    and "UserFS_initTCPNetwork B resolve listen_error addr port (UserFS_initHost addr tcp_port ssh_port fs) = Inr (False, fs')"
    and "length (hello_of B fs') < 2 ^ 48"
  shows "slave_ready B fs'"
proof (rule initDirTree_scan_inv [OF assms(1)])
  fix r
  assume fs: "fs = UserFS_new\<lparr>u_working_dir := add_trailing_slash (absolute wd), u_dir_tree := Some r\<rparr>"
    and inv: "scan_inv (u_host_id UserFS_new) (tn_children r)"
  have "wf_node r" using wf_node_iff [of r] inv by (auto simp: scan_inv_def)
  moreover have "list_all (owned_by 0) (tn_children r)" using inv by (simp add: scan_inv_def UserFS_new_def)
  ultimately show ?thesis
    using assms(2,3)
    by (auto simp: slave_ready_def root_children_def hello_of_def own_host_def UserFS_initTCPNetwork_def UserFS_initHost_def fs UserFS_new_def
        TCPManager_initialize_def TCPManager_start_def TCPManager_write_def TCPSlaveMessager_init_def
        TCPSlaveMessager_start_def TCPSlaveMessager_new_def TCPSlaveMessager_write_def slave_do_connect_def TCPManager_new_def
        Hosts_at_def Hosts_push_def wf_tree_def Let_def split: prod.splits if_splits)
qed

lemma slave_ready_run_post:
  assumes "slave_ready B s" and "slave_handle B SlaveRunPost s = Inr s'"
  shows "slave_ready B s'"
proof -
  obtain m where m: "tm_slave (u_tcp_manager s) = Some m" using assms(1) by (auto simp: slave_ready_def split: option.splits)
  then have s': "s' = set_slave (slave_run_post m) s" using assms(2) by (simp add: slave_of_def)
  have "hello_of B s' = hello_of B s" "own_host s' = own_host s" by (simp_all add: s' hello_of_def own_host_def)
  with assms(1) m show ?thesis
    by (auto simp: slave_ready_def root_children_def s' slave_run_post_def slave_enqueue_def slave_do_write_def Let_def)
qed


subsection \<open>A small network\<close>

definition sample_net_master :: UserFS where
  "sample_net_master = (sample_master [])\<lparr>u_tcp_manager := TCPManager_new\<lparr>tm_is_master := True,
     tm_master := Some (TCPMasterMessager_new\<lparr>mm_accepting := True\<rparr>)\<rparr>\<rparr>"

definition sample_net :: network where
  "sample_net = \<lparr>n_master = sample_net_master, n_links = []\<rparr>"

definition sample_slave :: UserFS where
  "sample_slave = UserFS_new\<lparr>u_working_dir := h_working_dir (sample_host 0), u_dir_tree := Some standby_tree,
     u_hosts := [sample_host 0],
     u_tcp_manager := TCPManager_new\<lparr>tm_is_slave := True,
       tm_slave := Some (TCPSlaveMessager_new\<lparr>sm_connecting := True, sm_open := True,
         sm_posted := [SlavePostWrite (Packet_encodeData (hello_message (DirTree_serialize tagged_archive (Some standby_tree))
           (Host_serialize tagged_archive (sample_host 0))))]\<rparr>)\<rparr>\<rparr>"

lemma sample_net_master_meta:
  "u_dir_tree sample_net_master = u_dir_tree (sample_master [])" "u_hosts sample_net_master = u_hosts (sample_master [])"
  "u_max_host_id sample_net_master = 2" "conns sample_net_master = []" "posted sample_net_master = []" "accepting sample_net_master"
  by (simp_all add: sample_net_master_def conns_def posted_def accepting_def TCPMasterMessager_new_def sample_master_def sample_scan_def
      UserFS_new_def)

lemma sample_net_initial: "net_initial tagged_archive sample_net"
proof -
  have g: "master_inv (sample_master [])" "fits tagged_archive (sample_master [])"
    using sample_group_initial by (simp_all add: group_initial_def sample_group_def)
  then have "master_inv sample_net_master"
    by (simp add: master_inv_def tree_inv_def hosts_inv_def conns_inv_def slave_ids_def root_children_def sample_net_master_meta)
      (simp add: master_role_def sample_net_master_def)
  moreover have "length (update_of tagged_archive sample_net_master) + 8 < 2 ^ 48"
    by (simp add: update_of_def length_update_message sample_net_master_meta)
      (simp add: sample_master_def sample_scan_def UserFS_new_def sample_save)
  ultimately show ?thesis
    using g(2) by (simp add: net_initial_def sample_net_def net_bounds_def fits_def sample_net_master_meta archive_lossless_tagged)
qed

lemma sample_slave_ready: "slave_ready tagged_archive sample_slave"
  using sample_sizes(1)
  by (simp add: slave_ready_def hello_of_def own_host_def sample_slave_def UserFS_new_def TCPSlaveMessager_new_def wf_tree_def root_children_def)
    (simp add: sample_defs owned_by_def)

text \<open>While the slave joins: the master is as it was, or the slave is recognised and its files are merged.\<close>

definition sample_merged :: DirTree where
  "sample_merged = u_dir_tree (joined ''10.0.0.7'' standby_tree (sample_host 0) 0 (sample_master []))"

definition sample_joining :: "network \<Rightarrow> bool" where
  "sample_joining n \<longleftrightarrow>
     unrecognised n = 0 \<and> u_dir_tree (n_master n) = sample_merged \<or>
     same_tables sample_net_master (n_master n) \<and> length (n_links n) = 1 \<and> l_start (n_links n ! 0) = sample_slave \<and>
     l_addr (n_links n ! 0) = ''10.0.0.7''"

lemma sample_join:
  assumes "net_inv tagged_archive n" and "same_tables sample_net_master (n_master n)" and "length (n_links n) = 1"
    and "l_start (n_links n ! 0) = sample_slave" and "l_addr (n_links n ! 0) = ''10.0.0.7''"
    and "master_enabled (BodyRead h False data remote) n"
    and "master_handle tagged_archive (BodyRead h False data remote) (n_master n) = Inr m'"
    and "n' = (master_moves (BodyRead h False data remote) n)\<lparr>n_master := m'\<rparr>"
  shows "net_bounds tagged_archive n' \<and> unrecognised n' = 0 \<and> u_dir_tree (n_master n') = sample_merged"
proof -
  let ?m = "n_master n" and ?l = "n_links n ! 0"
  note old = assms(2-5)
  have h: "h = 0" "h < length (conns ?m)" using assms(1,6) old(2) by (simp_all add: net_inv_def)
  have own: "own_tree sample_slave = standby_tree" "own_host sample_slave = sample_host 0"
    by (simp_all add: own_tree_def own_host_def sample_slave_def)
  obtain b p where tree: "u_dir_tree m' = u_dir_tree (joined ''10.0.0.7'' standby_tree (sample_host 0) h ?m)"
    and hosts: "u_hosts m' = u_hosts (joined ''10.0.0.7'' standby_tree (sample_host 0) h ?m)"
    and max: "u_max_host_id m' = u_max_host_id ?m + 1"
    and conns: "conns m' = (conns ?m)[h := (conns ?m ! h)\<lparr>mc_packet := p, mc_slave_id := u_max_host_id ?m, mc_buffer := b, mc_read := ReadHeader\<rparr>]"
    by (rule net_join_effect [OF assms(1,6)]) (use assms(7) h old own in auto)
  have meta: "u_dir_tree ?m = u_dir_tree (sample_master [])" "u_hosts ?m = u_hosts (sample_master [])" "u_max_host_id ?m = 2"
    using old(1) by (simp_all add: same_tables_def sample_net_master_meta)
  have "u_max_host_id m' = 3" using max meta(3) by simp
  from sample_joined_fits [OF meta tree hosts this] have "net_bounds tagged_archive n'" by (simp add: net_bounds_def assms(8))
  moreover have "length (n_links n') = 1" using old(2) by (simp add: assms(8) master_moves_kept)
  then have "unrecognised n' = 0"
    using conn_of_update [OF conns h(2)] h(1) meta(3) by (simp add: unrecognised_def assms(8))
  moreover have "u_dir_tree (n_master n') = sample_merged" using tree meta by (simp add: assms(8) sample_merged_def)
  ultimately show ?thesis by blast
qed

lemma sample_joining_step:
  assumes "net_inv tagged_archive n" and "sample_joining n" and "net_enabled tagged_archive ev n" and "net_internal ev"
    and "net_handle tagged_archive ev n = Inr n'"
  shows "net_bounds tagged_archive n' \<and> sample_joining n'"
proof (cases "unrecognised n = 0 \<and> u_dir_tree (n_master n) = sample_merged")
  case True
  then have "same_tables (n_master n) (n_master n')" by (intro net_internal_effect(2) [OF assms(1,3-5)]) simp
  with True net_internal_settled [OF assms(1) _ assms(3-5)] show ?thesis by (simp add: sample_joining_def same_tables_def)
next
  case False
  then have old: "same_tables sample_net_master (n_master n)" "length (n_links n) = 1" "l_start (n_links n ! 0) = sample_slave" "l_addr (n_links n ! 0) = ''10.0.0.7''"
    using assms(2) by (auto simp: sample_joining_def)
  show ?thesis
  proof (cases "\<exists>h data remote. ev = MasterEvent (BodyRead h False data remote)")
    case True
    then obtain h data remote m' where ev: "ev = MasterEvent (BodyRead h False data remote)" and m':
      "master_handle tagged_archive (BodyRead h False data remote) (n_master n) = Inr m'" "n' = (master_moves (BodyRead h False data remote) n)\<lparr>n_master := m'\<rparr>"
      using assms(5) by (auto simp: res_bind_eq_Inr)
    have "master_enabled (BodyRead h False data remote) n" using assms(3) ev by simp
    from sample_join [OF assms(1) old this m'] show ?thesis by (simp add: sample_joining_def)
  next
    case no_join: False
    then have same: "same_tables (n_master n) (n_master n')" by (intro net_internal_effect(2) [OF assms(1,3-5)]) blast
    have "net_bounds tagged_archive n' = net_bounds tagged_archive n" using same by (intro net_bounds_meta) (simp_all add: same_tables_def)
    then have "net_bounds tagged_archive n'" using assms(1) by (simp add: net_inv_def)
    moreover have "\<forall>s addr. ev \<noteq> SlaveArrives s addr" using assms(4) by auto
    ultimately show ?thesis
      using net_links_kept [OF assms(5), of 0] old same by (simp add: sample_joining_def same_tables_def)
  qed
qed


text \<open>After its slave has arrived the small network comes to rest, with the slave recognised.\<close>

lemma internal_steps_run: "(net_internal_step B)\<^sup>*\<^sup>* n n' \<Longrightarrow> net_run B n n'"
  by (induction rule: rtranclp_induct) (auto simp: step_of_def intro: run.intros)

lemma sample_joining_run:
  assumes "(net_internal_step tagged_archive)\<^sup>*\<^sup>* n n'" and "net_inv tagged_archive n" and "sample_joining n"
  shows "sample_joining n'"
  using assms(1)
proof (induction rule: rtranclp_induct)
  case (step n1 n2)
  have "net_inv tagged_archive n1" using internal_run_effect [OF step(1) assms(2)] by blast
  with step sample_joining_step show ?case by (auto simp: step_of_def)
qed (rule assms(3))

definition sample_arrived :: network where
  "sample_arrived = sample_net\<lparr>n_links := [link_new sample_slave ''10.0.0.7''
     (set_slave ((messager sample_slave)\<lparr>sm_connecting := False, sm_buffer := replicate Packet_sizeLength 0, sm_read := ReadHeader\<rparr>) sample_slave)]\<rparr>"

lemma sample_arrival:
  shows "net_enabled tagged_archive (SlaveArrives sample_slave ''10.0.0.7'') sample_net"
    and "net_handle tagged_archive (SlaveArrives sample_slave ''10.0.0.7'') sample_net = Inr sample_arrived"
    and "net_bounds tagged_archive sample_arrived"
proof -
  show "net_enabled tagged_archive (SlaveArrives sample_slave ''10.0.0.7'') sample_net" by (simp add: sample_slave_ready)
  have "tm_slave (u_tcp_manager sample_slave) \<noteq> None" by (simp add: sample_slave_def)
  moreover have "sm_buffer (messager sample_slave) = []" by (simp add: messager_def sample_slave_def TCPSlaveMessager_new_def)
  ultimately show "net_handle tagged_archive (SlaveArrives sample_slave ''10.0.0.7'') sample_net = Inr sample_arrived"
    by (simp add: slave_connect_handler_def slave_of_messager slave_do_read_header_def vec_resize_def Packet_sizeLength_def
        sample_arrived_def sample_net_def)
  have "net_bounds tagged_archive sample_arrived = net_bounds tagged_archive sample_net"
    by (rule net_bounds_meta) (simp_all add: sample_arrived_def)
  then show "net_bounds tagged_archive sample_arrived" using sample_net_initial by (simp add: net_initial_def)
qed

lemma sample_arrives: "net_run tagged_archive sample_net sample_arrived"
  by (rule run_next [OF run_start]) (rule sample_arrival)+

lemma sample_arrived_facts: "both_open 0 sample_arrived" "sample_joining sample_arrived" "length (n_links sample_arrived) = 1"
  by (simp_all add: both_open_def sample_joining_def sample_arrived_def sample_net_def link_new_def same_tables_def conn_of_def
      sample_net_master_meta accepted_conn_def conn_new_def)
    (simp add: messager_def sample_slave_def)

lemma rest_known:
  assumes "net_inv B n" and "net_at_rest B n" and "both_open h n"
  shows "recognised h (n_master n)" and "conn_of (n_master n) h = conns (n_master n) ! h"
  using rest_recognised(1) [OF assms] rest_accepted(1) [OF assms(1,2)] assms(3)
  by (auto simp: recognised_def conn_of_def both_open_def)

lemma recognised_bound:
  assumes "master_inv m" and r: "recognised h m"
  shows "2 < unat (u_max_host_id m)"
proof -
  from assms have "list_all (\<lambda>i. 2 \<le> unat i \<and> unat i < unat (u_max_host_id m)) (slave_ids m)" by (simp add: master_inv_def conns_inv_def)
  moreover have "mc_slave_id (conns m ! h) \<in> set (slave_ids m)" using r by (simp add: recognised_def slave_ids_def)
  ultimately show ?thesis by (fastforce simp: list_all_iff)
qed

lemma sample_settles:
  obtains n where "(net_internal_step tagged_archive)\<^sup>*\<^sup>* sample_arrived n" and "net_run tagged_archive sample_net n"
    and "net_at_rest tagged_archive n" and "both_open 0 n" and "u_dir_tree (n_master n) = sample_merged"
proof -
  have inv: "net_inv tagged_archive sample_arrived" by (rule net_run_inv [OF sample_net_initial sample_arrives])
  obtain n where n: "(net_internal_step tagged_archive)\<^sup>*\<^sup>* sample_arrived n" "net_inv tagged_archive n"
    "net_at_rest tagged_archive n \<or> net_overflows tagged_archive n"
    using net_comes_to_rest [OF inv] by blast
  have j: "sample_joining n" using sample_joining_run [OF n(1) inv sample_arrived_facts(2)] .
  then have rest: "net_at_rest tagged_archive n" using sample_joining_step [OF n(2)] n(3) by (auto simp: net_overflows_def)
  have open0: "both_open 0 n" using internal_run_effect [OF n(1) inv] sample_arrived_facts(1) by blast
  have "master_inv (n_master n)" using n(2) by (simp add: net_inv_def)
  from recognised_bound [OF this rest_known(1) [OF n(2) rest open0]] have "u_dir_tree (n_master n) = sample_merged"
    using j by (auto simp: sample_joining_def same_tables_def sample_net_master_meta)
  with n(1) rest open0 show thesis
    by (intro that [OF n(1)] run_trans [OF internal_steps_run sample_arrives]) blast+
qed

subsection \<open>Properties\<close>

text \<open>
  \<^bold>\<open>C2\<close>. Agreement, octet by octet. In every state that a network gets into, whatever is accepted,
  delivered in pieces, reported late or failing, and for every slave that is recognised and whose
  connection is open at both ends: the octets that are under way to it are packets, and if there is
  none, and none waits to be sent, then its tree has below the root what the master's has, its hosts are
  the master's and its id is the one the master gave it; and if there are some, the last of them is
  an update with the master's current tree and hosts.
\<close>

theorem net_agrees:
  fixes B :: boost_archive
  assumes "net_initial B n0" and "net_run B n0 n" and "both_open h n" and "recognised h (n_master n)"
  defines "m \<equiv> n_master n" and "l \<equiv> n_links n ! h"
  shows "\<exists>ps. stream_ok (sm_read (lm l)) (sm_packet (lm l)) (l_down l @ unsent (l_down_sent l) (mc_queue (conns m ! h))) ps \<and>
    (if ps @ posts h m = []
     then root_children (l_slave l) = root_children m \<and> u_hosts (l_slave l) = u_hosts m \<and>
          u_host_id (l_slave l) = mc_slave_id (conns m ! h)
     else last (ps @ posts h m) = Packet_encodeData (update_of B m))"
proof -
  have h: "h < length (n_links n)" "mc_open (conn_of m h)" "sm_open (lm l)" using assms(3) by (simp_all add: both_open_def m_def l_def)
  have c: "conn_of m h = conns m ! h" "mc_slave_id (conns m ! h) \<noteq> 0" using assms(4) by (simp_all add: recognised_def conn_of_def m_def)
  have "down_inv B m (conn_of m h) (posts h m) l"
    using link_invD(4) [OF net_inv_link [OF net_run_inv [OF assms(1,2)] h(1)]] by (simp add: m_def l_def)
  then obtain ps where "stream_ok (sm_read (lm l)) (sm_packet (lm l)) (l_down l @ unsent (l_down_sent l) (mc_queue (conns m ! h))) ps"
    and "told_inv B m (mc_slave_id (conns m ! h)) (l_slave l) (ps @ posts h m)"
    using h(2,3) by (auto simp: down_inv_def due_def c)
  with c(2) show ?thesis by (intro exI [of _ ps]) (auto simp: told_inv_def slave_ok_def in_sync_def split: if_splits)
qed


theorem net_agrees_witness:
  "\<exists>n ps. net_run tagged_archive sample_net n \<and> both_open 0 n \<and> recognised 0 (n_master n) \<and>
    stream_ok (sm_read (lm (n_links n ! 0))) (sm_packet (lm (n_links n ! 0)))
      (l_down (n_links n ! 0) @ unsent (l_down_sent (n_links n ! 0)) (mc_queue (conns (n_master n) ! 0))) ps"
proof -
  obtain n where n: "net_run tagged_archive sample_net n" "net_at_rest tagged_archive n" "both_open 0 n" by (rule sample_settles)
  have "recognised 0 (n_master n)" by (rule rest_known(1) [OF net_run_inv [OF sample_net_initial n(1)] n(2,3)])
  with n net_agrees [OF sample_net_initial n(1,3)] show ?thesis by blast
qed

text \<open>
  \<^bold>\<open>C1\<close>. No node of the group crashes, unless an operation is reported as successful after its socket was
  closed. From the start of a master, through any sequence of arriving slaves, octets under way,
  completions, failures and closures, every event that can come next is handled: no access out of bounds,
  no null pointer, no failed assertion and no uncaught exception, at the master or at any slave. The
  hypothesis \<open>avoids late\<close> is that neither the events so far nor the next one are such late successes.
  Boost.Asio does not promise it, and without it the conclusion is false: the last property of
  \<open>Tcp_Callbacks\<close> has the crash of a master on a late success. Lengths and ids stay below 2 to the 48.
\<close>

theorem net_safe:
  assumes "net_initial B n0" and "net_trace B es n0 n" and "net_possible B ev n" and "avoids late (net_handle B) (es @ [ev]) n0"
  shows "\<exists>n'. net_handle B ev n = Inr n'"
proof -
  have "\<not> late ev n" using net_trace_run(2) [OF assms(2,4)] by simp
  with assms(3) have "net_enabled B ev n" by (simp add: net_enabled_possible)
  then show ?thesis by (rule net.run_safe [OF net_trace_run(1) [OF assms(2,4)] net_initial_inv [OF assms(1)]])
qed

lemma sample_arrives_trace:
  assumes "\<not> late ev sample_arrived"
  shows "net_trace tagged_archive [SlaveArrives sample_slave ''10.0.0.7''] sample_net sample_arrived"
    and "avoids late (net_handle tagged_archive) ([SlaveArrives sample_slave ''10.0.0.7''] @ [ev]) sample_net"
    and "avoids late (net_handle tagged_archive) [SlaveArrives sample_slave ''10.0.0.7''] sample_net"
  using sample_arrival assms by (simp_all add: net_enabled_possible split: sum.split del: net_handle.simps net_enabled.simps net_possible.simps)

theorem net_safe_witness:
  "net_trace tagged_archive [SlaveArrives sample_slave ''10.0.0.7''] sample_net sample_arrived \<and>
   (\<exists>n'. net_handle tagged_archive (MasterEvent (Accepted False)) sample_arrived = Inr n') \<and>
   (\<exists>n'. net_handle tagged_archive (SlaveEvent 0 (SlaveHeaderRead True [])) sample_arrived = Inr n')"
proof -
  have "net_possible tagged_archive (MasterEvent (Accepted False)) sample_arrived" "\<not> late (MasterEvent (Accepted False)) sample_arrived"
    "net_possible tagged_archive (SlaveEvent 0 (SlaveHeaderRead True [])) sample_arrived" "\<not> late (SlaveEvent 0 (SlaveHeaderRead True [])) sample_arrived"
    by (simp_all add: sample_arrived_def sample_net_def sample_net_master_meta link_new_def)
  then show ?thesis
    using net_safe [OF sample_net_initial] sample_arrives_trace by blast
qed

text \<open>
  \<^bold>\<open>C4\<close>. Without failures and arrivals a network cannot stay busy: the relation between states
  that accepting, moving octets, completing reads and writes, and running closures make is
  well-founded on the states a network gets into, so every such sequence of events ends, in whatever
  order and pieces they happen.
\<close>

theorem net_terminates:
  assumes "net_initial B n0"
  shows "wf {(n', n). net_run B n0 n \<and> net_internal_step B n n'}"
  by (rule wf_subset [OF net_settles.internal_wf [of B]]) (use net_run_inv [OF assms] in auto)

theorem net_terminates_witness:
  "wf {(n', n). net_run tagged_archive sample_net n \<and> net_internal_step tagged_archive n n'}"
  by (rule net_terminates [OF sample_net_initial])

text \<open>
  \<^bold>\<open>C3\<close>. The group settles. From every state of a network there is a sequence of events without
  failures and arrivals after which every slave whose connection was open at both ends, also one that
  was still to be accepted or recognised, is recognised, knows its id and has the master's tree and
  hosts; unless some join would exceed the bounds. If no slave waited to be recognised nothing can
  exceed them, and the tree and the hosts are those the master had. Since such events
  cannot go on for ever, no other order of them avoids this.
\<close>

theorem net_settles_down:
  assumes "net_initial B n0" and "net_run B n0 n"
  shows "\<exists>n'. (net_internal_step B)\<^sup>*\<^sup>* n n' \<and>
    (net_overflows B n' \<or>
     (\<forall>h. both_open h n \<longrightarrow> recognised h (n_master n') \<and>
        u_host_id (l_slave (n_links n' ! h)) = mc_slave_id (conns (n_master n') ! h) \<and>
        root_children (l_slave (n_links n' ! h)) = root_children (n_master n') \<and>
        u_hosts (l_slave (n_links n' ! h)) = u_hosts (n_master n'))) \<and>
    (unrecognised n = 0 \<longrightarrow> \<not> net_overflows B n' \<and> same_tables (n_master n) (n_master n'))"
proof -
  have inv: "net_inv B n" by (rule net_run_inv [OF assms])
  obtain n' where n': "(net_internal_step B)\<^sup>*\<^sup>* n n'" "net_inv B n'" "net_at_rest B n' \<or> net_overflows B n'"
    using net_comes_to_rest [OF inv] by blast
  note eff = internal_run_effect [OF n'(1) inv]
  have agree: "recognised h (n_master n') \<and> u_host_id (l_slave (n_links n' ! h)) = mc_slave_id (conns (n_master n') ! h) \<and>
      root_children (l_slave (n_links n' ! h)) = root_children (n_master n') \<and> u_hosts (l_slave (n_links n' ! h)) = u_hosts (n_master n')"
    if "net_at_rest B n'" "both_open h n" for h
  proof -
    have open2: "both_open h n'" using eff that(2) by blast
    note rest_known [OF n'(2) that(1) open2] rest_agrees(2,3) [OF n'(2) that(1) open2]
    then show ?thesis by (simp add: in_sync_def)
  qed
  have "unrecognised n = 0 \<longrightarrow> \<not> net_overflows B n' \<and> same_tables (n_master n) (n_master n')"
    using eff not_overflowing [OF n'(2)] by blast
  with n'(3) show ?thesis by (intro exI [of _ n'] conjI n'(1)) (use agree in auto)
qed

theorem net_settles_down_witness:
  "\<exists>n n'. net_run tagged_archive sample_net n \<and> both_open 0 n \<and> (net_internal_step tagged_archive)\<^sup>*\<^sup>* n n' \<and>
     recognised 0 (n_master n') \<and> root_children (l_slave (n_links n' ! 0)) = root_children (n_master n') \<and>
     u_hosts (l_slave (n_links n' ! 0)) = u_hosts (n_master n')"
proof -
  have "sample_joining n' \<Longrightarrow> net_inv tagged_archive n' \<Longrightarrow> \<not> net_overflows tagged_archive n'" for n'
    using sample_joining_step by (auto simp: net_overflows_def)
  moreover have inv: "net_inv tagged_archive sample_arrived" by (rule net_run_inv [OF sample_net_initial sample_arrives])
  ultimately have no: "(net_internal_step tagged_archive)\<^sup>*\<^sup>* sample_arrived n' \<Longrightarrow> \<not> net_overflows tagged_archive n'" for n'
    using sample_joining_run [OF _ inv sample_arrived_facts(2)] internal_run_effect [OF _ inv] by blast
  obtain n' where "(net_internal_step tagged_archive)\<^sup>*\<^sup>* sample_arrived n'" "net_overflows tagged_archive n' \<or>
     (\<forall>h. both_open h sample_arrived \<longrightarrow> recognised h (n_master n') \<and>
        u_host_id (l_slave (n_links n' ! h)) = mc_slave_id (conns (n_master n') ! h) \<and>
        root_children (l_slave (n_links n' ! h)) = root_children (n_master n') \<and>
        u_hosts (l_slave (n_links n' ! h)) = u_hosts (n_master n'))"
    using net_settles_down [OF sample_net_initial sample_arrives] by blast
  with no sample_arrives sample_arrived_facts(1) show ?thesis by blast
qed

end
