(* ===== verification/Slave_Stream.thy ===== *)
theory Slave_Stream
  imports Network_Inv
begin

section \<open>The handlers of a slave over a stream\<close>

text \<open>
  A slave asks for a header, its handler asks for a body of the announced length, and the handler of the
  body parses it, calls back and asks for the next header. \<open>slave_drive\<close> is what this chain of
  completions makes of the octets that have arrived. The reference \<open>read_stream\<close> is much simpler: cut
  the octets into packets with \<open>receive_loop\<close>, read the packets one after the other, and look at the
  header of what is left over. Both are the same, for every sequence of octets, well-formed or not, and
  for crashes as well.
\<close>

function slave_drive :: "boost_archive \<Rightarrow> bytes \<Rightarrow> UserFS \<Rightarrow> UserFS result" where
  "slave_drive B s fs =
     (if length s < Packet_sizeLength then Inr fs
      else
        res_bind (slave_handle B (SlaveHeaderRead False (take Packet_sizeLength s)) fs) (\<lambda>fs.
          let n = unat (pkt_size (sm_packet (messager fs))); body = drop Packet_sizeLength s
          in if length body < n then Inr fs
             else res_bind (slave_handle B (SlaveBodyRead False (take n body)) fs) (slave_drive B (drop n body))))"
  by pat_completeness auto
termination
  by (relation "measure (\<lambda>(B, s, fs). length s)") (auto simp: Packet_sizeLength_def)

declare slave_drive.simps [simp del]

primrec read_all :: "boost_archive \<Rightarrow> Packet list \<Rightarrow> UserFS \<Rightarrow> UserFS result" where
  "read_all B [] fs = Inr fs"
| "read_all B (p # ps) fs = res_bind (TCPManager_read_slave B p fs) (read_all B ps)"

text \<open>
  The start of a packet whose header announces more octets than a buffer can have: the resize of the
  buffer throws.
\<close>

definition overlong :: "bytes \<Rightarrow> bool" where
  "overlong r \<longleftrightarrow> Packet_sizeLength \<le> length r \<and>
     (case Packet_decodeSize (take Packet_sizeLength r) Packet_new of Inl e \<Rightarrow> False | Inr q \<Rightarrow> 2 ^ 63 \<le> unat (pkt_size q))"

definition read_stream :: "boost_archive \<Rightarrow> bytes \<Rightarrow> UserFS \<Rightarrow> UserFS result" where
  "read_stream B s fs =
     (let (ps, r) = receive_loop s (sm_packet (messager fs))
      in res_bind (read_all B ps fs) (\<lambda>fs. if overlong r then Inl LengthError else Inr fs))"

text \<open>Reading a packet neither looks at the messager nor changes it.\<close>

lemma read_slave_set_slave:
  "TCPManager_read_slave B p (set_slave m fs) = map_sum id (set_slave m) (TCPManager_read_slave B p fs)"
  by (simp add: TCPManager_read_slave_def UserFS_slaveRecognized_def UserFS_updateInfo_def set_slave_def res_bind_def deploy_tree_def
      Let_def split: sum.split prod.split option.split)

lemma read_all_set_slave: "read_all B ps (set_slave m fs) = map_sum id (set_slave m) (read_all B ps fs)"
proof (induction ps arbitrary: fs)
  case (Cons p ps)
  then show ?case by (cases "TCPManager_read_slave B p fs") (simp_all add: read_slave_set_slave)
qed simp


subsection \<open>One packet\<close>

lemma decode_exact:
  assumes "length hdr = Packet_sizeLength" and "Packet_decodeSize hdr q = Inr q1"
  shows "Packet_decodeSize (hdr @ r) q' = Inr (q'\<lparr>pkt_size := pkt_size q1\<rparr>)"
  using assms by (auto simp: Packet_decodeSize_def network_to_host_64_def Packet_sizeLength_def nth_append)

lemma decode_ok: "length hdr = Packet_sizeLength \<Longrightarrow> \<exists>k. Packet_decodeSize hdr q = Inr (q\<lparr>pkt_size := k\<rparr>)"
  by (simp add: Packet_decodeSize_def network_to_host_64_def Packet_sizeLength_def) blast

lemma set_slave_again: "slave_of (set_slave m fs) = Inr m" "set_slave m (set_slave m' fs) = set_slave m fs"
  by (simp_all add: slave_of_def set_slave_def)

lemma drive_header:
  assumes "tm_slave (u_tcp_manager fs) \<noteq> None" and "length hdr = Packet_sizeLength"
    and "Packet_decodeSize hdr (sm_packet (messager fs)) = Inr q" and "unat (pkt_size q) < 2 ^ 63"
  shows "\<exists>m. slave_handle B (SlaveHeaderRead False hdr) fs = Inr (set_slave m fs) \<and> sm_packet m = q \<and> sm_read m = ReadBody"
proof -
  have q: "q = (sm_packet (messager fs))\<lparr>pkt_size := pkt_size q\<rparr>" using assms(3) by (auto simp: Packet_decodeSize_def res_bind_eq_Inr)
  obtain b where "slave_header_handler False hdr fs =
      Inr (set_slave ((messager fs)\<lparr>sm_packet := (sm_packet (messager fs))\<lparr>pkt_size := pkt_size q\<rparr>, sm_buffer := b, sm_read := ReadBody\<rparr>) fs)"
    (is "_ = Inr (set_slave ?m fs)")
    using slave_header_ok [OF assms(1,2) decode_exact [OF assms(2,3)] assms(4)] by blast
  then show ?thesis using q by (intro exI [of _ ?m]) simp
qed

lemma drive_header_overlong:
  assumes "tm_slave (u_tcp_manager fs) \<noteq> None" and "length hdr = Packet_sizeLength"
    and "Packet_decodeSize hdr (sm_packet (messager fs)) = Inr q" and "2 ^ 63 \<le> unat (pkt_size q)"
  shows "slave_handle B (SlaveHeaderRead False hdr) fs = Inl LengthError"
  using assms decode_exact [OF assms(2,3)]
  by (auto simp: slave_header_handler_def slave_of_messager fill_def slave_do_read_body_def vec_resize_def)

lemma drive_body:
  assumes "tm_slave (u_tcp_manager fs) \<noteq> None" and "length data = unat (pkt_size (sm_packet (messager fs)))" and "length data < 2 ^ 63"
  shows "\<exists>m. slave_handle B (SlaveBodyRead False data) fs =
      map_sum id (set_slave m) (TCPManager_read_slave B ((sm_packet (messager fs))\<lparr>pkt_data := data\<rparr>) fs) \<and>
    sm_packet m = (sm_packet (messager fs))\<lparr>pkt_data := data\<rparr> \<and> sm_read m = ReadHeader \<and> sm_open m = sm_open (messager fs)"
proof -
  let ?q = "(sm_packet (messager fs))\<lparr>pkt_data := data\<rparr>"
  let ?m1 = "(messager fs)\<lparr>sm_buffer := fill data (sm_buffer (messager fs)), sm_read := NoRead, sm_packet := ?q\<rparr>"
  obtain b where b: "slave_do_read_header ?m1 = Inr (?m1\<lparr>sm_buffer := b, sm_read := ReadHeader\<rparr>)"
    by (simp add: slave_do_read_header_def vec_resize_def Packet_sizeLength_def)
  have "slave_body_handler B False data fs =
      res_bind (TCPManager_read_slave B ?q (set_slave ?m1 fs)) (\<lambda>fs. res_bind (slave_of fs) (\<lambda>m.
        res_bind (slave_do_read_header m) (\<lambda>m. Inr (set_slave m fs))))"
    using assms by (simp add: slave_body_handler_def slave_of_messager Let_def setData_fill)
  also have "\<dots> = map_sum id (set_slave (?m1\<lparr>sm_buffer := b, sm_read := ReadHeader\<rparr>)) (TCPManager_read_slave B ?q fs)"
    using b by (cases "TCPManager_read_slave B ?q fs") (simp_all add: read_slave_set_slave set_slave_again)
  finally show ?thesis by (intro exI [of _ "?m1\<lparr>sm_buffer := b, sm_read := ReadHeader\<rparr>"]) simp
qed

lemma drive_packet:
  assumes "tm_slave (u_tcp_manager fs) \<noteq> None" and "Packet_sizeLength \<le> length s"
    and "Packet_decodeSize (take Packet_sizeLength s) (sm_packet (messager fs)) = Inr q"
    and "unat (pkt_size q) \<le> length (drop Packet_sizeLength s)" and "unat (pkt_size q) < 2 ^ 63"
  defines "n \<equiv> unat (pkt_size q)" and "body \<equiv> drop Packet_sizeLength s"
  shows "\<exists>m. sm_packet m = q\<lparr>pkt_data := take n body\<rparr> \<and> sm_read m = ReadHeader \<and>
    slave_drive B s fs = res_bind (TCPManager_read_slave B (q\<lparr>pkt_data := take n body\<rparr>) fs) (\<lambda>fs. slave_drive B (drop n body) (set_slave m fs))"
proof -
  let ?hdr = "take Packet_sizeLength s"
  obtain m1 where m1: "slave_handle B (SlaveHeaderRead False ?hdr) fs = Inr (set_slave m1 fs)" "sm_packet m1 = q"
    using drive_header [OF assms(1) _ assms(3,5), of B] assms(2) by auto
  have "length (take n body) = unat (pkt_size (sm_packet (messager (set_slave m1 fs))))" using assms(4) m1(2) by (simp add: n_def body_def)
  moreover have "length (take n body) < 2 ^ 63" using assms(5) by (simp add: n_def)
  ultimately obtain m where m: "sm_packet m = q\<lparr>pkt_data := take n body\<rparr>" "sm_read m = ReadHeader"
    and run: "slave_handle B (SlaveBodyRead False (take n body)) (set_slave m1 fs) =
      map_sum id (set_slave m) (TCPManager_read_slave B (q\<lparr>pkt_data := take n body\<rparr>) (set_slave m1 fs))"
    using drive_body [of "set_slave m1 fs" "take n body" B] m1(2) by auto
  have "map_sum id (set_slave m) (map_sum id (set_slave m1) res) = map_sum id (set_slave m) res" for res :: "UserFS result"
    by (cases res) (simp_all add: set_slave_def)
  then have "slave_drive B s fs = res_bind (map_sum id (set_slave m) (TCPManager_read_slave B (q\<lparr>pkt_data := take n body\<rparr>) fs)) (slave_drive B (drop n body))"
    using m1 run assms(2,4) by (subst slave_drive.simps) (simp add: Let_def n_def body_def read_slave_set_slave del: slave_handle.simps)
  then show ?thesis using m by (cases "TCPManager_read_slave B (q\<lparr>pkt_data := take n body\<rparr>) fs") auto
qed

text \<open>What \<open>receive_loop\<close> does with the start of the octets.\<close>

lemma receive_loop_cut:
  assumes "Packet_sizeLength \<le> length s" and "Packet_decodeSize (take Packet_sizeLength s) p = Inr q"
    and "length (drop Packet_sizeLength s) < unat (pkt_size q) \<or> 2 ^ 63 \<le> unat (pkt_size q)"
  shows "receive_loop s p = ([], s)"
  using assms by (subst receive_loop.simps) (auto simp: Let_def Packet_setData_def read_n_def)

lemma receive_loop_first:
  assumes "Packet_sizeLength \<le> length s" and "Packet_decodeSize (take Packet_sizeLength s) p = Inr q"
    and "unat (pkt_size q) \<le> length (drop Packet_sizeLength s)" and "unat (pkt_size q) < 2 ^ 63"
  defines "q' \<equiv> q\<lparr>pkt_data := take (unat (pkt_size q)) (drop Packet_sizeLength s)\<rparr>"
    and "rest \<equiv> drop (unat (pkt_size q)) (drop Packet_sizeLength s)"
  shows "receive_loop s p = (q' # fst (receive_loop rest q'), snd (receive_loop rest q'))"
  using assms by (subst receive_loop.simps) (simp add: Let_def Packet_setData_def read_n_def split_def)

lemma overlong_iff:
  assumes "Packet_sizeLength \<le> length s" and "Packet_decodeSize (take Packet_sizeLength s) p = Inr q"
  shows "overlong s \<longleftrightarrow> 2 ^ 63 \<le> unat (pkt_size q)"
  using assms decode_exact [of "take Packet_sizeLength s" p q "[]" Packet_new] by (simp add: overlong_def)

lemma read_stream_cut:
  assumes "receive_loop s (sm_packet (messager fs)) = ([], s)"
  shows "read_stream B s fs = (if overlong s then Inl LengthError else Inr fs)"
  using assms by (simp add: read_stream_def)

lemma read_stream_first:
  assumes "receive_loop s (sm_packet (messager fs)) = (p # fst (receive_loop rest p), snd (receive_loop rest p))" and "sm_packet m = p"
  shows "map_sum id (set_slave a) (read_stream B s fs) =
    res_bind (TCPManager_read_slave B p fs) (\<lambda>fs. map_sum id (set_slave a) (read_stream B rest (set_slave m fs)))"
  using assms
  by (cases "TCPManager_read_slave B p fs")
    (auto simp: read_stream_def split_def read_all_set_slave res_bind_def set_slave_again split: sum.split)

subsection \<open>Properties\<close>

text \<open>
  \<^bold>\<open>C18\<close>. The handlers are the loop. For a slave that waits for a header and any octets: the chain of
  header and body completions over these octets has the result of cutting them into packets and reading
  the packets one after the other, with only the messager different. If a packet makes the slave crash,
  the chain crashes in the same way; if the header of an incomplete packet at the end announces 2 to the
  63 octets or more, the chain ends with the exception of the resize; otherwise the slave waits in the
  end, for a body if a header is left over and for a header if not.
\<close>

theorem slave_drive_equiv:
  assumes "tm_slave (u_tcp_manager fs) \<noteq> None" and "sm_read (messager fs) = ReadHeader"
  shows "\<exists>m. slave_drive B s fs = map_sum id (set_slave m) (read_stream B s fs) \<and>
    sm_read m = (if length (snd (receive_loop s (sm_packet (messager fs)))) < Packet_sizeLength then ReadHeader else ReadBody)"
  using assms
proof (induction "length s" arbitrary: s fs rule: less_induct)
  case less
  show ?case
  proof (cases "length s < Packet_sizeLength")
    case True
    then have "receive_loop s (sm_packet (messager fs)) = ([], s)" "slave_drive B s fs = Inr fs"
      by (simp add: receive_loop_short Packet_sizeLength_def, subst slave_drive.simps, simp)
    moreover have "set_slave (messager fs) fs = fs" using less(2) by (auto simp: set_slave_def messager_def)
    ultimately show ?thesis using True less(3)
      by (intro exI [of _ "messager fs"]) (simp add: read_stream_cut overlong_def)
  next
    case False
    then obtain k where k: "Packet_decodeSize (take Packet_sizeLength s) (sm_packet (messager fs)) = Inr ((sm_packet (messager fs))\<lparr>pkt_size := k\<rparr>)"
      (is "_ = Inr ?q") using decode_ok [of "take Packet_sizeLength s"] by fastforce
    let ?body = "drop Packet_sizeLength s"
    consider "2 ^ 63 \<le> unat k" | "unat k < 2 ^ 63" "length ?body < unat k" | "unat k < 2 ^ 63" "unat k \<le> length ?body" by linarith
    then show ?thesis
    proof cases
      case 1
      then have "slave_drive B s fs = Inl LengthError"
        using False drive_header_overlong [OF less(2) _ k] by (subst slave_drive.simps) simp
      then show ?thesis
        using False 1 receive_loop_cut [OF _ k] overlong_iff [OF _ k]
        by (intro exI [of _ "(messager fs)\<lparr>sm_read := ReadBody\<rparr>"]) (simp add: read_stream_cut)
    next
      case 2
      obtain m where "slave_handle B (SlaveHeaderRead False (take Packet_sizeLength s)) fs = Inr (set_slave m fs)" "sm_packet m = ?q" "sm_read m = ReadBody"
        using drive_header [OF less(2) _ k] 2(1) False by auto
      then show ?thesis
        using False 2 receive_loop_cut [OF _ k] overlong_iff [OF _ k]
        by (intro exI [of _ m], subst slave_drive.simps) (simp add: read_stream_cut del: slave_handle.simps)
    next
      case 3
      let ?p = "?q\<lparr>pkt_data := take (unat k) ?body\<rparr>" and ?rest = "drop (unat k) ?body"
      have rl: "receive_loop s (sm_packet (messager fs)) = (?p # fst (receive_loop ?rest ?p), snd (receive_loop ?rest ?p))"
        using receive_loop_first [OF _ k] False 3 by simp
      obtain m where m: "sm_packet m = ?p" "sm_read m = ReadHeader" "slave_drive B s fs =
          res_bind (TCPManager_read_slave B ?p fs) (\<lambda>fs. slave_drive B ?rest (set_slave m fs))"
        using drive_packet [OF less(2) _ k, of B] False 3 by auto
      let ?read = "if length (snd (receive_loop ?rest ?p)) < Packet_sizeLength then ReadHeader else ReadBody"
      have "\<exists>m'. slave_drive B ?rest (set_slave m fs') = map_sum id (set_slave m') (read_stream B ?rest (set_slave m fs')) \<and> sm_read m' = ?read" for fs'
        using less(1) [of ?rest "set_slave m fs'"] False m(1,2) by (simp add: Packet_sizeLength_def)
      then obtain m' where m': "slave_drive B ?rest (set_slave m fs') = map_sum id (set_slave (m' fs')) (read_stream B ?rest (set_slave m fs'))"
        "sm_read (m' fs') = ?read" for fs' by metis
      note first = read_stream_first [OF rl m(1), of _ B]
      show ?thesis
      proof (cases "TCPManager_read_slave B ?p fs")
        case (Inl e)
        then show ?thesis using m(3) first [of "m' fs"] m'(2) by (intro exI [of _ "m' fs"]) (simp add: rl)
      next
        case (Inr fs')
        then show ?thesis using m(3) first [of "m' fs'"] m' by (intro exI [of _ "m' fs'"]) (simp add: rl)
      qed
    qed
  qed
qed


definition sample_waiting :: UserFS where
  "sample_waiting = (sample_scan 0)\<lparr>u_tcp_manager := TCPManager_new\<lparr>tm_is_slave := True, tm_slave := Some (TCPSlaveMessager_new\<lparr>sm_read := ReadHeader\<rparr>)\<rparr>\<rparr>"

theorem slave_drive_equiv_witness:
  "\<exists>m. slave_drive tagged_archive
      (Packet_wire (Packet_encodeData (host_to_network_64 7)) @ Packet_wire (Packet_encodeData [1, 2, 3]) @ [9]) sample_waiting =
    map_sum id (set_slave m) (read_stream tagged_archive
      (Packet_wire (Packet_encodeData (host_to_network_64 7)) @ Packet_wire (Packet_encodeData [1, 2, 3]) @ [9]) sample_waiting) \<and>
    sm_read m = ReadHeader"
proof -
  let ?s = "Packet_wire (Packet_encodeData (host_to_network_64 7)) @ Packet_wire (Packet_encodeData [1, 2, 3]) @ [9]"
  have "receive_loop ?s (sm_packet (messager sample_waiting)) =
      ([\<lparr>pkt_size = 8, pkt_data = host_to_network_64 7\<rparr>, \<lparr>pkt_size = 3, pkt_data = [1, 2, 3]\<rparr>], [9])"
    by (simp add: receive_loop_packet receive_loop_short wire64.length_enc Let_def)
  moreover have "tm_slave (u_tcp_manager sample_waiting) \<noteq> None" "sm_read (messager sample_waiting) = ReadHeader"
    by (simp_all add: sample_waiting_def messager_def)
  ultimately show ?thesis
    using slave_drive_equiv [of sample_waiting tagged_archive ?s] by (simp add: Packet_sizeLength_def)
qed

end
