(* ===== verification/Lost_Slave.thy ===== *)
theory Lost_Slave
  imports Network_Start Slave_Stream
begin

section \<open>Slaves that lose their connection\<close>

text \<open>
  A slave whose connection has failed is on its own: it shows nothing of the others any more, and its main
  thread does not wait for a recognition that cannot come. This holds in every run of a network without late events. What
  is left is meant to be the slave's own files; the last part shows when it is nothing at all. A message that was received before the
  connection failed and is reported afterwards brings the others back.
\<close>

subsection \<open>The invariant\<close>

definition alone :: "UserFS \<Rightarrow> bool" where
  "alone s \<longleftrightarrow> list_all (\<lambda>c. tn_host_id c = u_host_id s) (root_children s) \<and> \<not> u_main_thread_is_waiting s"

definition lost_inv :: "link \<Rightarrow> bool" where
  "lost_inv l \<longleftrightarrow> (\<not> sm_open (lm l) \<longrightarrow> alone (l_slave l))"

lemma disconnect_alone: "UserFS_disconnect s = Inr s' \<Longrightarrow> alone s'"
  by (cases "u_dir_tree s")
    (auto simp: UserFS_disconnect_def DirTree_removeNotOf_def removeNotOf_loop_eq alone_def root_children_def list_all_iff Let_def
      split: if_splits)

lemma alone_set_slave [simp]: "alone (set_slave m s) = alone s"
  by (simp add: alone_def root_children_def set_slave_def)

lemma lost_slave_event:
  assumes "node_inv B l" and "slave_enabled ev l" and "slave_handle B ev (l_slave l) = Inr s'" and "lost_inv l"
  shows "lost_inv ((slave_moves ev l)\<lparr>l_slave := s'\<rparr>)"
proof -
  have slave: "slave_of (l_slave l) = Inr (lm l)" using assms(1) by (intro slave_of_messager) (simp add: node_inv_def)
  show ?thesis
  proof (cases "slave_internal ev")
    case True
    then have "sm_open (messager s') = sm_open (lm l)" using slave_event_effect [OF assms(1,2) _ assms(3)] by (simp add: lighter_def)
    moreover have "sm_open (lm l) \<or> ev = SlaveRunPost" using assms(2) True by (cases ev) auto
    ultimately show ?thesis using assms(3,4) slave by (auto simp: lost_inv_def)
  next
    case False
    then obtain m where "slave_handle B ev (l_slave l) = UserFS_disconnect (set_slave m (l_slave l))"
      using assms(2) slave by (cases ev) (auto simp: slave_header_handler_def slave_body_handler_def slave_write_handler_def Let_def)
    then have "alone s'" using assms(3) disconnect_alone by simp
    then show ?thesis by (simp add: lost_inv_def)
  qed
qed

definition all_lost_inv :: "network \<Rightarrow> bool" where
  "all_lost_inv n \<longleftrightarrow> list_all lost_inv (n_links n)"

lemma all_lost_map_link:
  assumes "all_lost_inv n" and "lost_inv (f (n_links n ! h))"
  shows "all_lost_inv (map_link h f n)"
  using assms by (auto simp: all_lost_inv_def map_link_def list_all_length nth_list_update)

lemma lost_step:
  assumes "net_inv B n" and "all_lost_inv n" and "net_enabled B ev n" and "net_handle B ev n = Inr n'"
  shows "all_lost_inv n'"
proof (cases ev)
  case (SlaveArrives s addr)
  then obtain s' where s': "slave_handle B (Connected False) s = Inr s'" "n' = n\<lparr>n_links := n_links n @ [link_new s addr s']\<rparr>"
    using assms(4) by (auto simp: res_bind_eq_Inr)
  have "slave_ready B s" using assms(3) SlaveArrives by simp
  then have "sm_open (messager s')" using s'(1)
    by (auto simp: slave_ready_def slave_connect_handler_def slave_of_def slave_do_read_header_def res_bind_eq_Inr split: option.splits)
  with assms(2) s'(2) show ?thesis by (simp add: all_lost_inv_def lost_inv_def link_new_def)
next
  case (SlaveEvent h sev)
  then have h: "h < length (n_links n)" "slave_enabled sev (n_links n ! h)" using assms(3) by simp_all
  obtain s' where s': "slave_handle B sev (l_slave (n_links n ! h)) = Inr s'" "n' = map_link h (\<lambda>l. (slave_moves sev l)\<lparr>l_slave := s'\<rparr>) n"
    using assms(4) by (auto simp: SlaveEvent res_bind_eq_Inr)
  have "lost_inv (n_links n ! h)" using assms(2) h(1) by (simp add: all_lost_inv_def list_all_length)
  from lost_slave_event [OF link_invD(1) [OF net_inv_link [OF assms(1) h(1)]] h(2) s'(1) this]
  show ?thesis unfolding s'(2) by (rule all_lost_map_link [OF assms(2)])
next
  case (MasterEvent mev)
  have "lost_inv (n_links (master_moves mev n) ! k)" if "k < length (n_links n)" for k
    using assms(2) that by (cases mev) (auto simp: all_lost_inv_def list_all_length map_link_nth lost_inv_def)
  then show ?thesis using assms(4) MasterEvent by (auto simp: all_lost_inv_def list_all_length res_bind_eq_Inr master_moves_kept)
next
  case (UpTransmit h k)
  then have "lost_inv (n_links n ! h)" using assms(2,3) by (simp add: all_lost_inv_def list_all_length)
  then show ?thesis using assms(4) UpTransmit all_lost_map_link [OF assms(2)] by (auto simp: lost_inv_def)
next
  case (DownTransmit h k)
  then have "lost_inv (n_links n ! h)" using assms(2,3) by (simp add: all_lost_inv_def list_all_length)
  then show ?thesis using assms(4) DownTransmit all_lost_map_link [OF assms(2)] by (auto simp: lost_inv_def)
qed

interpretation net_lost: event_system "net_enabled B" "net_handle B" "net_bounds B" "\<lambda>n. net_inv B n \<and> all_lost_inv n" for B
  by unfold_locales (use net_event_ok lost_step in fastforce)+

definition sample_updating :: UserFS where
  "sample_updating = (sample_master [conn_new])\<lparr>u_tcp_manager := TCPManager_new\<lparr>tm_is_master := True,
     tm_master := Some (TCPMasterMessager_new\<lparr>mm_connections := [conn_new],
       mm_posted := [PostWrite (Packet_encodeData (update_of tagged_archive (sample_master [conn_new])))]\<rparr>)\<rparr>\<rparr>"

lemma sample_updating_sel:
  "u_dir_tree sample_updating = u_dir_tree (sample_master [conn_new])" "u_hosts sample_updating = u_hosts (sample_master [conn_new])"
  "u_max_host_id sample_updating = u_max_host_id (sample_master [conn_new])" "conns sample_updating = [conn_new]"
  "posted sample_updating = [PostWrite (Packet_encodeData (update_of tagged_archive (sample_master [conn_new])))]"
  by (simp_all add: sample_updating_def conns_def posted_def)

text \<open>
  Nothing in the handler of the body asks whether the socket is still open: an update that is reported as
  read after the close is taken over like any other.
\<close>

lemma late_update_shows_others:
  assumes "archive_lossless B" and "wf_tree (u_dir_tree m)" and "u_dir_tree m \<noteq> None" and "fits B m"
    and "u_dir_tree (l_slave l) \<noteq> None" and "tm_slave (u_tcp_manager (l_slave l)) \<noteq> None"
    and "pkt_size (sm_packet (lm l)) = of_nat (length (update_of B m))" and "length (update_of B m) < 2 ^ 48" and "\<not> sm_open (lm l)"
  shows "slave_late (SlaveBodyRead False (update_of B m)) l \<and>
    (\<exists>s'. slave_handle B (SlaveBodyRead False (update_of B m)) (l_slave l) = Inr s' \<and> \<not> sm_open (messager s') \<and> in_sync m s')"
proof -
  obtain r rs where r: "u_dir_tree m = Some r" "u_dir_tree (l_slave l) = Some rs" using assms(3,5) by blast
  let ?p = "(sm_packet (lm l))\<lparr>pkt_data := update_of B m\<rparr>"
  have len: "length (update_of B m) = unat (pkt_size (sm_packet (lm l)))" "length (update_of B m) < 2 ^ 63"
    using assms(7,8) by (simp_all add: unat_of_nat_small)
  from drive_body [OF assms(6) len, of B] obtain mm where
    "slave_handle B (SlaveBodyRead False (update_of B m)) (l_slave l) = rmap (set_slave mm) (TCPManager_read_slave B ?p (l_slave l))"
    "sm_open mm = sm_open (lm l)" by auto
  moreover have "TCPManager_read_slave B ?p (l_slave l) = Inr ((l_slave l)\<lparr>u_dir_tree := Some (with_children (tn_children r) rs), u_hosts := u_hosts m\<rparr>)"
    using assms(2,4) r updateInfo_ok [OF assms(1), of r "l_slave l" rs "u_hosts m"] read_update [of _ _ ?p B "l_slave l"]
    by (simp add: fits_def update_of_def)
  ultimately show ?thesis using assms(9) r by (simp add: in_sync_def root_children_def set_slave_def messager_def)
qed

subsection \<open>Properties\<close>

text \<open>
  \<^bold>\<open>C17\<close>. In every state of a network that is reached without late events, that is with no operation
  reported as successful after its socket was closed, a slave whose connection is closed shows nothing of
  the others: every entry at the top of its tree has the slave's own id. And its main thread does not
  wait any more, so that it mounts what there is. Boost.Asio does not promise that there are no late
  events; \<open>late_update_shows_others\<close> has a late one that puts the entries of the others back.
\<close>

theorem lost_slave_is_alone:
  assumes "net_initial B n0" and "net_trace B es n0 n" and "avoids late (net_handle B) es n0"
    and "h < length (n_links n)" and "\<not> sm_open (lm (n_links n ! h))"
  shows "(\<forall>c\<in>set (root_children (l_slave (n_links n ! h))). tn_host_id c = u_host_id (l_slave (n_links n ! h))) \<and>
    \<not> u_main_thread_is_waiting (l_slave (n_links n ! h))"
proof -
  have "net_inv B n0 \<and> all_lost_inv n0" using net_initial_inv [OF assms(1)] assms(1) by (simp add: all_lost_inv_def net_initial_def)
  moreover have "net_run B n0 n" using net_trace_run(1) [OF assms(2), of "[]"] assms(3) by simp
  ultimately have "all_lost_inv n" using net_lost.run_inv by blast
  then have "lost_inv (n_links n ! h)" using assms(4) by (simp add: all_lost_inv_def list_all_length)
  with assms(5) show ?thesis by (simp add: lost_inv_def alone_def list_all_iff)
qed

definition sample_losing :: "net_event list" where
  "sample_losing = [SlaveArrives sample_slave ''10.0.0.7'', SlaveEvent 0 (SlaveHeaderRead True [])]"

lemma sample_loses:
  obtains n where "net_trace tagged_archive sample_losing sample_net n" and "avoids late (net_handle tagged_archive) sample_losing sample_net" and "0 < length (n_links n)" and "\<not> sm_open (lm (n_links n ! 0))"
proof -
  let ?ev = "SlaveEvent 0 (SlaveHeaderRead True [])"
  have en: "net_enabled tagged_archive ?ev sample_arrived" by (simp add: sample_arrived_def link_new_def)
  obtain n where n: "net_handle tagged_archive ?ev sample_arrived = Inr n"
    using net_event_ok [OF net_run_inv [OF sample_net_initial sample_arrives] en] by blast
  let ?l = "n_links sample_arrived ! 0"
  have h: "0 < length (n_links sample_arrived)" by (simp add: sample_arrived_def)
  have slave: "slave_of (l_slave ?l) = Inr (lm ?l)" by (simp add: sample_arrived_def link_new_def slave_of_def)
  obtain s' where s': "slave_handle tagged_archive (SlaveHeaderRead True []) (l_slave ?l) = Inr s'" "n = map_link 0 (\<lambda>l. l\<lparr>l_slave := s'\<rparr>) sample_arrived"
    using n by (auto simp: res_bind_eq_Inr)
  have "\<not> sm_open (messager s')"
    using s'(1) slave messager_cong
    by (auto simp: slave_header_handler_def Let_def UserFS_disconnect_def res_bind_eq_Inr messager_def set_slave_def split: if_splits)
  moreover have "net_bounds tagged_archive n = net_bounds tagged_archive sample_arrived" unfolding s'(2) by (rule net_bounds_meta) simp_all
  then have "net_bounds tagged_archive n" using sample_arrival(3) by simp
  then have "net_trace tagged_archive sample_losing sample_net n" "avoids late (net_handle tagged_archive) sample_losing sample_net"
    using sample_arrival en n
    by (simp_all add: sample_losing_def net_enabled_possible split: sum.split del: net_handle.simps net_enabled.simps net_possible.simps)
  ultimately show thesis using h s'(2) by (intro that [of n]) (simp_all add: map_link_nth)
qed

theorem lost_slave_is_alone_witness:
  "\<exists>n. net_trace tagged_archive sample_losing sample_net n \<and> 0 < length (n_links n) \<and> \<not> sm_open (lm (n_links n ! 0)) \<and>
     \<not> u_main_thread_is_waiting (l_slave (n_links n ! 0))"
proof -
  obtain n where "net_trace tagged_archive sample_losing sample_net n" "avoids late (net_handle tagged_archive) sample_losing sample_net"
    "0 < length (n_links n)" "\<not> sm_open (lm (n_links n ! 0))" by (rule sample_loses)
  with lost_slave_is_alone [OF sample_net_initial this] show ?thesis by blast
qed

text \<open>
  \<^bold>\<open>C38\<close>. An update that comes before the recognition costs a slave its own files. The master sends
  updates to every open connection, also to one whose slave has no id yet; such a slave replaces
  its tree by the master's, in which no node has the id 0 that the slave still goes by; and
  when the connection then fails, removing the nodes of the others removes everything, where the slave was
  meant to go on with its own files.
\<close>

theorem early_update_loses_own_files:
  assumes "archive_lossless B" and "master_inv m" and "fits B m" and "posted m = PostWrite (Packet_encodeData (update_of B m)) # xs"
    and "h < length (conns m)" and "mc_open (conns m ! h)" and "mc_slave_id (conns m ! h) = 0"
    and "u_dir_tree s \<noteq> None" and "u_host_id s = 0"
  shows "\<exists>m' s1 s2. master_handle B RunPost m = Inr m' \<and>
    mc_queue (conns m' ! h) = mc_queue (conns m ! h) @ [Packet_encodeData (update_of B m)] \<and>
    TCPManager_read_slave B (Packet_received (Packet_encodeData (update_of B m))) s = Inr s1 \<and>
    UserFS_disconnect s1 = Inr s2 \<and> root_children s2 = []"
proof -
  obtain mm m' where m': "master_handle B RunPost m = Inr m'" and conns: "conns m' = mm_connections (master_run_post mm)"
    "conns m = mm_connections mm" "posted m = mm_posted mm"
    by (rule run_post_state [OF assms(2), of B])
  have q: "mc_queue (conns m' ! h) = mc_queue (conns m ! h) @ [Packet_encodeData (update_of B m)]"
    using assms(4-6) conns by (simp add: master_run_post_def run_write_def)
  obtain r rs where r: "u_dir_tree m = Some r" "u_dir_tree s = Some rs" using master_inv_tree [OF assms(2)] assms(8) by auto
  have wf: "wf_tree (Some r)" and inv: "tree_inv m" using assms(2) r by (simp_all add: master_inv_def tree_inv_def)
  let ?s1 = "s\<lparr>u_dir_tree := Some (with_children (tn_children r) rs), u_hosts := u_hosts m\<rparr>"
  have read: "TCPManager_read_slave B (Packet_received (Packet_encodeData (update_of B m))) s = Inr ?s1"
    using assms(3) r updateInfo_ok [OF assms(1) wf r(2), of "u_hosts m"]
      read_update [of "DirTree_serialize B (Some r)" "Hosts_serialize B (u_hosts m)" "Packet_received (Packet_encodeData (update_of B m))" B s]
    by (simp add: fits_def received_encode update_of_def)
  have "filter (\<lambda>c. tn_host_id c = 0) (tn_children r) = []"
    using tree_inv_host_nonzero [OF inv] r by (auto simp: filter_empty_conv root_children_def)
  then have "\<exists>s2. UserFS_disconnect ?s1 = Inr s2 \<and> root_children s2 = []"
    using assms(9) by (simp add: UserFS_disconnect_def DirTree_removeNotOf_def removeNotOf_loop_eq Let_def root_children_def)
  with m' q read show ?thesis by blast
qed

theorem early_update_loses_own_files_witness:
  "\<exists>m' s1 s2. master_handle tagged_archive RunPost sample_updating = Inr m' \<and> mc_queue (conns m' ! 0) \<noteq> [] \<and>
     TCPManager_read_slave tagged_archive (Packet_received (Packet_encodeData (update_of tagged_archive sample_updating))) (sample_scan 0) = Inr s1 \<and>
     UserFS_disconnect s1 = Inr s2 \<and> root_children (sample_scan 0) \<noteq> [] \<and> root_children s2 = []"
proof -
  have "master_inv sample_updating"
    using sample_master_inv
    by (simp add: master_inv_def tree_inv_def hosts_inv_def conns_inv_def slave_ids_def root_children_def sample_updating_sel)
      (simp add: master_role_def sample_updating_def)
  moreover have "fits tagged_archive sample_updating" using sample_sizes(2,3) by (simp add: fits_def sample_updating_sel)
  moreover have "update_of tagged_archive sample_updating = update_of tagged_archive (sample_master [conn_new])"
    by (simp add: update_of_def sample_updating_sel)
  moreover have "u_dir_tree (sample_scan 0) \<noteq> None" "u_host_id (sample_scan 0) = 0" "root_children (sample_scan 0) \<noteq> []"
    by (simp_all add: sample_scan_def UserFS_new_def root_children_def sample_dir_def)
  ultimately show ?thesis
    using early_update_loses_own_files [OF archive_lossless_tagged, of sample_updating "[]" 0 "sample_scan 0"]
    by (fastforce simp: sample_updating_sel conn_new_def)
qed

end
