(* ===== verification/Node_Store.thy ===== *)
theory Node_Store
  imports User_Fs
begin

section \<open>Nodes as objects: which pointers stay valid\<close>

text \<open>
  \<^verbatim>\<open>UserFS::find\<close> returns a pointer to a node and releases the lock; the caller follows the
  pointer afterwards. Whether it may depends on the identity of nodes, which theory \<open>Dir_Tree\<close> does
  not have. Here a node is an object with an address. A set of children owns its elements: they
  are created when they are inserted or when the set is copied, their addresses do not change while they
  are elements, and they are destroyed when they are erased or another set is assigned. \<open>Store\<close> is the tree of a
  \<^verbatim>\<open>DirTree\<close> made of objects, and the next address that has never been used.

  The four ways in which the program changes the tree while it runs (\<open>tree_write\<close>) are
  defined on stores, with the loops of \<^verbatim>\<open>dir_tree.cc\<close>; forgetting the addresses gives the operations of
  \<open>Dir_Tree\<close>. What is new are the laws on addresses: which objects each operation leaves alone.
\<close>

subsection \<open>Objects\<close>

type_synonym addr = nat

text \<open>\<open>ob_data\<close> has the members other than \<^verbatim>\<open>children\<close>.\<close>

datatype Obj = Obj (ob_addr: addr) (ob_data: TreeNode) (ob_children: "Obj list")

record Store =
  st_root :: "Obj option"
  st_next :: addr

fun node_of :: "Obj \<Rightarrow> TreeNode" where
  "node_of (Obj a d cs) = with_children (map node_of cs) d"

definition tree_of :: "Store \<Rightarrow> DirTree" where
  "tree_of st = map_option node_of (st_root st)"

fun objs :: "Obj \<Rightarrow> Obj list" where
  "objs (Obj a d cs) = Obj a d cs # concat (map objs cs)"

definition alive :: "Store \<Rightarrow> Obj list" where
  "alive st = (case st_root st of None \<Rightarrow> [] | Some r \<Rightarrow> objs r)"

text \<open>Following a pointer.\<close>

definition load :: "addr \<Rightarrow> Store \<Rightarrow> Obj result" where
  "load p st = of_option UseAfterFree (find (\<lambda>x. ob_addr x = p) (alive st))"

text \<open>The implicit copy constructor of \<^verbatim>\<open>TreeNode\<close>: new objects for the node and all below it.\<close>

fun copy_node :: "addr \<Rightarrow> TreeNode \<Rightarrow> Obj \<times> addr"
and copy_nodes :: "addr \<Rightarrow> TreeNode list \<Rightarrow> Obj list \<times> addr" where
  "copy_node a (TreeNode ty sz ui gi ati mti cti hi nl nm cs) =
     (let (xs, b) = copy_nodes (Suc a) cs
      in (Obj a (TreeNode ty sz ui gi ati mti cti hi nl nm []) xs, b))"
| "copy_nodes a [] = ([], a)"
| "copy_nodes a (n # ns) =
     (let (x, b) = copy_node a n; (xs, c) = copy_nodes b ns in (x # xs, c))"

definition new_store :: "TreeNode \<Rightarrow> Store" where
  "new_store n = (let (r, a) = copy_node 0 n in \<lparr>st_root = Some r, st_next = a\<rparr>)"

subsection \<open>std::set of objects\<close>

abbreviation ob_name :: "Obj \<Rightarrow> string" where
  "ob_name x \<equiv> tn_name (ob_data x)"

fun oset_insert :: "Obj \<Rightarrow> Obj list \<Rightarrow> Obj list" where
  "oset_insert x [] = [x]"
| "oset_insert x (y # ys) =
     (if TreeNode_less (ob_data x) (ob_data y) then x # y # ys
      else if TreeNode_less (ob_data y) (ob_data x) then y # oset_insert x ys
      else y # ys)"

fun oset_find :: "string \<Rightarrow> Obj list \<Rightarrow> Obj option" where
  "oset_find k [] = None"
| "oset_find k (y # ys) =
     (if ob_name y < k then oset_find k ys
      else if k < ob_name y then None
      else Some y)"

text \<open>Iterators: the first element, and the element after the one at a given address.\<close>

fun oset_begin :: "Obj list \<Rightarrow> addr option" where
  "oset_begin [] = None"
| "oset_begin (y # ys) = Some (ob_addr y)"

fun oset_next :: "addr \<Rightarrow> Obj list \<Rightarrow> addr option result" where
  "oset_next c [] = Inl UseAfterFree"
| "oset_next c (y # ys) =
     (if ob_addr y = c then Inr (oset_begin ys) else oset_next c ys)"

subsection \<open>Changing the tree\<close>

definition put_children :: "Obj list \<Rightarrow> Obj \<Rightarrow> Obj" where
  "put_children cs r = Obj (ob_addr r) (ob_data r) cs"

definition store_root :: "Store \<Rightarrow> Obj result" where
  "store_root st = of_option NullDeref (st_root st)"

fun erase_if :: "(u64 \<Rightarrow> bool) \<Rightarrow> Obj list \<Rightarrow> Obj list" where
  "erase_if P [] = []"
| "erase_if P (x # xs) = (if P (tn_host_id (ob_data x)) then erase_if P xs else x # erase_if P xs)"

fun insert_copies :: "TreeNode list \<Rightarrow> Obj list \<Rightarrow> addr \<Rightarrow> Obj list \<times> addr" where
  "insert_copies [] cs a = (cs, a)"
| "insert_copies (n # ns) cs a = (let (x, b) = copy_node a n in insert_copies ns (oset_insert x cs) b)"

definition store_removeOf :: "u64 \<Rightarrow> Store \<Rightarrow> Store result" where
  "store_removeOf h st =
     res_bind (store_root st) (\<lambda>r.
       Inr (st\<lparr>st_root := Some (put_children (erase_if (\<lambda>i. i = h) (ob_children r)) r)\<rparr>))"

definition store_removeNotOf :: "u64 \<Rightarrow> Store \<Rightarrow> Store result" where
  "store_removeNotOf h st =
     res_bind (store_root st) (\<lambda>r.
       Inr (st\<lparr>st_root := Some (put_children (erase_if (\<lambda>i. i \<noteq> h) (ob_children r)) r)\<rparr>))"

definition store_merge :: "DirTree \<Rightarrow> Store \<Rightarrow> Store result" where
  "store_merge tree st =
     res_bind (deref tree) (\<lambda>t.
     res_bind (store_root st) (\<lambda>r.
       let (cs, a) = insert_copies (tn_children t) (ob_children r) (st_next st)
       in Inr (st\<lparr>st_root := Some (put_children cs r), st_next := a\<rparr>)))"

text \<open>
  \<^verbatim>\<open>_dir_tree.root()->children = merged_tree.root()->children\<close>: assigning a set destroys its elements
  and creates copies of the others.
\<close>

definition store_deploy :: "DirTree \<Rightarrow> Store \<Rightarrow> Store result" where
  "store_deploy merged st =
     res_bind (store_root st) (\<lambda>r.
     res_bind (deref merged) (\<lambda>m.
       let (cs, a) = copy_nodes (st_next st) (tn_children m)
       in Inr (st\<lparr>st_root := Some (put_children cs r), st_next := a\<rparr>)))"

text \<open>What happens in the sections that hold the exclusive lock.\<close>

datatype tree_write = Merge DirTree | RemoveOf u64 | RemoveNotOf u64 | Deploy DirTree

fun store_write :: "tree_write \<Rightarrow> Store \<Rightarrow> Store result" where
  "store_write (Merge t) st = store_merge t st"
| "store_write (RemoveOf h) st = store_removeOf h st"
| "store_write (RemoveNotOf h) st = store_removeNotOf h st"
| "store_write (Deploy t) st = store_deploy t st"

fun dir_tree_write :: "tree_write \<Rightarrow> DirTree \<Rightarrow> DirTree result" where
  "dir_tree_write (Merge t) d = DirTree_merge t d"
| "dir_tree_write (RemoveOf h) d = DirTree_removeOf h d"
| "dir_tree_write (RemoveNotOf h) d = DirTree_removeNotOf h d"
| "dir_tree_write (Deploy t) d = deploy_tree d t"

fun write_all :: "('w \<Rightarrow> 's \<Rightarrow> 's result) \<Rightarrow> 'w list \<Rightarrow> 's \<Rightarrow> 's result" where
  "write_all f [] s = Inr s"
| "write_all f (w # ws) s = res_bind (f w s) (write_all f ws)"

subsection \<open>Finding\<close>

fun store_find_loop :: "Obj option \<Rightarrow> string list \<Rightarrow> Obj option \<Rightarrow> Obj option result" where
  "store_find_loop root [] node = Inr node"
| "store_find_loop root (e # es) node =
     (if e = ''..'' then Inl AssertFailed
      else if e = ''.'' then store_find_loop root es node
      else case node of
        None \<Rightarrow> if e = ''/'' then store_find_loop root es root else store_find_loop root es None
      | Some n \<Rightarrow>
          (case oset_find e (ob_children n) of
             None \<Rightarrow> Inr None
           | Some c \<Rightarrow> store_find_loop root es (Some c)))"

definition store_find :: "(string \<Rightarrow> string list) \<Rightarrow> string \<Rightarrow> Store \<Rightarrow> addr option result" where
  "store_find path_elements path st =
     res_bind (store_find_loop (st_root st) (path_elements path) None) (\<lambda>x. Inr (map_option ob_addr x))"

subsection \<open>The invariant: addresses are unique\<close>

definition fresh_below :: "Obj list \<Rightarrow> addr \<Rightarrow> bool" where
  "fresh_below xs b \<longleftrightarrow> distinct (map ob_addr xs) \<and> (\<forall>x\<in>set xs. ob_addr x < b)"

definition store_ok :: "Store \<Rightarrow> bool" where
  "store_ok st \<longleftrightarrow> st_root st \<noteq> None \<and> fresh_below (alive st) (st_next st)"

lemma objs_eq: "objs x = x # concat (map objs (ob_children x))"
  by (cases x) simp

lemma node_of_sel [simp]:
  "tn_name (node_of x) = ob_name x" "tn_host_id (node_of x) = tn_host_id (ob_data x)"
  "tn_type (node_of x) = tn_type (ob_data x)" "tn_size (node_of x) = tn_size (ob_data x)"
  "tn_num_links (node_of x) = tn_num_links (ob_data x)" "tn_mtime (node_of x) = tn_mtime (ob_data x)"
  "tn_children (node_of x) = map node_of (ob_children x)"
  by (cases x; simp)+

lemma node_of_put_children [simp]: "node_of (put_children cs r) = with_children (map node_of cs) (node_of r)"
  by (cases r) (simp add: put_children_def)

lemma put_children_sel [simp]:
  "ob_addr (put_children cs r) = ob_addr r" "ob_data (put_children cs r) = ob_data r"
  "ob_children (put_children cs r) = cs"
  by (simp_all add: put_children_def)

subsection \<open>Forgetting addresses\<close>

lemma copy_node_node_of:
  "node_of (fst (copy_node a n)) = n"
  "map node_of (fst (copy_nodes a ns)) = ns"
  by (induction a n and a ns rule: copy_node_copy_nodes.induct)
    (auto simp: with_children_def split: prod.splits)

lemma oset_insert_node_of: "map node_of (oset_insert x xs) = set_insert (node_of x) (map node_of xs)"
  by (induction xs) (auto simp: TreeNode_less_def)

lemma oset_find_node_of: "map_option node_of (oset_find k xs) = set_find k (map node_of xs)"
  by (induction xs) auto

lemma erase_if_eq: "erase_if P xs = filter (\<lambda>x. \<not> P (tn_host_id (ob_data x))) xs"
  by (induction xs) auto

lemma insert_copies_node_of:
  "map node_of (fst (insert_copies ns cs a)) = merge_loop ns (map node_of cs)"
proof (induction ns arbitrary: cs a)
  case (Cons n ns)
  then show ?case
    using copy_node_node_of(1) [of a n] by (auto simp: merge_loop_def oset_insert_node_of split: prod.splits)
qed (simp add: merge_loop_def)

text \<open>Every change of the store is the change of the tree.\<close>

lemma store_write_refines: "map_sum id tree_of (store_write w st) = dir_tree_write w (tree_of st)"
proof (cases "st_root st")
  case None
  then show ?thesis
    by (cases w) (auto simp: store_merge_def store_removeOf_def store_removeNotOf_def store_deploy_def store_root_def
        tree_of_def DirTree_merge_def DirTree_removeOf_def DirTree_removeNotOf_def deploy_tree_def deref_def of_option_def res_bind_def split: option.split)
next
  case (Some r)
  show ?thesis
  proof (cases w)
    case (Merge t)
    with Some show ?thesis
      using insert_copies_node_of [of "tn_children (the t)" "ob_children r" "st_next st"]
      by (cases t) (auto simp: store_merge_def store_root_def tree_of_def DirTree_merge_def split: prod.splits)
  next
    case (Deploy t)
    with Some show ?thesis
      using copy_node_node_of(2) [of "st_next st" "tn_children (the t)"]
      by (cases t) (auto simp: store_deploy_def store_root_def tree_of_def deploy_tree_def split: prod.splits)
  qed (use Some in \<open>auto simp: store_removeOf_def store_removeNotOf_def store_root_def tree_of_def DirTree_removeOf_def
      DirTree_removeNotOf_def removeOf_loop_eq removeNotOf_loop_eq erase_if_eq filter_map comp_def\<close>)
qed

lemma store_writes_refine: "map_sum id tree_of (write_all store_write ws st) = write_all dir_tree_write ws (tree_of st)"
proof (induction ws arbitrary: st)
  case (Cons w ws)
  show ?case
    using Cons.IH store_write_refines [of w st] by (cases "store_write w st") (auto dest: sym)
qed simp

lemma store_find_loop_refines:
  "map_sum id (map_option node_of) (store_find_loop root es node) =
     find_loop (map_option node_of root) es (map_option node_of node)"
proof (induction root es node rule: store_find_loop.induct)
  case (2 root e es node)
  then show ?case
    using oset_find_node_of [of e "ob_children (the node)"] by (auto split: option.splits dest: sym)
qed simp

subsection \<open>Laws on addresses\<close>

lemma set_oset_insert: "set xs \<subseteq> set (oset_insert x xs)" "set (oset_insert x xs) \<subseteq> insert x (set xs)"
  by (induction xs) auto

text \<open>The objects a copy consists of are new, and no two have the same address.\<close>

lemma fresh_below_append:
  "fresh_below (xs @ ys) b \<longleftrightarrow>
     fresh_below xs b \<and> fresh_below ys b \<and> ob_addr ` set xs \<inter> ob_addr ` set ys = {}"
  by (auto simp: fresh_below_def)

lemma fresh_below_mono: "fresh_below xs a \<Longrightarrow> a \<le> b \<Longrightarrow> fresh_below xs b"
  by (auto simp: fresh_below_def)

definition all_from :: "addr \<Rightarrow> Obj list \<Rightarrow> bool" where
  "all_from a xs \<longleftrightarrow> (\<forall>x\<in>set xs. a \<le> ob_addr x)"

lemma copy_fresh:
  "a < snd (copy_node a n) \<and> fresh_below (objs (fst (copy_node a n))) (snd (copy_node a n)) \<and> all_from a (objs (fst (copy_node a n)))"
  "a \<le> snd (copy_nodes a ns) \<and> fresh_below (concat (map objs (fst (copy_nodes a ns)))) (snd (copy_nodes a ns)) \<and>
     all_from a (concat (map objs (fst (copy_nodes a ns))))"
proof (induction a n and a ns rule: copy_node_copy_nodes.induct)
  case (1 a ty sz ui gi ati mti cti hi nl nm cs)
  then show ?case by (fastforce simp: fresh_below_def all_from_def split: prod.splits)
next
  case (3 a n ns)
  then show ?case by (fastforce simp: fresh_below_def all_from_def split: prod.splits)
qed (simp add: fresh_below_def all_from_def)

abbreviation objs_of :: "Obj list \<Rightarrow> Obj list" where
  "objs_of cs \<equiv> concat (map objs cs)"

lemma oset_insert_cases:
  obtains "oset_insert x xs = xs" | ys zs where "xs = ys @ zs" and "oset_insert x xs = ys @ x # zs"
proof -
  have "oset_insert x xs = xs \<or> (\<exists>ys zs. xs = ys @ zs \<and> oset_insert x xs = ys @ x # zs)"
  proof (induction xs)
    case (Cons y ys)
    then show ?case
      by (auto intro: exI [of _ "[]"]) (metis append_Cons)
  qed simp
  with that show thesis by blast
qed

lemma fresh_below_insert:
  assumes "fresh_below (objs_of cs) a" and "fresh_below (objs x) b" and "all_from a (objs x)" and "a \<le> b"
  shows "fresh_below (objs_of (oset_insert x cs)) b"
proof -
  have new: "ob_addr ` set (objs_of cs) \<inter> ob_addr ` set (objs x) = {}"
    using assms(1,3) by (fastforce simp: fresh_below_def all_from_def)
  have old: "fresh_below (objs_of cs) b" using assms(1,4) by (rule fresh_below_mono)
  show ?thesis
  proof (cases x cs rule: oset_insert_cases)
    case (2 ys zs)
    with new old assms(2) show ?thesis
      by (simp add: fresh_below_append image_Un Int_Un_distrib Int_Un_distrib2 Int_commute del: set_concat set_map)
  qed (simp add: old)
qed

lemma insert_copies_fresh:
  assumes "fresh_below (objs_of cs) a" and "insert_copies ns cs a = (cs', b)"
  shows "a \<le> b \<and> fresh_below (objs_of cs') b \<and> set cs \<subseteq> set cs' \<and>
    (\<forall>x\<in>set (objs_of cs'). x \<in> set (objs_of cs) \<or> a \<le> ob_addr x)"
  using assms
proof (induction ns arbitrary: cs a)
  case (Cons n ns)
  obtain x c where x: "copy_node a n = (x, c)" by (cases "copy_node a n")
  from copy_fresh(1) [of a n] x have c: "a \<le> c" "fresh_below (objs x) c" "all_from a (objs x)" by auto
  from fresh_below_insert [OF Cons.prems(1) c(2,3,1)] Cons.prems(2) x
  have IH: "c \<le> b \<and> fresh_below (objs_of cs') b \<and> set (oset_insert x cs) \<subseteq> set cs' \<and>
      (\<forall>y\<in>set (objs_of cs'). y \<in> set (objs_of (oset_insert x cs)) \<or> c \<le> ob_addr y)"
    by (intro Cons.IH) simp_all
  moreover have "y \<in> set (objs_of cs) \<or> a \<le> ob_addr y" if "y \<in> set (objs_of (oset_insert x cs))" for y
    using that set_oset_insert(2) [of x cs] c(3) by (auto simp: all_from_def)
  ultimately show ?case
    using c(1) set_oset_insert(1) [where x = x and xs = cs] by (meson le_trans subset_trans)
qed simp

text \<open>The root stays where it is; its children are what the operations change.\<close>

definition kids :: "Store \<Rightarrow> Obj list" where
  "kids st = (case st_root st of None \<Rightarrow> [] | Some r \<Rightarrow> ob_children r)"

lemma alive_root: "st_root st = Some r \<Longrightarrow> alive st = r # objs_of (kids st)"
  by (simp add: alive_def kids_def objs_eq [of r])

lemma store_ok_iff:
  "st_root st = Some r \<Longrightarrow>
     store_ok st \<longleftrightarrow> fresh_below (objs_of (kids st)) (st_next st) \<and> ob_addr r < st_next st \<and>
       ob_addr r \<notin> ob_addr ` set (objs_of (kids st))"
  by (auto simp: store_ok_def alive_root fresh_below_def)

definition spares :: "tree_write \<Rightarrow> u64 \<Rightarrow> bool" where
  "spares w h = (case w of Merge t \<Rightarrow> True | RemoveOf k \<Rightarrow> k \<noteq> h | RemoveNotOf k \<Rightarrow> k = h | Deploy t \<Rightarrow> False)"

lemma store_write_cases:
  assumes "store_write w st = Inr st'"
  obtains r cs b where "st_root st = Some r" and "st_root st' = Some (put_children cs r)" and "st_next st' = b"
    and "case w of
           Merge t \<Rightarrow> t \<noteq> None \<and> insert_copies (tn_children (the t)) (kids st) (st_next st) = (cs, b)
         | Deploy t \<Rightarrow> t \<noteq> None \<and> copy_nodes (st_next st) (tn_children (the t)) = (cs, b)
         | _ \<Rightarrow> cs = filter (\<lambda>x. spares w (tn_host_id (ob_data x))) (kids st) \<and> b = st_next st"
proof (cases w)
  case (Merge t)
  with assms that show ?thesis
    by (cases t; cases "st_root st") (auto simp: store_merge_def store_root_def kids_def split: prod.splits)
next
  case (Deploy t)
  with assms that show ?thesis
    by (cases t; cases "st_root st") (auto simp: store_deploy_def store_root_def split: prod.splits)
next
  case (RemoveOf h)
  with assms that show ?thesis
    by (cases "st_root st") (auto simp: store_removeOf_def store_root_def kids_def erase_if_eq spares_def eq_commute)
next
  case (RemoveNotOf h)
  with assms that show ?thesis
    by (cases "st_root st") (auto simp: store_removeNotOf_def store_root_def kids_def erase_if_eq spares_def eq_commute)
qed

lemma fresh_below_filter: "fresh_below (objs_of cs) b \<Longrightarrow> fresh_below (objs_of (filter P cs)) b"
  by (induction cs) (auto simp: fresh_below_append)

lemma kids_put_children: "st_root st = Some (put_children cs r) \<Longrightarrow> kids st = cs"
  by (simp add: kids_def)

lemma store_write_root:
  "store_write w st = Inr st' \<Longrightarrow>
     \<exists>r. st_root st = Some r \<and> st_root st' = Some (put_children (kids st') r)"
  by (erule store_write_cases) (simp add: kids_put_children)

text \<open>Where the objects after a change come from.\<close>

lemma store_write_objs:
  assumes "store_write w st = Inr st'" and "store_ok st"
  shows "fresh_below (objs_of (kids st')) (st_next st')" (is ?fresh)
    and "\<forall>x\<in>set (objs_of (kids st')).
      (\<exists>c\<in>set (kids st). spares w (tn_host_id (ob_data c)) \<and> x \<in> set (objs c)) \<or> st_next st \<le> ob_addr x" (is ?old)
    and "st_next st \<le> st_next st'" (is ?next)
    and "\<forall>c\<in>set (kids st). spares w (tn_host_id (ob_data c)) \<longrightarrow> c \<in> set (kids st')" (is ?kept)
proof -
  from assms(1) have "?fresh \<and> ?old \<and> ?next \<and> ?kept"
  proof (cases rule: store_write_cases)
    case (1 r cs b)
    have fresh: "fresh_below (objs_of (kids st)) (st_next st)"
      using assms(2) 1(1) by (simp add: store_ok_iff)
    have kids: "kids st' = cs" using 1(2) by (rule kids_put_children)
    show ?thesis
    proof (cases w)
      case (Merge t)
      with 1 have "insert_copies (tn_children (the t)) (kids st) (st_next st) = (cs, b)" by simp
      from insert_copies_fresh [OF fresh this] 1(3) kids Merge show ?thesis by (auto simp: spares_def)
    next
      case (Deploy t)
      with 1 have "copy_nodes (st_next st) (tn_children (the t)) = (cs, b)" by simp
      with copy_fresh(2) [of "st_next st" "tn_children (the t)"] 1(3) kids Deploy
      show ?thesis by (auto simp: spares_def all_from_def)
    qed (use 1 fresh kids in \<open>auto simp: fresh_below_filter\<close>)
  qed
  then show ?fresh and ?old and ?next and ?kept by blast+
qed

lemma store_write_ok [inv_intros]:
  assumes "store_write w st = Inr st'" and "store_ok st"
  shows "store_ok st'"
proof -
  obtain r where r: "st_root st = Some r" "st_root st' = Some (put_children (kids st') r)"
    using store_write_root [OF assms(1)] by blast
  with assms(2) have "ob_addr r < st_next st" "ob_addr r \<notin> ob_addr ` set (objs_of (kids st))"
    by (simp_all add: store_ok_iff)
  with store_write_objs [OF assms] show ?thesis
    unfolding store_ok_iff [OF r(2)] by fastforce
qed

lemma find_distinct: "distinct (map f xs) \<Longrightarrow> find (\<lambda>x. f x = p) xs = Some x \<longleftrightarrow> x \<in> set xs \<and> f x = p"
  by (induction xs) force+

lemma load_iff: "store_ok st \<Longrightarrow> load p st = Inr x \<longleftrightarrow> x \<in> set (alive st) \<and> ob_addr x = p"
  by (simp add: load_def store_ok_def fresh_below_def find_distinct)

lemma load_error: "load p st = Inl e \<longleftrightarrow> e = UseAfterFree \<and> p \<notin> ob_addr ` set (alive st)"
proof (cases "find (\<lambda>x. ob_addr x = p) (alive st)")
  case None
  then have "p \<notin> ob_addr ` set (alive st)" by (auto simp: find_None_iff)
  with None show ?thesis by (auto simp: load_def)
next
  case (Some x)
  then have "x \<in> set (alive st) \<and> ob_addr x = p" by (auto simp: find_Some_iff)
  with Some show ?thesis by (auto simp: load_def)
qed

subsection \<open>Objects below a child of the root\<close>

text \<open>
  \<open>anchored h x st\<close>: the object is alive, below a child of the root that belongs to host \<open>h\<close>. It stays
  so, the very same object, under every change that spares \<open>h\<close>, and is destroyed by any other.
\<close>

definition anchored :: "u64 \<Rightarrow> Obj \<Rightarrow> Store \<Rightarrow> bool" where
  "anchored h x st \<longleftrightarrow> (\<exists>c\<in>set (kids st). tn_host_id (ob_data c) = h \<and> x \<in> set (objs c))"

lemma objs_subset: "y \<in> set (objs x) \<Longrightarrow> set (objs y) \<subseteq> set (objs x)"
proof (induction x)
  case (Obj a d cs)
  then show ?case by (cases "y = Obj a d cs") auto
qed

lemma obj_self: "x \<in> set (objs x)"
  by (cases x) simp

lemma child_in_objs: "c \<in> set (ob_children x) \<Longrightarrow> c \<in> set (objs x)"
  by (cases x) (auto intro: obj_self)

lemma anchored_child: "anchored h x st \<Longrightarrow> c \<in> set (ob_children x) \<Longrightarrow> anchored h c st"
  unfolding anchored_def using objs_subset child_in_objs by blast

lemma anchored_alive: "anchored h x st \<Longrightarrow> x \<in> set (alive st)"
  by (cases "st_root st") (auto simp: anchored_def alive_root kids_def)

lemma anchored_load: "store_ok st \<Longrightarrow> anchored h x st \<Longrightarrow> load (ob_addr x) st = Inr x"
  by (simp add: load_iff anchored_alive)

lemma anchored_write:
  "store_write w st = Inr st' \<Longrightarrow> store_ok st \<Longrightarrow> anchored h x st \<Longrightarrow> spares w h \<Longrightarrow> anchored h x st'"
  using store_write_objs(4) unfolding anchored_def by blast

lemma objs_of_disjoint:
  "distinct (map ob_addr (objs_of cs)) \<Longrightarrow> c \<in> set cs \<Longrightarrow> c' \<in> set cs \<Longrightarrow> x \<in> set (objs c) \<Longrightarrow> y \<in> set (objs c') \<Longrightarrow>
     ob_addr x = ob_addr y \<Longrightarrow> c = c'"
proof (induction cs)
  case (Cons d ds)
  then show ?case by (auto simp: disjoint_iff image_iff)
qed simp

lemma anchored_destroyed:
  assumes "store_write w st = Inr st'" and "store_ok st" and "anchored h x st" and "\<not> spares w h"
  shows "load (ob_addr x) st' = Inl UseAfterFree"
proof -
  obtain r where r: "st_root st = Some r" "st_root st' = Some (put_children (kids st') r)"
    using store_write_root [OF assms(1)] by blast
  obtain c where c: "c \<in> set (kids st)" "tn_host_id (ob_data c) = h" "x \<in> set (objs c)"
    using assms(3) by (auto simp: anchored_def)
  have fresh: "fresh_below (objs_of (kids st)) (st_next st)" "ob_addr r \<notin> ob_addr ` set (objs_of (kids st))"
    using assms(2) r(1) by (simp_all add: store_ok_iff)
  have "ob_addr y \<noteq> ob_addr x" if "y \<in> set (objs_of (kids st'))" for y
  proof
    assume eq: "ob_addr y = ob_addr x"
    have "ob_addr x < st_next st" using fresh(1) c by (auto simp: fresh_below_def)
    with eq that store_write_objs(2) [OF assms(1,2)]
    obtain c' where "c' \<in> set (kids st)" "spares w (tn_host_id (ob_data c'))" "y \<in> set (objs c')" by fastforce
    moreover from this eq c fresh(1) have "c' = c"
      unfolding fresh_below_def by (blast intro: objs_of_disjoint)
    ultimately show False using assms(4) c(2) by simp
  qed
  moreover have "ob_addr r \<noteq> ob_addr x" using fresh(2) c(1,3) by force
  ultimately show ?thesis
    by (auto simp: load_error alive_root [OF r(2)] simp del: set_concat dest: sym)
qed

subsection \<open>What \<^verbatim>\<open>find\<close> points to\<close>

lemma oset_find_mem: "oset_find k xs = Some x \<Longrightarrow> x \<in> set xs"
  by (induction xs) (auto split: if_splits)

lemma oset_find_objs: "x \<in> set (objs r) \<Longrightarrow> oset_find k (ob_children x) = Some c \<Longrightarrow> c \<in> set (objs r)"
  using objs_subset child_in_objs oset_find_mem by blast

lemma store_find_loop_mem:
  "store_find_loop (Some r) es node = Inr (Some x) \<Longrightarrow> (\<And>n. node = Some n \<Longrightarrow> n \<in> set (objs r)) \<Longrightarrow> x \<in> set (objs r)"
proof (induction "Some r" es node rule: store_find_loop.induct)
  case (2 e es node)
  show ?case
  proof (cases node)
    case None
    with 2 obj_self [of r] show ?thesis by (auto split: if_splits)
  next
    case (Some n)
    with 2 oset_find_objs [of n r e] show ?thesis by (auto split: if_splits option.splits)
  qed
qed simp

text \<open>The pointer \<^verbatim>\<open>find\<close> returns leads to an object, and this object is the node \<open>DirTree_find\<close> returns.\<close>

lemma store_find_cases:
  assumes "store_ok st"
  obtains (crash) e where "store_find path_elements path st = Inl e" and "DirTree_find path_elements path (tree_of st) = Inl e"
  | (missing) "store_find path_elements path st = Inr None" and "DirTree_find path_elements path (tree_of st) = Inr None"
  | (found) x where "store_find path_elements path st = Inr (Some (ob_addr x))" and "x \<in> set (alive st)"
      and "DirTree_find path_elements path (tree_of st) = Inr (Some (node_of x))"
proof -
  obtain r where r: "st_root st = Some r" using assms by (auto simp: store_ok_def)
  let ?f = "store_find_loop (Some r) (path_elements path) None"
  have eq: "DirTree_find path_elements path (tree_of st) = map_sum id (map_option node_of) ?f"
    using store_find_loop_refines [of "Some r" "path_elements path" None] by (simp add: DirTree_find_def tree_of_def r)
  consider e where "?f = Inl e" | "?f = Inr None" | x where "?f = Inr (Some x)"
    by (cases ?f) (auto simp: not_None_eq [symmetric])
  then show thesis
  proof cases
    case 1
    with eq r show thesis by (intro crash) (simp_all add: store_find_def)
  next
    case 2
    with eq r show thesis by (intro missing) (simp_all add: store_find_def)
  next
    case (3 x)
    moreover from 3 have "x \<in> set (alive st)"
      using store_find_loop_mem by (fastforce simp: alive_def r)
    ultimately show thesis using eq r by (intro found) (simp_all add: store_find_def)
  qed
qed

subsection \<open>Sequences of changes\<close>

definition write_defined :: "tree_write \<Rightarrow> bool" where
  "write_defined w = (case w of Merge t \<Rightarrow> t \<noteq> None | Deploy t \<Rightarrow> t \<noteq> None | _ \<Rightarrow> True)"

lemma store_write_returns: "store_ok st \<Longrightarrow> write_defined w \<Longrightarrow> \<exists>st'. store_write w st = Inr st' \<and> store_ok st'"
proof -
  assume ok: "store_ok st" and "write_defined w"
  then have "\<exists>st'. store_write w st = Inr st'"
    by (cases w) (auto simp: write_defined_def store_merge_def store_deploy_def store_removeOf_def store_removeNotOf_def store_root_def
        store_ok_def split: prod.split)
  with ok show ?thesis by (blast intro: store_write_ok)
qed

lemma store_writes_return:
  "store_ok st \<Longrightarrow> \<forall>w\<in>set ws. write_defined w \<Longrightarrow> \<exists>st'. write_all store_write ws st = Inr st' \<and> store_ok st'"
proof (induction ws arbitrary: st)
  case (Cons w ws)
  then obtain st1 where "store_write w st = Inr st1" "store_ok st1" using store_write_returns [of st w] by auto
  with Cons show ?case by simp
qed simp

lemma store_writes_tree: "write_all store_write ws st = Inr st' \<Longrightarrow> write_all dir_tree_write ws (tree_of st) = Inr (tree_of st')"
  using store_writes_refine [of ws st] by simp

lemma write_all_append: "write_all f (ws @ vs) s = res_bind (write_all f ws s) (write_all f vs)"
  by (induction ws arbitrary: s) (simp_all add: res_bind_def split: sum.split)

subsection \<open>Iterators\<close>

lemma distinct_objs:
  "distinct (map ob_addr (objs r)) \<Longrightarrow> x \<in> set (objs r) \<Longrightarrow> distinct (map ob_addr (objs x))"
proof (induction r)
  case (Obj a d cs)
  then show ?case
    by (cases "x = Obj a d cs") (auto simp: map_concat distinct_concat_iff)
qed

lemma distinct_objs_of: "distinct (map ob_addr (objs_of cs)) \<Longrightarrow> distinct (map ob_addr cs)"
proof (induction cs)
  case (Cons c cs)
  have "set cs \<subseteq> set (objs_of cs)" using obj_self by auto
  moreover have "ob_addr c \<notin> ob_addr ` set (objs_of cs)"
    using Cons.prems obj_self [of c] by (auto simp: disjoint_iff simp del: set_concat)
  ultimately show ?case using Cons by auto
qed simp

lemma distinct_children:
  assumes "store_ok st" and "x \<in> set (alive st)"
  shows "distinct (map ob_addr (ob_children x))"
proof -
  from assms have "distinct (map ob_addr (objs x))"
    by (auto simp: store_ok_def fresh_below_def alive_def intro: distinct_objs)
  then have "distinct (map ob_addr (objs_of (ob_children x)))" by (subst (asm) objs_eq) simp
  then show ?thesis by (rule distinct_objs_of)
qed

lemma oset_begin_mem: "oset_begin xs = Some d \<Longrightarrow> d \<in> ob_addr ` set xs"
  by (cases xs) auto

lemma oset_next_mem: "oset_next c xs = Inr (Some d) \<Longrightarrow> d \<in> ob_addr ` set xs"
  by (induction xs) (auto split: if_splits dest: oset_begin_mem)

lemma oset_next_at:
  "distinct (map ob_addr (ys @ c # zs)) \<Longrightarrow> oset_next (ob_addr c) (ys @ c # zs) = Inr (oset_begin zs)"
  by (induction ys) auto

subsection \<open>The host of an object\<close>

text \<open>Below a child of the root every object has the host of that child; no node below the root equals it.\<close>

lemma objs_below: "x \<in> set (objs c) \<Longrightarrow> x = c \<or> node_of x \<in> set (below (node_of c))"
proof (induction c)
  case (Obj a d cs)
  show ?case
  proof (cases "x = Obj a d cs")
    case False
    then obtain c where c: "c \<in> set cs" "x \<in> set (objs c)" using Obj.prems by auto
    then have "x = c \<or> node_of x \<in> set (below (node_of c))" by (rule Obj.IH)
    with c(1) show ?thesis by (auto simp: below_eq [of "with_children _ d"])
  qed simp
qed

lemma below_smaller: "m \<in> set (below n) \<Longrightarrow> size m < size n"
proof (induction n arbitrary: m)
  case (TreeNode ty sz ui gi ati mti cti hi nl nm cs)
  then obtain c where c: "c \<in> set cs" "m = c \<or> m \<in> set (below c)" by auto
  have "size c < size (TreeNode ty sz ui gi ati mti cti hi nl nm cs)"
    using c(1) by (simp add: size_list_estimation' less_Suc_eq_le trans_le_add1)
  with c TreeNode.IH [OF c(1)] show ?case by fastforce
qed

lemma found_anchored:
  assumes "store_ok st" and "tree_of st = Some r" and "uniform (tn_children r)"
    and "x \<in> set (alive st)" and "node_of x \<noteq> r"
  shows "anchored (tn_host_id (node_of x)) x st"
proof -
  obtain y where y: "st_root st = Some y" "r = node_of y" using assms(2) by (auto simp: tree_of_def)
  then have "x \<in> set (objs_of (kids st))" using assms(4,5) by (auto simp: alive_root)
  then obtain c where c: "c \<in> set (kids st)" "x \<in> set (objs c)" by auto
  have "node_of c \<in> set (tn_children r)" using c(1) y by (simp add: kids_def)
  with assms(3) have "owned_by (tn_host_id (node_of c)) (node_of c)" unfolding uniform_def list_all_iff by blast
  with objs_below [OF c(2)] have "tn_host_id (node_of x) = tn_host_id (node_of c)"
    by (auto simp: owned_by_def list_all_iff)
  with c show ?thesis by (auto simp: anchored_def)
qed

lemma found_root:
  assumes "store_ok st" and "tree_of st = Some (node_of x)" and "x \<in> set (alive st)"
  shows "st_root st = Some x"
proof -
  obtain r where r: "st_root st = Some r" "node_of r = node_of x" using assms(2) by (auto simp: tree_of_def)
  have "x = r"
  proof (rule ccontr)
    assume "x \<noteq> r"
    with assms(3) r(1) objs_below [of x r] have "node_of x \<in> set (below (node_of r))" by (auto simp: alive_def)
    with r(2) show False using below_smaller by force
  qed
  with r show ?thesis by simp
qed

lemma new_store_ok: "store_ok (new_store n)" "tree_of (new_store n) = Some n"
proof -
  obtain x b where x: "copy_node 0 n = (x, b)" by (cases "copy_node 0 n")
  with copy_fresh(1) [of 0 n] show "store_ok (new_store n)"
    by (auto simp: new_store_def store_ok_def alive_def fresh_below_def)
  from x copy_node_node_of(1) [of 0 n] show "tree_of (new_store n) = Some n"
    by (simp add: new_store_def tree_of_def)
qed

subsection \<open>Properties\<close>

text \<open>
  \<^bold>\<open>C15\<close>. The store of objects implements the tree. Every change gives the tree that the operation of \<open>Dir_Tree\<close> gives, and crashes
  when it does; a pointer from \<^verbatim>\<open>find\<close> leads to the node that the lookup in the tree yields. Addresses
  stay unique, the root stays where it is, and an object below a child of the root is the same object at the same address after a
  change that spares the host of that child, and destroyed after any other.
\<close>

theorem store_implements_tree:
  assumes "store_ok st"
  shows "map_sum id tree_of (store_write w st) = dir_tree_write w (tree_of st) \<and>
    res_bind (store_find path_elements path st) (\<lambda>p.
      case p of None \<Rightarrow> Inr None | Some p \<Rightarrow> res_bind (load p st) (\<lambda>x. Inr (Some (node_of x)))) =
      DirTree_find path_elements path (tree_of st) \<and>
    (\<forall>st'. store_write w st = Inr st' \<longrightarrow>
       store_ok st' \<and> map_option ob_addr (st_root st') = map_option ob_addr (st_root st) \<and>
       map_option ob_data (st_root st') = map_option ob_data (st_root st) \<and>
       (\<forall>c\<in>set (kids st). \<forall>x\<in>set (objs c).
          load (ob_addr x) st' = (if spares w (tn_host_id (ob_data c)) then Inr x else Inl UseAfterFree)))"
proof (intro conjI allI impI ballI)
  show "map_sum id tree_of (store_write w st) = dir_tree_write w (tree_of st)" by (rule store_write_refines)
  show "res_bind (store_find path_elements path st) (\<lambda>p.
      case p of None \<Rightarrow> Inr None | Some p \<Rightarrow> res_bind (load p st) (\<lambda>x. Inr (Some (node_of x)))) =
      DirTree_find path_elements path (tree_of st)"
    using assms
  proof (cases rule: store_find_cases [where path_elements = path_elements and path = path])
    case (found x)
    moreover from found(2) have "load (ob_addr x) st = Inr x" using assms by (simp add: load_iff)
    ultimately show ?thesis by simp
  qed simp_all
next
  fix st' assume st': "store_write w st = Inr st'"
  then show ok: "store_ok st'" using assms by (rule store_write_ok)
  obtain r where r: "st_root st = Some r" "st_root st' = Some (put_children (kids st') r)"
    using store_write_root [OF st'] by blast
  then show "map_option ob_addr (st_root st') = map_option ob_addr (st_root st)"
    and "map_option ob_data (st_root st') = map_option ob_data (st_root st)" by simp_all
  fix c x assume "c \<in> set (kids st)" and "x \<in> set (objs c)"
  then have x: "anchored (tn_host_id (ob_data c)) x st" by (auto simp: anchored_def)
  show "load (ob_addr x) st' = (if spares w (tn_host_id (ob_data c)) then Inr x else Inl UseAfterFree)"
    using anchored_load [OF ok anchored_write [OF st' assms x]] anchored_destroyed [OF st' assms x] by simp
qed

theorem store_implements_tree_witness:
  "map_sum id tree_of (store_write (Merge (Some standby_tree)) (new_store master_tree)) =
     dir_tree_write (Merge (Some standby_tree)) (Some master_tree) \<and>
   map_sum id tree_of (store_write (RemoveOf 1) (new_store master_tree)) = Inr (Some (with_children [] master_tree))"
  using store_implements_tree [OF new_store_ok(1) [of master_tree], where w = "Merge (Some standby_tree)"]
    store_implements_tree [OF new_store_ok(1) [of master_tree], where w = "RemoveOf 1"] new_store_ok(2) [of master_tree]
  by (simp add: DirTree_removeOf_def sample_defs)

end
