(* ===== verification/Callback_Sections.thy ===== *)
theory Callback_Sections
  imports Node_Store Tcp_Callbacks
begin

section \<open>The sections of the callbacks\<close>

text \<open>
  What the callbacks of the network do to the tree they do in sections under the exclusive lock. On
  a master these are the merge of a joining slave and the removal of a slave that a connection has; on a slave the
  deployment of a tree of the master and the removal of everything but its own nodes.
\<close>

definition sections :: "(tree_write \<Rightarrow> bool) \<Rightarrow> UserFS \<Rightarrow> UserFS \<Rightarrow> bool" where
  "sections P fs fs' \<longleftrightarrow>
     (\<exists>ws. (\<forall>w\<in>set ws. P w) \<and> write_all dir_tree_write ws (u_dir_tree fs) = Inr (u_dir_tree fs'))"

definition master_section :: "UserFS \<Rightarrow> tree_write \<Rightarrow> bool" where
  "master_section fs w \<longleftrightarrow> (\<exists>t. w = Merge (Some t)) \<or> (\<exists>i\<in>set (slave_ids fs). w = RemoveOf i)"

definition slave_section :: "UserFS \<Rightarrow> tree_write \<Rightarrow> bool" where
  "slave_section fs w \<longleftrightarrow> (\<exists>t. w = Deploy (Some t)) \<or> w = RemoveNotOf (u_host_id fs)"

lemma sections_none: "u_dir_tree fs' = u_dir_tree fs \<Longrightarrow> sections P fs fs'"
  unfolding sections_def by (intro exI [of _ "[]"]) simp

lemma sections_one: "dir_tree_write w (u_dir_tree fs) = Inr (u_dir_tree fs') \<Longrightarrow> P w \<Longrightarrow> sections P fs fs'"
  unfolding sections_def by (intro exI [of _ "[w]"]) simp

lemma sections_cong:
  "sections P fs fs' \<Longrightarrow> u_dir_tree fs1 = u_dir_tree fs \<Longrightarrow> u_dir_tree fs2 = u_dir_tree fs' \<Longrightarrow> sections P fs1 fs2"
  by (simp add: sections_def)

lemma sendUpdate_tree: "UserFS_sendUpdate_seq ts hs fs = Inr fs' \<Longrightarrow> u_dir_tree fs' = u_dir_tree fs"
  by (auto simp: UserFS_sendUpdate_seq_def res_bind_eq_Inr)

lemma conn_at_ids: "conn_at h fs = Inr c \<Longrightarrow> mc_slave_id c \<noteq> 0 \<Longrightarrow> mc_slave_id c \<in> set (slave_ids fs)"
  by (auto simp: conn_at_def slave_ids_def conns_def res_bind_eq_Inr split: if_splits)

lemma close_sections:
  assumes "TCPMasterMessager_close B h fs = Inr fs'"
  shows "sections (master_section fs) fs fs'"
proof -
  obtain c where c: "conn_at h fs = Inr c" using assms by (auto simp: TCPMasterMessager_close_def res_bind_eq_Inr)
  then have c': "conn_at h (set_conn h (conn_close c) fs) = Inr (conn_close c)"
    by (auto simp: conn_at_def set_conn_def map_master_def res_bind_eq_Inr split: if_splits)
  have id: "mc_slave_id (conn_close c) = mc_slave_id c" by (simp add: conn_close_def)
  show ?thesis
  proof (cases "mc_open c \<and> mc_slave_id c \<noteq> 0")
    case True
    with assms c c' id obtain t where "DirTree_removeOf (mc_slave_id c) (u_dir_tree fs) = Inr t" "u_dir_tree fs' = t"
      by (auto simp: TCPMasterMessager_close_def UserFS_disconnect_slave_def UserFS_sendUpdate_def res_bind_eq_Inr dest!: sendUpdate_tree)
    with True conn_at_ids [OF c] show ?thesis
      by (intro sections_one [of "RemoveOf (mc_slave_id c)"]) (simp_all add: master_section_def)
  next
    case False
    with assms c c' id show ?thesis
      by (intro sections_none) (auto simp: TCPMasterMessager_close_def UserFS_disconnect_slave_def split: if_splits)
  qed
qed

lemma newConnection_sections:
  assumes "UserFS_newConnection B remote ts hs h fs = Inr fs'"
  shows "sections (master_section fs) fs fs'"
proof -
  obtain d host cf where d: "DirTree_deserialize B ts = Inr d" "Host_deserialize B hs = Inr host" "DirTree_hasConflict (u_dir_tree fs) d = Inr cf"
    using assms unfolding UserFS_newConnection_def res_bind_eq_Inr by blast
  show ?thesis
  proof (cases "cf = []")
    case True
    with assms d obtain r t where "d = Some r" and t: "DirTree_merge (Some (setHostID (u_max_host_id fs) r)) (u_dir_tree fs) = Inr t"
      and "u_dir_tree fs' = t"
      by (auto simp: UserFS_newConnection_def res_bind_eq_Inr Let_def deref_def dest!: sendUpdate_tree)
    then show ?thesis
      by (intro sections_one [of "Merge (Some (setHostID (u_max_host_id fs) r))"]) (simp_all add: master_section_def)
  next
    case False
    with assms d show ?thesis by (intro close_sections) (simp add: UserFS_newConnection_def)
  qed
qed

lemma slave_ids_set_conn:
  "conn_at h fs = Inr c \<Longrightarrow> mc_slave_id c' = mc_slave_id c \<Longrightarrow> slave_ids (set_conn h c' fs) = slave_ids fs"
  by (auto simp: slave_ids_def conn_at_def conns_def res_bind_eq_Inr set_conn_def map_master_def map_update_same split: if_splits)

lemma master_section_set_conn:
  assumes "conn_at h fs = Inr c" and "mc_slave_id c' = mc_slave_id c" and "sections (master_section (set_conn h c' fs)) (set_conn h c' fs) fs'"
  shows "sections (master_section fs) fs fs'"
proof -
  have "master_section (set_conn h c' fs) = master_section fs"
    using slave_ids_set_conn [OF assms(1,2)] by (simp add: master_section_def fun_eq_iff)
  with assms(3) show ?thesis by (simp add: sections_def)
qed

lemma close_sections_set_conn:
  "TCPMasterMessager_close B h (set_conn h c' fs) = Inr fs' \<Longrightarrow> conn_at h fs = Inr c \<Longrightarrow> mc_slave_id c' = mc_slave_id c \<Longrightarrow>
     sections (master_section fs) fs fs'"
  by (blast intro: master_section_set_conn close_sections)

lemma master_handle_sections:
  assumes "master_handle B ev fs = Inr fs'"
  shows "sections (master_section fs) fs fs'"
proof (cases ev)
  case (HeaderRead h ec data)
  with assms show ?thesis
    by (auto simp: master_header_handler_def res_bind_eq_Inr Let_def split: if_splits
        intro: sections_none dest!: close_sections_set_conn)
next
  case (BodyRead h ec data remote)
  with assms obtain c where c: "conn_at h fs = Inr c" by (auto simp: master_body_handler_def res_bind_eq_Inr)
  let ?c = "c\<lparr>mc_buffer := fill data (mc_buffer c), mc_read := NoRead\<rparr>"
  show ?thesis
  proof (cases "\<not> ec \<and> length data = unat (pkt_size (mc_packet c))")
    case True
    with assms BodyRead c obtain p fs1 where p: "TCPManager_read_master B remote p h (set_conn h (?c\<lparr>mc_packet := p\<rparr>) fs) = Inr fs1"
      and fs1: "u_dir_tree fs' = u_dir_tree fs1"
      by (auto simp: master_body_handler_def res_bind_eq_Inr Let_def)
    have "sections (master_section (set_conn h (?c\<lparr>mc_packet := p\<rparr>) fs)) (set_conn h (?c\<lparr>mc_packet := p\<rparr>) fs) fs1"
      using p by (auto simp: TCPManager_read_master_def res_bind_eq_Inr split: if_splits intro: sections_none newConnection_sections)
    then have "sections (master_section fs) fs fs1" by (intro master_section_set_conn [OF c]) simp_all
    then show ?thesis by (rule sections_cong) (simp_all add: fs1)
  next
    case False
    with assms BodyRead c have "TCPMasterMessager_close B h (set_conn h ?c fs) = Inr fs'"
      by (auto simp: master_body_handler_def Let_def)
    from close_sections_set_conn [OF this c] show ?thesis by simp
  qed
next
  case (Written h ec n)
  with assms show ?thesis
    by (auto simp: master_write_handler_def res_bind_eq_Inr split: if_splits list.splits
        intro: sections_none dest!: close_sections_set_conn)
qed (use assms in \<open>auto simp: run_master_def res_bind_eq_Inr intro: sections_none\<close>)

text \<open>
  The ids a callback of a master leaves on the connections: those that were there and the next one, if
  it has handed it out.
\<close>

definition next_ids :: "UserFS \<Rightarrow> UserFS \<Rightarrow> bool" where
  "next_ids fs fs' \<longleftrightarrow> set (slave_ids fs') \<subseteq> insert (u_max_host_id fs) (set (slave_ids fs)) \<and>
     u_max_host_id fs' \<in> {u_max_host_id fs, u_max_host_id fs + 1}"

lemma sendUpdate_ids:
  "UserFS_sendUpdate_seq ts hs fs = Inr fs' \<Longrightarrow> slave_ids fs' = slave_ids fs \<and> u_max_host_id fs' = u_max_host_id fs"
  by (auto simp: UserFS_sendUpdate_seq_def TCPManager_write_def TCPMasterMessager_write_def slave_ids_def conns_def res_bind_eq_Inr Let_def
      split: if_splits option.splits)

lemma writeTo_ids:
  assumes "TCPManager_writeTo msg h (u_tcp_manager fs) = Inr tm"
  shows "slave_ids (fs\<lparr>u_tcp_manager := tm\<rparr>) = slave_ids fs"
  using assms by (auto simp: TCPManager_writeTo_def TCPMasterMessager_writeTo_def slave_ids_def conns_def res_bind_eq_Inr)

lemma slave_ids_upd [simp]:
  "slave_ids (fs\<lparr>u_dir_tree := t\<rparr>) = slave_ids fs" "slave_ids (fs\<lparr>u_hosts := hs\<rparr>) = slave_ids fs"
  "slave_ids (fs\<lparr>u_max_host_id := k\<rparr>) = slave_ids fs"
  by (simp_all add: slave_ids_def conns_def)

lemma set_conn_ids: "set (slave_ids (set_conn h c fs)) \<subseteq> insert (mc_slave_id c) (set (slave_ids fs)) - {0}"
  using set_update_subset_insert [of "conns fs" h c] by (auto simp: slave_ids_def)

lemma close_ids:
  assumes "TCPMasterMessager_close B h fs = Inr fs'"
  shows "set (slave_ids fs') \<subseteq> set (slave_ids fs) \<and> u_max_host_id fs' = u_max_host_id fs"
proof -
  obtain c where c: "conn_at h fs = Inr c" using assms by (auto simp: TCPMasterMessager_close_def res_bind_eq_Inr)
  show ?thesis
  proof (cases "mc_open c")
    case True
    let ?fs = "set_conn h (conn_close c) fs"
    have ids: "slave_ids ?fs = slave_ids fs" using c by (rule slave_ids_set_conn) (simp add: conn_close_def)
    from True assms c have "UserFS_disconnect_slave B h ?fs = Inr fs'" by (simp add: TCPMasterMessager_close_def)
    then obtain c' where "fs' = ?fs \<or> (\<exists>t. UserFS_sendUpdate B (set_conn h (c'\<lparr>mc_slave_id := 0\<rparr>) (?fs\<lparr>u_dir_tree := t\<rparr>)) = Inr fs')"
      by (auto simp: UserFS_disconnect_slave_def res_bind_eq_Inr split: if_splits)
    moreover have "set (slave_ids (set_conn h (c'\<lparr>mc_slave_id := 0\<rparr>) (?fs\<lparr>u_dir_tree := t\<rparr>))) \<subseteq> set (slave_ids fs)" for t
      using set_conn_ids [of h "c'\<lparr>mc_slave_id := 0\<rparr>" "?fs\<lparr>u_dir_tree := t\<rparr>"] ids by auto
    ultimately show ?thesis
      using ids by (elim disjE exE) (simp_all add: UserFS_sendUpdate_def sendUpdate_ids)
  qed (use assms c in \<open>simp add: TCPMasterMessager_close_def\<close>)
qed

lemma newConnection_ids:
  assumes "UserFS_newConnection B remote ts hs h fs = Inr fs'"
  shows "next_ids fs fs'"
proof -
  obtain d host cf where d: "DirTree_deserialize B ts = Inr d" "Host_deserialize B hs = Inr host" "DirTree_hasConflict (u_dir_tree fs) d = Inr cf"
    using assms unfolding UserFS_newConnection_def res_bind_eq_Inr by blast
  show ?thesis
  proof (cases "cf = []")
    case True
    let ?fs = "fs\<lparr>u_max_host_id := u_max_host_id fs + 1\<rparr>"
    let ?set = "\<lambda>c. set_conn h (c\<lparr>mc_slave_id := u_max_host_id fs\<rparr>) ?fs"
    from True assms d obtain c t hosts msg tm ts' hs' where
      "TCPManager_writeTo msg h (u_tcp_manager (?set c)) = Inr tm"
      "UserFS_sendUpdate_seq ts' hs' ((?set c)\<lparr>u_dir_tree := t, u_hosts := hosts, u_tcp_manager := tm\<rparr>) = Inr fs'"
      by (auto simp: UserFS_newConnection_def res_bind_eq_Inr Let_def)
    moreover from this(1) have "slave_ids ((?set c)\<lparr>u_dir_tree := t, u_hosts := hosts, u_tcp_manager := tm\<rparr>) = slave_ids (?set c)"
      using writeTo_ids [of msg h "(?set c)\<lparr>u_dir_tree := t, u_hosts := hosts\<rparr>" tm] by simp
    ultimately show ?thesis
      using set_conn_ids [of h "c\<lparr>mc_slave_id := u_max_host_id fs\<rparr>" ?fs] by (auto simp: next_ids_def dest!: sendUpdate_ids)
  next
    case False
    with assms d close_ids [of B h fs fs'] show ?thesis by (auto simp: UserFS_newConnection_def next_ids_def)
  qed
qed

lemma next_ids_set_conn:
  assumes "conn_at h fs = Inr c" and "mc_slave_id c' = mc_slave_id c" and "next_ids (set_conn h c' fs) fs'"
  shows "next_ids fs fs'"
  using assms(3) slave_ids_set_conn [OF assms(1,2)] by (simp add: next_ids_def)

lemma next_ids_close:
  assumes "TCPMasterMessager_close B h (set_conn h c' fs) = Inr fs'" and "conn_at h fs = Inr c" and "mc_slave_id c' = mc_slave_id c"
  shows "next_ids fs fs'"
proof (rule next_ids_set_conn [OF assms(2,3)])
  show "next_ids (set_conn h c' fs) fs'" using close_ids [OF assms(1)] by (auto simp: next_ids_def)
qed

lemma next_ids_same: "conn_at h fs = Inr c \<Longrightarrow> mc_slave_id c' = mc_slave_id c \<Longrightarrow> next_ids fs (set_conn h c' fs)"
  by (simp add: next_ids_def slave_ids_set_conn subset_insertI)

lemma run_master_ids:
  assumes "run_master f fs = Inr fs'"
    and "\<And>m m'. f m = Inr m' \<Longrightarrow> \<exists>new. map mc_slave_id (mm_connections m') = map mc_slave_id (mm_connections m) @ replicate new 0"
  shows "next_ids fs fs'"
proof -
  obtain m m' where m: "tm_master (u_tcp_manager fs) = Some m" "f m = Inr m'" "fs' = fs\<lparr>u_tcp_manager := (u_tcp_manager fs)\<lparr>tm_master := Some m'\<rparr>\<rparr>"
    using assms(1) by (auto simp: run_master_def res_bind_eq_Inr)
  then obtain new where "map mc_slave_id (conns fs') = map mc_slave_id (conns fs) @ replicate new 0"
    using assms(2) [OF m(2)] by (auto simp: conns_def)
  then have "slave_ids fs' = slave_ids fs" by (simp add: slave_ids_def)
  with m(3) show ?thesis by (auto simp: next_ids_def)
qed

lemma master_handle_ids:
  assumes "master_handle B ev fs = Inr fs'"
  shows "next_ids fs fs'"
proof (cases ev)
  case (Accepted ec)
  have "\<exists>new. map mc_slave_id (mm_connections m') = map mc_slave_id (mm_connections m) @ replicate new 0"
    if "master_accept ec m = Inr m'" for m m'
    using master_accept_conns [OF that] by (auto dest!: arg_cong [where f = "map fst"] simp: comp_def)
  with assms Accepted show ?thesis by (auto intro: run_master_ids)
next
  case (HeaderRead h ec data)
  with assms show ?thesis
    by (auto simp: master_header_handler_def res_bind_eq_Inr Let_def split: if_splits
        dest!: do_read_same intro: next_ids_same elim!: next_ids_close)
next
  case (BodyRead h ec data remote)
  with assms obtain c where c: "conn_at h fs = Inr c" by (auto simp: master_body_handler_def res_bind_eq_Inr)
  let ?c = "c\<lparr>mc_buffer := fill data (mc_buffer c), mc_read := NoRead\<rparr>"
  show ?thesis
  proof (cases "\<not> ec \<and> length data = unat (pkt_size (mc_packet c))")
    case True
    with assms BodyRead c obtain p fs1 c1 c2 where p: "TCPManager_read_master B remote p h (set_conn h (?c\<lparr>mc_packet := p\<rparr>) fs) = Inr fs1"
      and c1: "conn_at h fs1 = Inr c1" "conn_do_read_header c1 = Inr c2" "fs' = set_conn h c2 fs1"
      by (auto simp: master_body_handler_def res_bind_eq_Inr Let_def)
    have "next_ids (set_conn h (?c\<lparr>mc_packet := p\<rparr>) fs) fs1"
      using p by (auto simp: TCPManager_read_master_def res_bind_eq_Inr next_ids_def [of fs fs for fs] split: if_splits intro: newConnection_ids)
    then have "next_ids fs fs1" by (intro next_ids_set_conn [OF c]) simp_all
    moreover have "slave_ids fs' = slave_ids fs1" "u_max_host_id fs' = u_max_host_id fs1"
      using slave_ids_set_conn [OF c1(1)] do_read_same(1) [OF c1(2)] c1(3) by simp_all
    ultimately show ?thesis by (simp add: next_ids_def)
  next
    case False
    with assms BodyRead c have "TCPMasterMessager_close B h (set_conn h ?c fs) = Inr fs'"
      by (auto simp: master_body_handler_def Let_def)
    from next_ids_close [OF this c] show ?thesis by simp
  qed
next
  case (Written h ec n)
  with assms show ?thesis
    by (auto simp: master_write_handler_def conn_write_finished_def conn_do_write_def Let_def res_bind_eq_Inr split: if_splits list.splits
        intro: next_ids_same elim!: next_ids_close)
next
  case RunPost
  have "map mc_slave_id (mm_connections (master_run_post m)) = map mc_slave_id (mm_connections m)" for m
    using run_post_conns [of m] by (auto dest!: arg_cong [where f = "map fst"] simp: comp_def)
  with assms RunPost show ?thesis by (auto intro!: run_master_ids exI [of _ 0])
qed

lemma disconnect_sections:
  assumes "UserFS_disconnect fs = Inr fs'"
  shows "sections (slave_section fs) fs fs'"
  using assms
  by (intro sections_one [of "RemoveNotOf (u_host_id fs)"]) (auto simp: UserFS_disconnect_def slave_section_def res_bind_eq_Inr Let_def split: if_splits)

lemma deploy_tree_arg: "deploy_tree d t = Inr d' \<Longrightarrow> \<exists>m. t = Some m"
  by (cases t) (auto simp: deploy_tree_def res_bind_eq_Inr)

lemma slaveRecognized_sections:
  assumes "UserFS_slaveRecognized B i ts hs fs = Inr fs'"
  shows "sections (slave_section fs) fs fs'"
proof -
  obtain t where t: "deploy_tree (u_dir_tree fs) t = Inr (u_dir_tree fs')"
    using assms by (auto simp: UserFS_slaveRecognized_def res_bind_eq_Inr Let_def)
  with deploy_tree_arg [OF t] show ?thesis by (intro sections_one [of "Deploy t"]) (auto simp: slave_section_def)
qed

lemma updateInfo_sections:
  assumes "UserFS_updateInfo B ts hs fs = Inr fs'"
  shows "sections (slave_section fs) fs fs'"
proof -
  obtain t where t: "deploy_tree (u_dir_tree fs) t = Inr (u_dir_tree fs')"
    using assms by (auto simp: UserFS_updateInfo_def res_bind_eq_Inr)
  with deploy_tree_arg [OF t] show ?thesis by (intro sections_one [of "Deploy t"]) (auto simp: slave_section_def)
qed

lemma slave_section_set_slave:
  "sections (slave_section (set_slave m fs)) (set_slave m fs) fs' \<Longrightarrow> sections (slave_section fs) fs fs'"
  by (simp add: sections_def slave_section_def set_slave_def)

lemma slave_handle_sections:
  assumes "slave_handle B ev fs = Inr fs'"
  shows "sections (slave_section fs) fs fs'"
proof (cases ev)
  case (SlaveBodyRead ec data)
  obtain m where m: "slave_of fs = Inr m" using assms SlaveBodyRead by (auto simp: slave_body_handler_def res_bind_eq_Inr)
  let ?m = "m\<lparr>sm_buffer := fill data (sm_buffer m), sm_read := NoRead\<rparr>"
  show ?thesis
  proof (cases "\<not> ec \<and> length data = unat (pkt_size (sm_packet m))")
    case True
    with assms SlaveBodyRead m obtain p fs1 where p: "TCPManager_read_slave B p (set_slave (?m\<lparr>sm_packet := p\<rparr>) fs) = Inr fs1"
      and fs1: "u_dir_tree fs' = u_dir_tree fs1"
      by (auto simp: slave_body_handler_def res_bind_eq_Inr Let_def set_slave_def)
    have "sections (slave_section (set_slave (?m\<lparr>sm_packet := p\<rparr>) fs)) (set_slave (?m\<lparr>sm_packet := p\<rparr>) fs) fs1"
      using p by (auto simp: TCPManager_read_slave_def res_bind_eq_Inr split: if_splits
          intro: sections_none slaveRecognized_sections updateInfo_sections)
    from slave_section_set_slave [OF this] show ?thesis by (rule sections_cong) (simp_all add: fs1)
  next
    case False
    with assms SlaveBodyRead m show ?thesis
      by (auto simp: slave_body_handler_def Let_def dest!: disconnect_sections intro: slave_section_set_slave)
  qed
qed (use assms in \<open>auto simp: slave_connect_handler_def slave_header_handler_def slave_write_handler_def res_bind_eq_Inr Let_def set_slave_def
    split: if_splits list.splits dest!: disconnect_sections intro: sections_none slave_section_set_slave [unfolded set_slave_def]\<close>)

end
