(* ===== verification/Fuse_Threads.thy ===== *)
theory Fuse_Threads
  imports Fuse_Interface Callback_Sections
begin

section \<open>FUSE operations beside the network thread\<close>

text \<open>
  The kernel calls the operations of \<^verbatim>\<open>FUSEInterface\<close> on threads of its own, while the thread of the
  network runs the callbacks that change the tree. \<^verbatim>\<open>UserFS::find\<close> holds the shared lock while it
  walks the tree; what the operation does with the node afterwards, it does without a lock. Here an operation is a
  sequence of steps: one for \<^verbatim>\<open>find\<close>, one for each time the node is accessed. Between two steps the
  other thread can run any number of sections that hold the exclusive lock.

  Steps of different operations do not influence each other: none changes the tree. Each step sees a
  tree that is not being changed at that moment, which is less than C++ says about
  accesses without a lock: what goes wrong here goes wrong there, and what is shown to be right here is shown of accesses that
  do not overlap with a change.
\<close>

subsection \<open>Definitions\<close>

datatype fuse_call =
    Getattr string
  | Readdir string
  | Open string u32
  | Read string u64 u64    \<comment> \<open>path, size, offset\<close>

fun call_path :: "fuse_call \<Rightarrow> string" where
  "call_path (Getattr path) = path"
| "call_path (Readdir path) = path"
| "call_path (Open path flags) = path"
| "call_path (Read path sz offset) = path"

text \<open>
  What an operation has found out from the tree: its result, or for \<^verbatim>\<open>read\<close> that the octets are to be
  fetched from a host.
\<close>

datatype fuse_answer = Attr int stat | Names int "string list" | Status int | Fetch u64

text \<open>Where an operation is, with the local variables that are still needed.\<close>

datatype fuse_pc =
    Lookup
  | GetType addr
  | GetLinks addr u32
  | GetSize addr u32 u64
  | GetTime addr u32 u64 u64
  | DirType addr
  | DirBegin addr
  | DirItem addr "addr option" "string list"
  | DirNext addr addr "string list"
  | ReadType addr u64
  | ReadSize addr u64
  | ReadHost addr
  | Done fuse_answer

text \<open>The test of the pointer that \<^verbatim>\<open>find\<close> returned, and what follows without an access.\<close>

fun after_find :: "fuse_call \<Rightarrow> addr option \<Rightarrow> fuse_pc" where
  "after_find (Getattr path) None = Done (Attr (- ENOENT) stat_zero)"
| "after_find (Getattr path) (Some p) = GetType p"
| "after_find (Readdir path) None = Done (Names (- ENOENT) [])"
| "after_find (Readdir path) (Some p) = DirType p"
| "after_find (Open path flags) None = Done (Status (- ENOENT))"
| "after_find (Open path flags) (Some p) = Done (Status (if flags AND 3 \<noteq> 0 then - EACCES else 0))"
| "after_find (Read path sz offset) None = Done (Status (- ENOENT))"
| "after_find (Read path sz offset) (Some p) = ReadType p offset"

text \<open>
  One step. In \<^verbatim>\<open>getattr\<close> the comparisons of \<^verbatim>\<open>node->type\<close> are one step. In \<^verbatim>\<open>readdir\<close> the loop
  visits the elements with an iterator: \<open>DirItem\<close> is at the test of the loop with the iterator (\<open>None\<close>
  at the end of the set) and the names passed to \<^verbatim>\<open>filler\<close> so far; \<open>DirNext\<close> advances the iterator.
\<close>

fun fuse_step :: "(string \<Rightarrow> string list) \<Rightarrow> fuse_call \<Rightarrow> Store \<Rightarrow> fuse_pc \<Rightarrow> fuse_pc result" where
  "fuse_step path_elements call st Lookup =
     res_bind (store_find path_elements (call_path call) st) (\<lambda>p. Inr (after_find call p))"
| "fuse_step path_elements call st (GetType p) =
     res_bind (load p st) (\<lambda>x.
       case mode_of (tn_type (ob_data x)) of
         None \<Rightarrow> Inr (Done (Attr (- ENOENT) stat_zero))
       | Some m \<Rightarrow> Inr (GetLinks p m))"
| "fuse_step path_elements call st (GetLinks p m) =
     res_bind (load p st) (\<lambda>x. Inr (GetSize p m (tn_num_links (ob_data x))))"
| "fuse_step path_elements call st (GetSize p m nl) =
     res_bind (load p st) (\<lambda>x. Inr (GetTime p m nl (tn_size (ob_data x))))"
| "fuse_step path_elements call st (GetTime p m nl sz) =
     res_bind (load p st) (\<lambda>x.
       Inr (Done (Attr 0 \<lparr>st_mode = m, st_nlink = nl, st_size = sint sz, st_mtime = sint (tn_mtime (ob_data x))\<rparr>)))"
| "fuse_step path_elements call st (DirType p) =
     res_bind (load p st) (\<lambda>x.
       if tn_type (ob_data x) \<noteq> DIRECTORY then Inr (Done (Names (- ENOTDIR) [])) else Inr (DirBegin p))"
| "fuse_step path_elements call st (DirBegin p) =
     res_bind (load p st) (\<lambda>x. Inr (DirItem p (oset_begin (ob_children x)) []))"
| "fuse_step path_elements call st (DirItem p None names) = Inr (Done (Names 0 names))"
| "fuse_step path_elements call st (DirItem p (Some c) names) =
     res_bind (load c st) (\<lambda>x. Inr (DirNext p c (names @ [ob_name x])))"
| "fuse_step path_elements call st (DirNext p c names) =
     res_bind (load p st) (\<lambda>x.
     res_bind (oset_next c (ob_children x)) (\<lambda>it. Inr (DirItem p it names)))"
| "fuse_step path_elements call st (ReadType p offset) =
     res_bind (load p st) (\<lambda>x.
       if tn_type (ob_data x) = DIRECTORY then Inr (Done (Status (- EISDIR)))
       else if sint offset < 0 then Inl AssertFailed
       else Inr (ReadSize p offset))"
| "fuse_step path_elements call st (ReadSize p offset) =
     res_bind (load p st) (\<lambda>x.
       if tn_size (ob_data x) \<le> offset then Inr (Done (Status 0)) else Inr (ReadHost p))"
| "fuse_step path_elements call st (ReadHost p) =
     res_bind (load p st) (\<lambda>x. Inr (Done (Fetch (tn_host_id (ob_data x)))))"
| "fuse_step path_elements call st (Done a) = Inr (Done a)"

text \<open>An interleaving, and an operation that runs undisturbed.\<close>

datatype fuse_act = Step | Write tree_write

fun interleaved :: "(string \<Rightarrow> string list) \<Rightarrow> fuse_call \<Rightarrow> fuse_act list \<Rightarrow> Store \<Rightarrow> fuse_pc \<Rightarrow> (Store \<times> fuse_pc) result" where
  "interleaved path_elements call [] st pc = Inr (st, pc)"
| "interleaved path_elements call (Step # as) st pc =
     res_bind (fuse_step path_elements call st pc) (\<lambda>pc. interleaved path_elements call as st pc)"
| "interleaved path_elements call (Write w # as) st pc =
     res_bind (store_write w st) (\<lambda>st. interleaved path_elements call as st pc)"

fun alone :: "(string \<Rightarrow> string list) \<Rightarrow> fuse_call \<Rightarrow> nat \<Rightarrow> Store \<Rightarrow> fuse_pc \<Rightarrow> fuse_pc result" where
  "alone path_elements call 0 st pc = Inr pc"
| "alone path_elements call (Suc k) st pc =
     res_bind (fuse_step path_elements call st pc) (alone path_elements call k st)"

fun steps_in :: "fuse_act list \<Rightarrow> nat" where
  "steps_in [] = 0"
| "steps_in (Step # as) = Suc (steps_in as)"
| "steps_in (Write w # as) = steps_in as"

fun writes_in :: "fuse_act list \<Rightarrow> tree_write list" where
  "writes_in [] = []"
| "writes_in (Step # as) = writes_in as"
| "writes_in (Write w # as) = w # writes_in as"

subsection \<open>The operations as functions of the node they find\<close>

fun answer_of :: "fuse_call \<Rightarrow> TreeNode option \<Rightarrow> fuse_answer result" where
  "answer_of (Getattr path) None = Inr (Attr (- ENOENT) stat_zero)"
| "answer_of (Getattr path) (Some n) =
     (case mode_of (tn_type n) of
        None \<Rightarrow> Inr (Attr (- ENOENT) stat_zero)
      | Some m \<Rightarrow> Inr (Attr 0 \<lparr>st_mode = m, st_nlink = tn_num_links n, st_size = sint (tn_size n), st_mtime = sint (tn_mtime n)\<rparr>))"
| "answer_of (Readdir path) None = Inr (Names (- ENOENT) [])"
| "answer_of (Readdir path) (Some n) =
     (if tn_type n \<noteq> DIRECTORY then Inr (Names (- ENOTDIR) []) else Inr (Names 0 (map tn_name (tn_children n))))"
| "answer_of (Open path flags) None = Inr (Status (- ENOENT))"
| "answer_of (Open path flags) (Some n) = Inr (Status (if flags AND 3 \<noteq> 0 then - EACCES else 0))"
| "answer_of (Read path sz offset) None = Inr (Status (- ENOENT))"
| "answer_of (Read path sz offset) (Some n) =
     (if tn_type n = DIRECTORY then Inr (Status (- EISDIR))
      else if sint offset < 0 then Inl AssertFailed
      else if tn_size n \<le> offset then Inr (Status 0)
      else Inr (Fetch (tn_host_id n)))"

definition serial :: "(string \<Rightarrow> string list) \<Rightarrow> fuse_call \<Rightarrow> DirTree \<Rightarrow> fuse_answer result" where
  "serial path_elements call t = res_bind (DirTree_find path_elements (call_path call) t) (answer_of call)"

text \<open>The definitions of \<open>Fuse_Interface\<close> are these.\<close>

lemma serial_getattr:
  "map_sum id (\<lambda>(c, s). Attr c s) (FUSE_getattr path_elements path (Some fs)) =
     serial path_elements (Getattr path) (u_dir_tree fs)"
  by (auto simp: FUSE_getattr_def serial_def UserFS_find_def res_bind_def split: sum.split option.split)

lemma serial_readdir:
  "map_sum id (\<lambda>(c, ns). Names c ns) (FUSE_readdir path_elements path (Some fs)) =
     serial path_elements (Readdir path) (u_dir_tree fs)"
  by (auto simp: FUSE_readdir_def serial_def UserFS_find_def res_bind_def split: sum.split option.split)

lemma serial_open:
  "map_sum id Status (FUSE_open path_elements path flags (Some fs)) =
     serial path_elements (Open path flags) (u_dir_tree fs)"
  by (auto simp: FUSE_open_def serial_def UserFS_find_def res_bind_def split: sum.split option.split)

definition finish_read ::
    "(string \<Rightarrow> string \<Rightarrow> string) \<Rightarrow> (string \<Rightarrow> local_file) \<Rightarrow> 'w libssh \<Rightarrow> string \<Rightarrow> u64 \<Rightarrow> u64 \<Rightarrow> UserFS \<Rightarrow> 'w
       \<Rightarrow> fuse_answer \<Rightarrow> ((int \<times> bytes) \<times> FUSEInterface \<times> 'w) result" where
  "finish_read path_append files L path sz offset fs w a =
     (case a of
        Fetch h \<Rightarrow>
          res_bind (UserFS_read path_append files L h path offset sz fs w) (\<lambda>((bytes_read, buf), fs, w).
            if bytes_read < 0 then Inr ((- EIO, buf), Some fs, w)
            else Inr ((to_int32 bytes_read, buf), Some fs, w))
      | Status c \<Rightarrow> Inr ((c, []), Some fs, w)
      | _ \<Rightarrow> Inl AssertFailed)"

lemma serial_read:
  "FUSE_read path_elements path_append files L path sz offset (Some fs) w =
     res_bind (serial path_elements (Read path sz offset) (u_dir_tree fs)) (finish_read path_append files L path sz offset fs w)"
  by (auto simp: FUSE_read_def serial_def finish_read_def UserFS_find_def res_bind_def Let_def split: sum.split option.split)

subsection \<open>Accesses that are not disturbed\<close>

text \<open>
  The contract of an undisturbed operation: \<open>good\<close> says that the pointers an operation holds are
  valid, \<open>harmless\<close> which changes may happen. Steps keep \<open>good\<close>, harmless changes do too, and the next step has the same
  outcome before and after a harmless change. Then an interleaving leaves the operation where it would be if it had run
  alone.
\<close>

locale undisturbed =
  fixes path_elements :: "string \<Rightarrow> string list"
    and call :: fuse_call
    and good :: "Store \<Rightarrow> fuse_pc \<Rightarrow> bool"
    and harmless :: "tree_write \<Rightarrow> bool"
  assumes step_good: "good st pc \<Longrightarrow> store_ok st \<Longrightarrow> fuse_step path_elements call st pc = Inr pc' \<Longrightarrow> good st pc'"
    and write_good: "good st pc \<Longrightarrow> store_ok st \<Longrightarrow> harmless w \<Longrightarrow> store_write w st = Inr st' \<Longrightarrow> good st' pc"
    and step_same: "good st pc \<Longrightarrow> store_ok st \<Longrightarrow> harmless w \<Longrightarrow> store_write w st = Inr st' \<Longrightarrow>
      fuse_step path_elements call st' pc = fuse_step path_elements call st pc"
begin

lemma alone_same:
  assumes "store_ok st" and "harmless w" and "store_write w st = Inr st'" and "good st pc"
  shows "alone path_elements call k st' pc = alone path_elements call k st pc"
  using assms(4)
proof (induction k arbitrary: pc)
  case (Suc k)
  have "fuse_step path_elements call st' pc = fuse_step path_elements call st pc"
    using Suc.prems assms(1-3) by (rule step_same)
  moreover have "alone path_elements call k st' pc' = alone path_elements call k st pc'"
    if "fuse_step path_elements call st pc = Inr pc'" for pc'
    using that Suc.prems assms(1) by (intro Suc.IH) (rule step_good)
  ultimately show ?case by (cases "fuse_step path_elements call st pc") simp_all
qed simp

lemma interleaved_alone:
  assumes "good st pc" and "store_ok st" and "\<forall>w\<in>set (writes_in as). harmless w"
    and "write_all store_write (writes_in as) st = Inr st'"
  shows "interleaved path_elements call as st pc =
           map_sum id (Pair st') (alone path_elements call (steps_in as) st pc)"
  using assms
proof (induction as arbitrary: st pc)
  case (Cons a as)
  show ?case
  proof (cases a)
    case Step
    then show ?thesis
      using Cons.prems Cons.IH [of st] step_good [OF Cons.prems(1,2)]
      by (cases "fuse_step path_elements call st pc") simp_all
  next
    case (Write w)
    then obtain st1 where st1: "store_write w st = Inr st1" "write_all store_write (writes_in as) st1 = Inr st'"
      using Cons.prems(4) by (auto simp: res_bind_eq_Inr)
    have "harmless w" using Cons.prems(3) Write by simp
    with Cons.prems(1,2) st1(1) have "good st1 pc" "store_ok st1"
      "alone path_elements call (steps_in as) st1 pc = alone path_elements call (steps_in as) st pc"
      by (auto intro: write_good store_write_ok alone_same)
    with st1 Write Cons.prems(3) show ?thesis by (simp add: Cons.IH)
  qed
qed simp

end

text \<open>
  The pointers an operation holds: the node, and in the loop of \<^verbatim>\<open>readdir\<close> one of its children.
\<close>

fun holds :: "fuse_pc \<Rightarrow> (addr \<times> addr option) option" where
  "holds (GetType p) = Some (p, None)"
| "holds (GetLinks p m) = Some (p, None)"
| "holds (GetSize p m nl) = Some (p, None)"
| "holds (GetTime p m nl sz) = Some (p, None)"
| "holds (DirType p) = Some (p, None)"
| "holds (DirBegin p) = Some (p, None)"
| "holds (DirItem p it names) = Some (p, it)"
| "holds (DirNext p c names) = Some (p, Some c)"
| "holds (ReadType p offset) = Some (p, None)"
| "holds (ReadSize p offset) = Some (p, None)"
| "holds (ReadHost p) = Some (p, None)"
| "holds pc = None"

definition holds_anchored :: "u64 \<Rightarrow> Store \<Rightarrow> fuse_pc \<Rightarrow> bool" where
  "holds_anchored h st pc \<longleftrightarrow> pc \<noteq> Lookup \<and>
     (\<forall>p it. holds pc = Some (p, it) \<longrightarrow>
        (\<exists>x. anchored h x st \<and> ob_addr x = p \<and> (\<forall>c. it = Some c \<longrightarrow> c \<in> ob_addr ` set (ob_children x))))"

lemma holds_anchored_step:
  assumes "holds_anchored h st pc" and "store_ok st" and "fuse_step path_elements call st pc = Inr pc'"
  shows "holds_anchored h st pc'"
proof -
  note load = anchored_load [OF assms(2), of h]
  from assms(1,3) show ?thesis
    by (cases "(path_elements, call, st, pc)" rule: fuse_step.cases)
      (auto simp: holds_anchored_def res_bind_eq_Inr load split: option.splits if_splits;
       blast dest: oset_begin_mem oset_next_mem)+
qed

lemma holds_anchored_write:
  assumes "holds_anchored h st pc" and "store_ok st" and "spares w h" and "store_write w st = Inr st'"
  shows "holds_anchored h st' pc"
  using assms(1) anchored_write [OF assms(4,2) _ assms(3)] unfolding holds_anchored_def by blast

lemma holds_anchored_same:
  assumes "holds_anchored h st pc" and "store_ok st" and "spares w h" and "store_write w st = Inr st'"
  shows "fuse_step path_elements call st' pc = fuse_step path_elements call st pc"
proof -
  have same: "load (ob_addr x) st' = load (ob_addr x) st" if "anchored h x st" for x
    using anchored_load [OF assms(2) that] anchored_load [OF store_write_ok [OF assms(4,2)] anchored_write [OF assms(4,2) that assms(3)]]
    by simp
  from assms(1) show ?thesis
    by (cases "(path_elements, call, st, pc)" rule: fuse_step.cases)
      (auto simp: holds_anchored_def same anchored_child intro!: arg_cong2 [where f = res_bind])
qed

interpretation anchored_access: undisturbed path_elements call "holds_anchored h" "\<lambda>w. spares w h" for path_elements call h
  by unfold_locales (auto intro: holds_anchored_step holds_anchored_write holds_anchored_same)

text \<open>The root object is never destroyed, and its members other than the set of children are never written.\<close>

fun in_readdir :: "fuse_pc \<Rightarrow> bool" where
  "in_readdir (DirType p) = True"
| "in_readdir (DirBegin p) = True"
| "in_readdir (DirItem p it names) = True"
| "in_readdir (DirNext p c names) = True"
| "in_readdir pc = False"

definition holds_root :: "Store \<Rightarrow> fuse_pc \<Rightarrow> bool" where
  "holds_root st pc \<longleftrightarrow> pc \<noteq> Lookup \<and> \<not> in_readdir pc \<and>
     (\<forall>p it. holds pc = Some (p, it) \<longrightarrow> (\<exists>r. st_root st = Some r \<and> ob_addr r = p))"

lemma load_root: "st_root st = Some r \<Longrightarrow> load (ob_addr r) st = Inr r"
  by (simp add: load_def alive_root)

lemma holds_root_step:
  assumes "holds_root st pc" and "fuse_step path_elements call st pc = Inr pc'"
  shows "holds_root st pc'"
  using assms by (cases "(path_elements, call, st, pc)" rule: fuse_step.cases)
    (auto simp: holds_root_def res_bind_eq_Inr split: option.splits if_splits)

lemma holds_root_write:
  assumes "holds_root st pc" and "store_write w st = Inr st'"
  shows "holds_root st' pc"
proof -
  obtain r where "st_root st = Some r" "st_root st' = Some (put_children (kids st') r)"
    using store_write_root [OF assms(2)] by blast
  with assms(1) show ?thesis by (auto simp: holds_root_def)
qed

lemma holds_root_same:
  assumes "holds_root st pc" and "store_write w st = Inr st'"
  shows "fuse_step path_elements call st' pc = fuse_step path_elements call st pc"
proof -
  obtain r where r: "st_root st = Some r" "st_root st' = Some (put_children (kids st') r)"
    using store_write_root [OF assms(2)] by blast
  from load_root [OF r(2)] have "load (ob_addr r) st' = Inr (put_children (kids st') r)" by simp
  with assms(1) r load_root [OF r(1)] show ?thesis
    by (cases "(path_elements, call, st, pc)" rule: fuse_step.cases) (auto simp: holds_root_def)
qed

interpretation root_access: undisturbed path_elements call holds_root "\<lambda>w. True" for path_elements call
  by unfold_locales (auto intro: holds_root_step holds_root_write holds_root_same)

subsection \<open>An operation that runs alone\<close>

lemma alone_Done [simp]: "alone path_elements call k st (Done a) = Inr (Done a)"
  by (induction k) simp_all

lemma alone_enough:
  "alone path_elements call k st pc = Inr (Done a) \<Longrightarrow> k \<le> k' \<Longrightarrow> alone path_elements call k' st pc = Inr (Done a)"
proof (induction k arbitrary: pc k')
  case (Suc k)
  then obtain k'' where "k' = Suc k''" by (cases k') auto
  with Suc show ?case by (auto simp: res_bind_eq_Inr)
qed simp

lemma alone_readdir_loop:
  assumes "store_ok st" and "x \<in> set (alive st)" and "ob_children x = ys @ zs"
  shows "alone path_elements call (Suc (2 * length zs)) st (DirItem (ob_addr x) (oset_begin zs) (map ob_name ys)) =
           Inr (Done (Names 0 (map ob_name (ob_children x))))"
  using assms(3)
proof (induction zs arbitrary: ys)
  case (Cons c cs)
  have "c \<in> set (alive st)"
    using assms(2) Cons.prems objs_subset child_in_objs by (fastforce simp: alive_def split: option.splits)
  then have "load (ob_addr c) st = Inr c" "load (ob_addr x) st = Inr x"
    using assms(1,2) by (simp_all add: load_iff)
  moreover have "oset_next (ob_addr c) (ob_children x) = Inr (oset_begin cs)"
    using distinct_children [OF assms(1,2)] unfolding Cons.prems by (rule oset_next_at)
  moreover have "ob_children x = (ys @ [c]) @ cs" using Cons.prems by simp
  from Cons.IH [OF this] have "alone path_elements call (Suc (2 * length cs)) st
      (DirItem (ob_addr x) (oset_begin cs) (map ob_name ys @ [ob_name c])) = Inr (Done (Names 0 (map ob_name (ob_children x))))"
    by simp
  ultimately show ?case by simp
qed simp

lemma alone_finishes:
  assumes "store_ok st" and "x \<in> set (alive st)" and "4 + 2 * length (ob_children x) \<le> k"
  shows "alone path_elements call k st (after_find call (Some (ob_addr x))) =
           map_sum id Done (answer_of call (Some (node_of x)))"
proof -
  have load: "load (ob_addr x) st = Inr x" using assms(1,2) by (simp add: load_iff)
  obtain j where k: "k = Suc (Suc (Suc (Suc j)))" using assms(3) by (cases k; cases "k - 1"; cases "k - 2"; cases "k - 3") auto
  show ?thesis
  proof (cases call)
    case (Getattr path)
    with load show ?thesis by (simp add: k split: option.split)
  next
    case (Readdir path)
    have le: "Suc (2 * length (ob_children x)) \<le> Suc (Suc j)" using assms(3) k by simp
    have "ob_children x = [] @ ob_children x" by simp
    from alone_enough [OF alone_readdir_loop [OF assms(1,2) this] le, of path_elements call]
    have "alone path_elements call (Suc (Suc j)) st (DirItem (ob_addr x) (oset_begin (ob_children x)) []) =
        Inr (Done (Names 0 (map ob_name (ob_children x))))" by (simp only: list.map)
    then have "alone path_elements call k st (DirType (ob_addr x)) =
        (if tn_type (ob_data x) \<noteq> DIRECTORY then Inr (Done (Names (- ENOTDIR) [])) else Inr (Done (Names 0 (map ob_name (ob_children x)))))"
      unfolding k by (simp add: load)
    with Readdir show ?thesis by (simp add: comp_def)
  next
    case (Read path sz offset)
    with load show ?thesis by (simp add: k)
  qed simp
qed

text \<open>However far an operation gets alone, if it ends it ends with the answer for the node.\<close>

lemma alone_error: "alone path_elements call k st pc = Inl e \<Longrightarrow> k \<le> k' \<Longrightarrow> alone path_elements call k' st pc = Inl e"
proof (induction k arbitrary: pc k')
  case (Suc k)
  then obtain k'' where "k' = Suc k''" by (cases k') auto
  with Suc show ?case by (cases "fuse_step path_elements call st pc") auto
qed simp

lemma alone_determined:
  assumes "store_ok st" and "x \<in> set (alive st)"
  shows "alone path_elements call k st (after_find call (Some (ob_addr x))) = Inr (Done a) \<Longrightarrow> answer_of call (Some (node_of x)) = Inr a"
    and "alone path_elements call k st (after_find call (Some (ob_addr x))) = Inl e \<Longrightarrow> answer_of call (Some (node_of x)) = Inl e"
proof -
  let ?k = "max k (4 + 2 * length (ob_children x))" and ?pc = "after_find call (Some (ob_addr x))"
  have fin: "alone path_elements call ?k st ?pc = map_sum id Done (answer_of call (Some (node_of x)))"
    by (rule alone_finishes [OF assms]) simp
  show "answer_of call (Some (node_of x)) = Inr a" if "alone path_elements call k st ?pc = Inr (Done a)"
    using alone_enough [OF that, of ?k] fin by (cases "answer_of call (Some (node_of x))") simp_all
  show "answer_of call (Some (node_of x)) = Inl e" if "alone path_elements call k st ?pc = Inl e"
    using alone_error [OF that, of ?k] fin by (cases "answer_of call (Some (node_of x))") simp_all
qed

lemma alone_next: "alone path_elements call k st pc = Inr pc' \<Longrightarrow> alone path_elements call (Suc k) st pc = fuse_step path_elements call st pc'"
proof (induction k arbitrary: pc)
  case 0
  then show ?case by (cases "fuse_step path_elements call st pc'") auto
next
  case (Suc k)
  then obtain pc1 where "fuse_step path_elements call st pc = Inr pc1" "alone path_elements call k st pc1 = Inr pc'"
    by (auto simp: res_bind_eq_Inr)
  with Suc.IH [of pc1] show ?case by simp
qed

subsection \<open>A master serving calls\<close>

text \<open>
  The runs of a master with one FUSE operation under way. A callback changes the store in sections
  it may have; their effect on the tree is that of the callback. The peers may do what they like; the only
  condition is that the counter of the ids does not wrap around.
\<close>

definition ids_left :: "UserFS \<Rightarrow> bool" where
  "ids_left fs \<longleftrightarrow> unat (u_max_host_id fs) + 1 < 2 ^ 64"

inductive beside ::
    "boost_archive \<Rightarrow> (string \<Rightarrow> string list) \<Rightarrow> fuse_call \<Rightarrow> UserFS \<times> Store \<times> fuse_pc \<Rightarrow> UserFS \<times> Store \<times> fuse_pc \<Rightarrow> bool"
  for B path_elements call s0 where
  beside_start: "beside B path_elements call s0 s0"
| beside_callback: "beside B path_elements call s0 (fs, st, pc) \<Longrightarrow> ids_left fs \<Longrightarrow> master_handle B ev fs = Inr fs' \<Longrightarrow>
    \<forall>w\<in>set ws. master_section fs w \<Longrightarrow> write_all store_write ws st = Inr st' \<Longrightarrow> tree_of st' = u_dir_tree fs' \<Longrightarrow>
    beside B path_elements call s0 (fs', st', pc)"
| beside_access: "beside B path_elements call s0 (fs, st, pc) \<Longrightarrow> fuse_step path_elements call st pc = Inr pc' \<Longrightarrow>
    beside B path_elements call s0 (fs, st, pc')"

text \<open>Every callback of a master can be followed in the store.\<close>

lemma beside_follows:
  assumes "master_handle B ev fs = Inr fs'" and "tree_of st = u_dir_tree fs"
  shows "\<exists>ws st'. (\<forall>w\<in>set ws. master_section fs w) \<and> write_all store_write ws st = Inr st' \<and> tree_of st' = u_dir_tree fs'"
proof -
  obtain ws where ws: "\<forall>w\<in>set ws. master_section fs w" "write_all dir_tree_write ws (u_dir_tree fs) = Inr (u_dir_tree fs')"
    using master_handle_sections [OF assms(1)] by (auto simp: sections_def)
  with store_writes_refine [of ws st] assms(2)
  obtain st' where "write_all store_write ws st = Inr st'" "tree_of st' = u_dir_tree fs'"
    by (cases "write_all store_write ws st") auto
  with ws(1) show ?thesis by blast
qed

text \<open>What such a run does to the operation is an interleaving with sections that spare the master.\<close>

lemma interleaved_append:
  "interleaved path_elements call (as @ bs) st pc =
     res_bind (interleaved path_elements call as st pc) (\<lambda>(st, pc). interleaved path_elements call bs st pc)"
proof (induction as arbitrary: st pc)
  case (Cons a as)
  then show ?case by (cases a) (simp_all add: res_bind_def split: sum.split)
qed simp

lemma interleaved_writes:
  "interleaved path_elements call (map Write ws) st pc = res_bind (write_all store_write ws st) (\<lambda>st. Inr (st, pc))"
  by (induction ws arbitrary: st) (simp_all add: res_bind_assoc)

lemma in_append [simp]:
  "steps_in (as @ bs) = steps_in as + steps_in bs" "writes_in (as @ bs) = writes_in as @ writes_in bs"
  "writes_in (map Write ws) = ws" "steps_in (map Write ws) = 0"
  by (induction as rule: steps_in.induct; simp)+ (induction ws; simp)+

text \<open>
  No connection ever gets the id 0 or 1, whatever the peers do, so no section takes away the entries of the
  master.
\<close>

definition others_ids :: "UserFS \<Rightarrow> bool" where
  "others_ids fs \<longleftrightarrow> (\<forall>i\<in>set (slave_ids fs). 2 \<le> unat i) \<and> 2 \<le> unat (u_max_host_id fs)"

lemma others_ids_start: "master_inv fs \<Longrightarrow> others_ids fs"
  by (simp add: others_ids_def master_inv_def hosts_inv_def conns_inv_def list_all_iff)

lemma others_ids_kept:
  assumes "others_ids fs" and "ids_left fs" and "master_handle B ev fs = Inr fs'"
  shows "others_ids fs'"
proof -
  have "unat (u_max_host_id fs + 1) = Suc (unat (u_max_host_id fs))" using assms(2) by (intro unat_Suc_max) (simp add: ids_left_def)
  with master_handle_ids [OF assms(3)] assms(1) show ?thesis by (auto simp: next_ids_def others_ids_def)
qed

lemma master_section_spares: "others_ids fs \<Longrightarrow> master_section fs w \<Longrightarrow> spares w 1"
  by (auto simp: master_section_def spares_def others_ids_def dest!: bspec [where x = 1])

lemma beside_interleaved:
  assumes "beside B path_elements call (fs0, st0, pc0) (fs, st, pc)" and "others_ids fs0"
  shows "others_ids fs \<and> (\<exists>as. interleaved path_elements call as st0 pc0 = Inr (st, pc) \<and>
    write_all store_write (writes_in as) st0 = Inr st \<and> (\<forall>w\<in>set (writes_in as). spares w 1))"
  using assms(1)
proof (induction "(fs, st, pc)" arbitrary: fs st pc rule: beside.induct)
  case beside_start
  show ?case using assms(2) by (intro conjI exI [of _ "[]"]) simp_all
next
  case (beside_callback fs st pc ev fs' ws st')
  then obtain as where inv: "others_ids fs" and as: "interleaved path_elements call as st0 pc0 = Inr (st, pc)"
    "write_all store_write (writes_in as) st0 = Inr st" "\<forall>w\<in>set (writes_in as). spares w 1" by blast
  have "others_ids fs'" using inv beside_callback by (blast intro: others_ids_kept)
  moreover have "\<forall>w\<in>set ws. spares w 1" using inv beside_callback by (blast intro: master_section_spares)
  moreover have "write_all store_write (writes_in as @ ws) st0 = Inr st'"
    using as(2) beside_callback by (simp add: write_all_append)
  ultimately show ?case
    using as beside_callback by (intro conjI exI [of _ "as @ map Write ws"]) (auto simp: interleaved_append interleaved_writes)
next
  case (beside_access fs st pc pc')
  then obtain as where inv: "others_ids fs" and as: "interleaved path_elements call as st0 pc0 = Inr (st, pc)"
    "write_all store_write (writes_in as) st0 = Inr st" "\<forall>w\<in>set (writes_in as). spares w 1" by blast
  then show ?case
    using beside_access by (intro conjI exI [of _ "as @ [Step]"]) (simp_all add: interleaved_append write_all_append)
qed

subsection \<open>Serving a node\<close>

text \<open>What an operation finds, from the side of the tree.\<close>

lemma lookup_step:
  assumes "store_ok st" and "DirTree_find path_elements (call_path call) (tree_of st) = Inr (Some n)"
  obtains x where "x \<in> set (alive st)" and "node_of x = n"
    and "fuse_step path_elements call st Lookup = Inr (after_find call (Some (ob_addr x)))"
  using assms(1)
proof (cases rule: store_find_cases [where path_elements = path_elements and path = "call_path call"])
  case (found x)
  with assms(2) show thesis by (intro that) simp_all
qed (use assms(2) in simp_all)

lemma after_find_anchored:
  assumes "anchored h x st"
  shows "holds_anchored h st (after_find call (Some (ob_addr x)))"
  using assms by (cases call) (auto simp: holds_anchored_def)

lemma after_find_root:
  assumes "st_root st = Some x" and "\<forall>path. call \<noteq> Readdir path"
  shows "holds_root st (after_find call (Some (ob_addr x)))"
  using assms by (cases call) (auto simp: holds_root_def)

lemma served_alone:
  assumes "store_ok st" and "tree_of st = Some r" and "uniform (tn_children r)"
    and "x \<in> set (alive st)"
    and "node_of x = r \<and> (\<forall>path. call \<noteq> Readdir path) \<or> node_of x \<noteq> r \<and> (\<forall>w\<in>set (writes_in as). spares w (tn_host_id (node_of x)))"
    and "write_all store_write (writes_in as) st = Inr st'"
  shows "interleaved path_elements call as st (after_find call (Some (ob_addr x))) =
           map_sum id (Pair st') (alone path_elements call (steps_in as) st (after_find call (Some (ob_addr x))))"
  using assms(5)
proof (elim disjE conjE)
  assume "node_of x = r" and call: "\<forall>path. call \<noteq> Readdir path"
  then have "st_root st = Some x" using assms(1,2,4) by (intro found_root) simp_all
  with call have "holds_root st (after_find call (Some (ob_addr x)))" by (intro after_find_root)
  with assms(1,6) show ?thesis by (intro root_access.interleaved_alone) simp_all
next
  assume "node_of x \<noteq> r" and w: "\<forall>w\<in>set (writes_in as). spares w (tn_host_id (node_of x))"
  then have "anchored (tn_host_id (node_of x)) x st" using assms(1-4) by (intro found_anchored)
  from after_find_anchored [OF this] show ?thesis
    using assms(1,6) w by (intro anchored_access.interleaved_alone)
qed

lemma answer_not_freed: "answer_of call node \<noteq> Inl UseAfterFree"
  by (cases "(call, node)" rule: answer_of.cases) (auto split: option.split)

subsection \<open>Properties\<close>

text \<open>
  \<^bold>\<open>C13\<close>. An operation takes effect when it calls \<^verbatim>\<open>find\<close>. If the node it finds is not the root, and none of
  the changes of the tree that happen while it runs takes away the entries of the host of the node, then however its accesses and the
  changes are interleaved it ends after at most four accesses and two more for each child of the node, with the
  answer it would have given if it had run at once when it called \<^verbatim>\<open>find\<close>; the tree ends up as if the changes had run
  without it. For the root this holds for all operations but \<^verbatim>\<open>readdir\<close>, whatever the changes are.
\<close>

theorem fuse_call_atomic:
  assumes "store_ok st" and "tree_of st = Some r" and "uniform (tn_children r)"
    and "DirTree_find path_elements (call_path call) (Some r) = Inr (Some n)"
    and "n = r \<and> (\<forall>path. call \<noteq> Readdir path) \<or> n \<noteq> r \<and> (\<forall>w\<in>set (writes_in as). spares w (tn_host_id n))"
    and "\<forall>w\<in>set (writes_in as). write_defined w" and "4 + 2 * length (tn_children n) \<le> steps_in as"
  shows "\<exists>st'. interleaved path_elements call (Step # as) st Lookup =
             map_sum id (\<lambda>a. (st', Done a)) (serial path_elements call (Some r)) \<and>
           write_all dir_tree_write (writes_in as) (Some r) = Inr (tree_of st')"
proof -
  obtain x where x: "x \<in> set (alive st)" "node_of x = n"
    and find: "fuse_step path_elements call st Lookup = Inr (after_find call (Some (ob_addr x)))"
    using lookup_step [OF assms(1)] assms(2,4) by metis
  obtain st' where st': "write_all store_write (writes_in as) st = Inr st'"
    using store_writes_return [OF assms(1,6)] by blast
  have "interleaved path_elements call (Step # as) st Lookup =
      map_sum id (Pair st') (alone path_elements call (steps_in as) st (after_find call (Some (ob_addr x))))"
    using served_alone [OF assms(1-3) x(1) _ st'] assms(5) x(2) find by simp
  also have "alone path_elements call (steps_in as) st (after_find call (Some (ob_addr x))) =
      map_sum id Done (answer_of call (Some n))"
    using alone_finishes [OF assms(1) x(1)] assms(7) x(2) by auto
  also have "map_sum id (Pair st') (map_sum id Done (answer_of call (Some n))) = map_sum id (\<lambda>a. (st', Done a)) (answer_of call (Some n))"
    by (cases "answer_of call (Some n)") simp_all
  finally show ?thesis
    using store_writes_tree [OF st'] assms(2,4) by (intro exI [of _ st']) (simp add: serial_def)
qed

theorem fuse_call_atomic_witness:
  "\<exists>st'. interleaved (\<lambda>_. [''/'', ''master_file1'']) (Getattr ''/master_file1'')
     [Step, Step, Write (Merge (Some standby_tree)), Step, Write (RemoveOf 2), Step, Step] (new_store master_tree) Lookup =
     Inr (st', Done (Attr 0 \<lparr>st_mode = 0x8124, st_nlink = 1, st_size = 22, st_mtime = 5\<rparr>))"
proof -
  let ?as = "[Step, Write (Merge (Some standby_tree)), Step, Write (RemoveOf 2), Step, Step]"
  have "serial (\<lambda>_. [''/'', ''master_file1'']) (Getattr ''/master_file1'') (Some master_tree) =
      Inr (Attr 0 \<lparr>st_mode = 0x8124, st_nlink = 1, st_size = 22, st_mtime = 5\<rparr>)"
    by (simp add: serial_def DirTree_find_def sample_defs)
  with fuse_call_atomic [OF new_store_ok sample_trees_ok(3), of "\<lambda>_. [''/'', ''master_file1'']" "Getattr ''/master_file1''"
      "sample_file 1 ''master_file1''" ?as]
  show ?thesis by (auto simp: DirTree_find_def sample_defs spares_def write_defined_def simp del: interleaved.simps)
qed

text \<open>
  \<^bold>\<open>C30\<close>. The pointer \<^verbatim>\<open>find\<close> returns can dangle. The lock is released when \<^verbatim>\<open>find\<close> returns; if the
  next thing that happens is a change that takes away the entries of the host of the node (its slave leaves the group, or on a slave any update from
  the master arrives), then the first access of \<^verbatim>\<open>getattr\<close>, \<^verbatim>\<open>readdir\<close> or \<^verbatim>\<open>read\<close> is to an object that
  has been destroyed.
\<close>

theorem found_node_dangles:
  assumes "store_ok st" and "tree_of st = Some r" and "uniform (tn_children r)"
    and "DirTree_find path_elements (call_path call) (Some r) = Inr (Some n)" and "n \<noteq> r"
    and "\<forall>path flags. call \<noteq> Open path flags" and "write_defined w" and "\<not> spares w (tn_host_id n)"
  shows "interleaved path_elements call (Step # Write w # Step # as) st Lookup = Inl UseAfterFree"
proof -
  obtain x where x: "x \<in> set (alive st)" "node_of x = n"
    and find: "fuse_step path_elements call st Lookup = Inr (after_find call (Some (ob_addr x)))"
    using lookup_step [OF assms(1)] assms(2,4) by metis
  have "anchored (tn_host_id n) x st" using found_anchored [OF assms(1-3) x(1)] x(2) assms(5) by simp
  moreover obtain st' where st': "store_write w st = Inr st'" using store_write_returns [OF assms(1,7)] by blast
  ultimately have "load (ob_addr x) st' = Inl UseAfterFree" using assms(1,8) by (intro anchored_destroyed)
  then have "fuse_step path_elements call st' (after_find call (Some (ob_addr x))) = Inl UseAfterFree"
    using assms(6) by (cases call) simp_all
  with find st' show ?thesis by simp
qed

theorem found_node_dangles_witness:
  "interleaved (\<lambda>_. [''/'', ''master_file1'']) (Getattr ''/master_file1'') [Step, Write (Deploy (Some master_tree)), Step]
     (new_store master_tree) Lookup = Inl UseAfterFree"
  by (rule found_node_dangles [OF new_store_ok sample_trees_ok(3), where n = "sample_file 1 ''master_file1''"])
    (simp_all add: DirTree_find_def sample_defs spares_def write_defined_def)

text \<open>
  \<^bold>\<open>C14\<close>. On a master, an operation on an entry that the master shares itself is safe beside the network. Let the operation have
  called \<^verbatim>\<open>find\<close> and found a node of the master, where the operation is not \<^verbatim>\<open>readdir\<close> of the root. Then in whatever order its accesses
  and the callbacks of the network follow, with slaves joining and leaving and with peers that send anything at any time, as
  long as the callbacks return and the counter of the ids does not wrap around, the next access is not to an object that
  was destroyed, and if the operation has ended, its answer is the one for the tree in which it called \<^verbatim>\<open>find\<close>.
\<close>

theorem own_files_undisturbed:
  assumes "master_inv fs" and "store_ok st" and "tree_of st = u_dir_tree fs"
    and "UserFS_find path_elements (call_path call) fs = Inr (Some n)" and "tn_host_id n = 1"
    and "u_dir_tree fs = Some n \<longrightarrow> (\<forall>path. call \<noteq> Readdir path)"
    and "fuse_step path_elements call st Lookup = Inr pc1"
    and "beside B path_elements call (fs, st, pc1) (fs', st', pc)"
  shows "fuse_step path_elements call st' pc \<noteq> Inl UseAfterFree \<and>
    (\<forall>a. pc = Done a \<longrightarrow> serial path_elements call (u_dir_tree fs) = Inr a)"
proof -
  obtain r where r: "u_dir_tree fs = Some r" "uniform (tn_children r)"
    using assms(1) by (auto simp: master_inv_def tree_inv_def wf_tree_def root_children_def split: option.splits)
  have find: "DirTree_find path_elements (call_path call) (tree_of st) = Inr (Some n)"
    using assms(3,4) by (simp add: UserFS_find_def)
  obtain x where x: "x \<in> set (alive st)" "node_of x = n" and pc1: "pc1 = after_find call (Some (ob_addr x))"
    using lookup_step [OF assms(2) find] assms(7) by (metis Inr_eqD)
  obtain as where as: "interleaved path_elements call as st pc1 = Inr (st', pc)"
    "write_all store_write (writes_in as) st = Inr st'" "\<forall>w\<in>set (writes_in as). spares w 1"
    using beside_interleaved [OF assms(8) others_ids_start [OF assms(1)]] by blast
  have cond: "node_of x = r \<and> (\<forall>path. call \<noteq> Readdir path) \<or>
      node_of x \<noteq> r \<and> (\<forall>w\<in>set (writes_in bs). spares w (tn_host_id (node_of x)))" if "writes_in bs = writes_in as" for bs
    using assms(5,6) r(1) x(2) as(3) that by (cases "n = r") simp_all
  note served = served_alone [OF assms(2) _ r(2) x(1) cond, folded pc1]
  have "alone path_elements call (steps_in as) st pc1 = Inr pc"
    using served [of as st' path_elements] assms(3) r(1) as(1,2) by (cases "alone path_elements call (steps_in as) st pc1") simp_all
  moreover have "fuse_step path_elements call st' pc = Inl e \<Longrightarrow> alone path_elements call (Suc (steps_in as)) st pc1 = Inl e" for e
    using served [of "as @ [Step]" st' path_elements] assms(3) r(1) as(1,2)
    by (cases "alone path_elements call (Suc (steps_in as)) st pc1") (simp_all add: interleaved_append)
  ultimately show ?thesis
    using alone_determined [OF assms(2) x(1), of path_elements call] answer_not_freed [of call "Some n"] x(2)
      find assms(3) unfolding pc1 serial_def by fastforce
qed

lemma beside_joins:
  assumes "beside tagged_archive path_elements call s0 (sample_master [conn_new], st, pc)" and "tree_of st = u_dir_tree (sample_master [conn_new])"
  shows "\<exists>fs' st'. beside tagged_archive path_elements call s0 (fs', st', pc) \<and> u_dir_tree fs' = u_dir_tree sample_joined"
proof -
  let ?fs = "sample_master [conn_new]" and ?msg = "hello_message (DirTree_serialize tagged_archive (Some standby_tree)) (Host_serialize tagged_archive (sample_host 0))"
  obtain fs1 fs2 where hdr: "master_handle tagged_archive (HeaderRead 0 False (host_to_network_64 (of_nat (length ?msg)))) ?fs = Inr fs1"
    and body: "master_handle tagged_archive (BodyRead 0 False ?msg ''10.0.0.7'') fs1 = Inr fs2"
    and tree: "u_dir_tree fs2 = u_dir_tree sample_joined"
    using hello_packet_joins [OF archive_lossless_tagged sample_master_inv sample_fresh, of standby_tree "sample_host 0" "''10.0.0.7''"]
      sample_trees_ok(2) sample_sizes(1) by (auto simp: sample_joined_def)
  have same: "u_max_host_id fs1 = u_max_host_id ?fs" "u_dir_tree fs1 = u_dir_tree ?fs"
    using hdr by (auto simp: master_header_handler_def res_bind_eq_Inr Let_def wire64.length_enc Packet_sizeLength_def)
  have first: "beside tagged_archive path_elements call s0 (fs1, st, pc)"
    by (rule beside_callback [where ws = "[]", OF assms(1) _ hdr]) (simp_all add: ids_left_def assms(2) same)
  obtain ws st' where "\<forall>w\<in>set ws. master_section fs1 w" "write_all store_write ws st = Inr st'" "tree_of st' = u_dir_tree fs2"
    using beside_follows [OF body, of st] assms(2) same(2) by auto
  then have "beside tagged_archive path_elements call s0 (fs2, st', pc)"
    by (intro beside_callback [OF first _ body]) (simp_all add: ids_left_def same(1))
  with tree show ?thesis by blast
qed

lemma sample_joined_tree: "u_dir_tree sample_joined \<noteq> u_dir_tree (sample_master [conn_new])"
proof -
  let ?old = "root_children (sample_master [conn_new])" and ?new = "tn_children (setHostID 2 standby_tree)"
  have "sorted_names ?old" "set_find ''standby1_file1'' ?old = None"
    by (simp_all add: root_children_def sample_master_def sample_scan_def sample_defs UserFS_new_def sorted_names_def)
  moreover have "sorted_names ?new" "set_find ''standby1_file1'' ?new \<noteq> None"
    by (simp_all add: sample_defs sorted_names_def)
  moreover have "root_children sample_joined = merge_loop ?new ?old"
    by (auto simp: sample_joined_def root_children_def sample_master_def sample_scan_def UserFS_new_def)
  ultimately have "set_find ''standby1_file1'' (root_children sample_joined) \<noteq> set_find ''standby1_file1'' ?old"
    by (simp add: set_find_merge)
  then show ?thesis by (auto simp: root_children_def)
qed

theorem own_files_undisturbed_witness:
  "\<exists>fs' st' pc. beside tagged_archive b_elements (Getattr ''/b.txt'')
       (sample_master [conn_new], new_store (the (u_dir_tree (sample_master [conn_new]))), GetType 3) (fs', st', pc) \<and>
     u_dir_tree fs' = u_dir_tree sample_joined \<and> u_dir_tree fs' \<noteq> u_dir_tree (sample_master [conn_new]) \<and>
     pc = GetLinks 3 0x8124 \<and> fuse_step b_elements (Getattr ''/b.txt'') st' pc \<noteq> Inl UseAfterFree"
proof -
  let ?fs = "sample_master [conn_new]"
  let ?st = "new_store (the (u_dir_tree ?fs))" and ?call = "Getattr ''/b.txt''"
  have st: "tree_of ?st = u_dir_tree ?fs"
    by (simp add: new_store_ok sample_master_def sample_scan_def)
  have step: "fuse_step b_elements ?call ?st Lookup = Inr (GetType 3)" "fuse_step b_elements ?call ?st (GetType 3) = Inr (GetLinks 3 0x8124)"
    by (simp_all add: store_find_def new_store_def sample_master_def sample_scan_def b_elements_def sample_defs load_def alive_def)
  obtain fs' st' where run: "beside tagged_archive b_elements ?call (?fs, ?st, GetType 3) (fs', st', GetLinks 3 0x8124)"
    and tree: "u_dir_tree fs' = u_dir_tree sample_joined"
    using beside_joins [OF beside_access [OF beside_start step(2)] st] by blast
  have find: "UserFS_find b_elements (call_path ?call) ?fs = Inr (Some (TreeNode REGULAR 22 0 0 0 5 0 1 1 ''b.txt'' []))"
    by (simp add: UserFS_find_def DirTree_find_def sample_master_def sample_scan_def b_elements_def sample_defs)
  have "fuse_step b_elements ?call st' (GetLinks 3 0x8124) \<noteq> Inl UseAfterFree"
    using own_files_undisturbed [OF sample_master_inv new_store_ok(1) st find _ _ step(1) run] by simp
  with run tree sample_joined_tree show ?thesis
    by (intro exI [of _ fs'] exI [of _ st'] exI [of _ "GetLinks 3 0x8124"]) simp
qed

end
