(* ===== verification/Shared_Files.thy ===== *)
theory Shared_Files
  imports Network_Start
begin

section \<open>Where the files of the group come from\<close>

text \<open>
  The merged tree and the vector of hosts, followed over a whole run. Every entry of the tree of the
  master comes from the scan of one member, which the host id of the entry names, and is at the path
  at which this member has it; and the host at this id is the member's own host with the address from
  which it connected. When the network is at rest the same holds at the slaves, so that a read there
  reaches the member that shares the file, in its own shared directory.
\<close>

subsection \<open>Marked trees\<close>

definition marked :: "u64 \<Rightarrow> TreeNode \<Rightarrow> TreeNode" where
  "marked h n = setHostID h (with_host h n)"

lemma set_find_marked: "set_find k (map (marked h) cs) = map_option (marked h) (set_find k cs)"
  by (induction cs) (auto simp: marked_def)

lemma children_marked [simp]: "tn_children (marked h n) = map (marked h) (tn_children n)"
  by (simp add: marked_def)

lemma children_setHostID: "tn_children (setHostID h n) = map (marked h) (tn_children n)"
  by (simp add: marked_def)

lemma lookup_marked: "lookup_path (marked h n) ks = map_option (marked h) (lookup_path n ks)"
  by (induction n ks rule: lookup_path.induct) (auto simp: set_find_marked split: option.splits)

text \<open>A tree that belongs to a host already is not changed by marking.\<close>

lemma marked_owned: "owned_by h n \<Longrightarrow> marked h n = n"
proof (induction n)
  case (TreeNode ty sz ui gi ati mti cti hi nl nm cs)
  have "marked h c = c" if "c \<in> set cs" for c
    using TreeNode.IH [OF that] owned_by_child [OF TreeNode.prems] that by simp
  then have "map (\<lambda>c. setHostID h (with_host h c)) cs = cs" by (simp add: map_idI marked_def)
  moreover have "hi = h" using TreeNode.prems by (simp add: owned_by_def)
  ultimately show ?case by (simp add: marked_def with_host_TreeNode)
qed

subsection \<open>The invariant\<close>

definition slave_origin :: "UserFS \<Rightarrow> u64 \<Rightarrow> link \<Rightarrow> bool" where
  "slave_origin m i l \<longleftrightarrow> i \<noteq> 0 \<longrightarrow>
     Hosts_at (u_hosts m) i = Inr ((own_host (l_start l))\<lparr>h_address := l_addr l, h_id := i\<rparr>) \<and>
     (\<forall>c\<in>set (root_children m). tn_host_id c = i \<longrightarrow> c \<in> set (map (marked i) (tn_children (own_tree (l_start l)))))"

definition origin :: "UserFS \<Rightarrow> network \<Rightarrow> bool" where
  "origin m0 n \<longleftrightarrow>
     Hosts_at (u_hosts (n_master n)) 1 = Hosts_at (u_hosts m0) 1 \<and>
     (\<forall>c\<in>set (root_children (n_master n)). tn_host_id c = 1 \<longrightarrow> c \<in> set (root_children m0)) \<and>
     (\<forall>h<length (n_links n). slave_origin (n_master n) (mc_slave_id (conn_of (n_master n) h)) (n_links n ! h))"

lemma slave_origin_link: "l_start l' = l_start l \<Longrightarrow> l_addr l' = l_addr l \<Longrightarrow> slave_origin m i l' = slave_origin m i l"
  by (simp add: slave_origin_def)

lemma slave_origin_shrinks: "slave_origin m i l \<Longrightarrow> shrinks m m' \<Longrightarrow> slave_origin m' i l"
  by (auto simp: slave_origin_def shrinks_def)

lemma slave_origin_0 [simp]: "slave_origin m 0 l"
  by (simp add: slave_origin_def)

lemma origin_shrinks:
  assumes "origin m0 n" and "shrinks (n_master n) (n_master n')" and "length (n_links n') = length (n_links n)"
    and "\<And>k. k < length (n_links n) \<Longrightarrow> l_start (n_links n' ! k) = l_start (n_links n ! k) \<and> l_addr (n_links n' ! k) = l_addr (n_links n ! k)"
  shows "origin m0 n'"
proof -
  have "slave_origin (n_master n') (mc_slave_id (conn_of (n_master n') h)) (n_links n' ! h)" if h: "h < length (n_links n)" for h
  proof (cases "mc_slave_id (conn_of (n_master n') h) = 0")
    case False
    then have "mc_slave_id (conn_of (n_master n') h) = mc_slave_id (conn_of (n_master n) h)" using assms(2) by (auto simp: shrinks_def)
    moreover have "slave_origin (n_master n) (mc_slave_id (conn_of (n_master n) h)) (n_links n ! h)" using assms(1) h by (simp add: origin_def)
    ultimately show ?thesis
      using slave_origin_shrinks [OF _ assms(2)] slave_origin_link [of "n_links n' ! h" "n_links n ! h"] assms(4) [OF h] by simp
  qed simp
  moreover have "u_hosts (n_master n') = u_hosts (n_master n)" "set (root_children (n_master n')) \<subseteq> set (root_children (n_master n))"
    using assms(2) by (simp_all add: shrinks_def)
  ultimately show ?thesis using assms(1,3) unfolding origin_def by (metis subsetD)
qed

lemma shrinks_refl [simp]: "shrinks m m"
  by (simp add: shrinks_def)

subsection \<open>A join\<close>

lemma joined_children_old:
  assumes "u_dir_tree m' = u_dir_tree (joined remote t host h m)" and "c \<in> set (root_children m')" and "tn_host_id c \<noteq> u_max_host_id m"
  shows "c \<in> set (root_children m)"
  using assms children_setHostID_host [of c "u_max_host_id m" t] set_merge_loop
  by (cases "u_dir_tree m") (fastforce simp: root_children_def simp del: setHostID_sel)+

lemma joined_hosts_old:
  assumes "master_inv m" and "u_hosts m' = u_hosts (joined remote t host h m)" and "unat i < unat (u_max_host_id m)"
  shows "Hosts_at (u_hosts m') i = Hosts_at (u_hosts m) i"
proof -
  have "length (u_hosts m) = unat (u_max_host_id m)" using assms(1) by (simp add: master_inv_def hosts_inv_def)
  with assms(2,3) show ?thesis by (simp add: Hosts_at_def nth_append)
qed

lemma slave_origin_new:
  assumes "master_inv m" and "u_hosts m' = u_hosts (joined remote (own_tree (l_start l)) (own_host (l_start l)) h m)"
    and "u_dir_tree m' = u_dir_tree (joined remote (own_tree (l_start l)) (own_host (l_start l)) h m)" and "remote = l_addr l"
  shows "slave_origin m' (u_max_host_id m) l"
proof -
  obtain r where r: "u_dir_tree m = Some r" using master_inv_tree [OF assms(1)] by blast
  have inv: "tree_inv m" "conns_inv m" "hosts_inv m" using assms(1) by (simp_all add: master_inv_def)
  have "tn_host_id c \<noteq> u_max_host_id m" if "c \<in> set (tn_children r)" for c
    using tree_inv_host_bound [OF inv, of c] that r by (auto simp: root_children_def)
  then have "c \<in> set (map (marked (u_max_host_id m)) (tn_children (own_tree (l_start l))))"
    if "c \<in> set (root_children m')" "tn_host_id c = u_max_host_id m" for c
    using that r assms(3) set_merge_loop unfolding children_setHostID [symmetric]
    by (fastforce simp: root_children_def simp del: setHostID_sel)
  moreover have "length (u_hosts m) = unat (u_max_host_id m)" using inv(3) by (simp add: hosts_inv_def)
  ultimately show ?thesis using assms(2,4) by (simp add: slave_origin_def Hosts_at_def nth_append)
qed


lemma conn_id_bound:
  assumes "master_inv m" and "mc_slave_id (conn_of m h) \<noteq> 0"
  shows "h < length (conns m)" and "unat (mc_slave_id (conn_of m h)) < unat (u_max_host_id m)"
proof -
  show h: "h < length (conns m)" using assms(2) by (auto simp: conn_of_def accepted_conn_def conn_new_def split: if_splits)
  then have "mc_slave_id (conn_of m h) \<in> set (slave_ids m)" using assms(2) by (simp add: slave_ids_def conn_of_def)
  with assms(1) show "unat (mc_slave_id (conn_of m h)) < unat (u_max_host_id m)" by (simp add: master_inv_def conns_inv_def list_all_iff)
qed

lemma origin_join:
  assumes "origin m0 n" and "net_inv B n" and "master_enabled (BodyRead h False data remote) n"
    and "master_handle B (BodyRead h False data remote) (n_master n) = Inr m'"
    and "n' = (master_moves (BodyRead h False data remote) n)\<lparr>n_master := m'\<rparr>"
  shows "origin m0 n'"
proof -
  let ?m = "n_master n" and ?l = "n_links n ! h"
  obtain p b where remote: "remote = l_addr ?l" and fresh: "fresh_connection h ?m"
    and tree: "u_dir_tree m' = u_dir_tree (joined remote (own_tree (l_start ?l)) (own_host (l_start ?l)) h ?m)"
    and hosts: "u_hosts m' = u_hosts (joined remote (own_tree (l_start ?l)) (own_host (l_start ?l)) h ?m)"
    and conns: "conns m' = (conns ?m)[h := (conns ?m ! h)\<lparr>mc_packet := p, mc_slave_id := u_max_host_id ?m, mc_buffer := b, mc_read := ReadHeader\<rparr>]"
    by (rule net_join_effect [OF assms(2,3)]) (use assms(4) in auto)
  have h: "h < length (conns ?m)" using fresh by (simp add: fresh_connection_def)
  have inv: "master_inv ?m" using assms(2) by (simp add: net_inv_def)
  then have max: "2 \<le> unat (u_max_host_id ?m)" by (simp add: master_inv_def hosts_inv_def)
  have old: "slave_origin m' i l" if "slave_origin ?m i l" "unat i < unat (u_max_host_id ?m)" for i l
  proof -
    have "i \<noteq> u_max_host_id ?m" using that(2) by auto
    then have "c \<in> set (root_children ?m)" if "c \<in> set (root_children m')" "tn_host_id c = i" for c
      using joined_children_old [OF tree that(1)] that(2) by simp
    with that joined_hosts_old [OF inv hosts] show ?thesis by (auto simp: slave_origin_def)
  qed
  have "slave_origin m' (mc_slave_id (conn_of m' k)) (n_links n ! k)" if k: "k < length (n_links n)" for k
  proof (cases "k = h")
    case True
    with slave_origin_new [OF inv hosts tree remote] conn_of_update [OF conns h] show ?thesis by simp
  next
    case False
    then have c: "conn_of m' k = conn_of ?m k" using conn_of_update [OF conns h] by simp
    show ?thesis
    proof (cases "mc_slave_id (conn_of ?m k) = 0")
      case False
      with old conn_id_bound [OF inv False] assms(1) k c show ?thesis by (simp add: origin_def)
    qed (simp add: c)
  qed
  then have "slave_origin (n_master n') (mc_slave_id (conn_of (n_master n') k)) (n_links n' ! k)" if "k < length (n_links n)" for k
    using that master_moves_kept(2,3) [OF that] slave_origin_link [of "n_links n' ! k" "n_links n ! k"]
    by (simp add: assms(5) del: master_moves.simps)
  moreover have "Hosts_at (u_hosts m') 1 = Hosts_at (u_hosts ?m) 1" using joined_hosts_old [OF inv hosts, of 1] max by simp
  moreover have "c \<in> set (root_children m0)" if "c \<in> set (root_children m')" "tn_host_id c = 1" for c
  proof -
    have "u_max_host_id ?m \<noteq> 1" using max by auto
    with joined_children_old [OF tree that(1)] that(2) assms(1) show ?thesis by (auto simp: origin_def)
  qed
  ultimately show ?thesis using assms(1) by (simp add: origin_def assms(5) master_moves_kept del: master_moves.simps)
qed

subsection \<open>All events\<close>

lemma origin_step:
  assumes "origin m0 n" and "net_inv B n" and "net_enabled B ev n" and "net_handle B ev n = Inr n'"
  shows "origin m0 n'"
proof -
  have kept: "l_start (n_links n' ! k) = l_start (n_links n ! k) \<and> l_addr (n_links n' ! k) = l_addr (n_links n ! k)"
    if "k < length (n_links n)" for k
    using net_links_kept [OF assms(4) that] by simp
  show ?thesis
  proof (cases ev)
    case (SlaveArrives s addr)
    then obtain s' where n': "n' = n\<lparr>n_links := n_links n @ [link_new s addr s']\<rparr>" using assms(4) by (auto simp: res_bind_eq_Inr)
    have "mc_slave_id (conn_of (n_master n) (length (n_links n))) = 0"
      using assms(2) by (simp add: conn_of_def net_inv_def accepted_conn_def conn_new_def)
    with assms(1) show ?thesis by (auto simp: origin_def n' less_Suc_eq nth_append)
  next
    case (SlaveEvent h sev)
    then have "n_master n' = n_master n" "length (n_links n') = length (n_links n)" using assms(4) by (auto simp: res_bind_eq_Inr)
    then show ?thesis by (intro origin_shrinks [OF assms(1) _ _ kept]) simp_all
  next
    case (MasterEvent mev)
    then obtain m' where m': "master_handle B mev (n_master n) = Inr m'" "n' = (master_moves mev n)\<lparr>n_master := m'\<rparr>"
      and en: "master_enabled mev n"
      using assms(3,4) by (auto simp: res_bind_eq_Inr)
    show ?thesis
    proof (cases "\<exists>h data remote. mev = BodyRead h False data remote")
      case True
      then obtain h data remote where mev: "mev = BodyRead h False data remote" by blast
      from origin_join [OF assms(1,2) en [unfolded mev] m' [unfolded mev]] show ?thesis .
    next
      case False
      then have "shrinks (n_master n) m'" by (intro master_event_shrinks [OF assms(2) en m'(1)]) blast
      then show ?thesis by (intro origin_shrinks [OF assms(1) _ _ kept]) (simp_all add: m'(2) master_moves_kept)
    qed
  next
    case (UpTransmit h k)
    then have "n_master n' = n_master n" "length (n_links n') = length (n_links n)" using assms(4) by auto
    then show ?thesis by (intro origin_shrinks [OF assms(1) _ _ kept]) simp_all
  next
    case (DownTransmit h k)
    then have "n_master n' = n_master n" "length (n_links n') = length (n_links n)" using assms(4) by auto
    then show ?thesis by (intro origin_shrinks [OF assms(1) _ _ kept]) simp_all
  qed
qed

interpretation net_origin: event_system "net_enabled B" "net_handle B" "net_bounds B" "\<lambda>n. net_inv B n \<and> origin m0 n" for B m0
  by unfold_locales (use net_event_ok origin_step in fastforce)+

lemma origin_run:
  assumes "net_initial B n0" and "net_run B n0 n"
  shows "origin (n_master n0) n"
proof -
  have "net_inv B n0 \<and> origin (n_master n0) n0"
    using net_initial_inv [OF assms(1)] assms(1) by (simp add: origin_def net_initial_def)
  with net_origin.run_inv [OF assms(2)] show ?thesis by blast
qed


subsection \<open>Members and their entries\<close>

text \<open>
  The member with id \<open>i\<close>: the state \<open>s\<close> in which it started, and its host as the others see it. The
  master has id 1; the others are the slaves that are recognised now.
\<close>

definition member :: "network \<Rightarrow> network \<Rightarrow> u64 \<Rightarrow> UserFS \<Rightarrow> Host \<Rightarrow> bool" where
  "member n0 n i s host \<longleftrightarrow>
     i = 1 \<and> s = n_master n0 \<and> Hosts_at (u_hosts s) 1 = Inr host \<or>
     (\<exists>h. recognised h (n_master n) \<and> mc_slave_id (conns (n_master n) ! h) = i \<and> s = l_start (n_links n ! h) \<and>
        host = (own_host s)\<lparr>h_address := l_addr (n_links n ! h), h_id := i\<rparr>)"

definition entry_of :: "network \<Rightarrow> network \<Rightarrow> TreeNode \<Rightarrow> UserFS \<Rightarrow> Host \<Rightarrow> bool" where
  "entry_of n0 n c s host \<longleftrightarrow>
     member n0 n (tn_host_id c) s host \<and> Hosts_at (u_hosts (n_master n)) (tn_host_id c) = Inr host \<and>
     c \<in> set (map (marked (tn_host_id c)) (tn_children (own_tree s))) \<and> wf_tree (Some (own_tree s))"

lemma master_entry:
  assumes "net_initial B n0" and "origin (n_master n0) n" and "c \<in> set (root_children (n_master n))" and "tn_host_id c = 1"
  shows "\<exists>host. entry_of n0 n c (n_master n0) host"
proof -
  let ?m0 = "n_master n0"
  have inv: "master_inv ?m0" using assms(1) by (simp add: net_initial_def)
  obtain r where r: "u_dir_tree ?m0 = Some r" using master_inv_tree [OF inv] by blast
  have c: "c \<in> set (root_children ?m0)" and hosts: "Hosts_at (u_hosts (n_master n)) 1 = Hosts_at (u_hosts ?m0) 1"
    using assms(2-4) by (simp_all add: origin_def)
  have "owned_by 1 c" using uniform_owned [OF _ c] inv assms(4) by (simp add: master_inv_def tree_inv_def)
  then have "c \<in> set (map (marked 1) (tn_children r))" using c r by (force simp: root_children_def marked_owned)
  moreover have "Hosts_at (u_hosts ?m0) 1 = Inr (u_hosts ?m0 ! 1)" "wf_tree (Some r)"
    using inv r by (simp_all add: master_inv_def hosts_inv_def tree_inv_def Hosts_at_def)
  ultimately show ?thesis using r hosts assms(4) by (auto simp: entry_of_def member_def own_tree_def)
qed

lemma slave_entry:
  assumes "net_inv B n" and "origin (n_master n0) n" and "c \<in> set (root_children (n_master n))"
    and "h < length (conns (n_master n))" and "mc_slave_id (conns (n_master n) ! h) = tn_host_id c" and "tn_host_id c \<noteq> 0"
  shows "\<exists>host. entry_of n0 n c (l_start (n_links n ! h)) host"
proof -
  let ?m = "n_master n" and ?l = "n_links n ! h"
  have h: "h < length (n_links n)" "conn_of ?m h = conns ?m ! h" using assms(1,4) by (simp_all add: net_inv_def conn_of_def)
  then have o: "slave_origin ?m (tn_host_id c) ?l" using assms(2,5) by (auto simp: origin_def)
  have "slave_ready B (l_start ?l)" using link_invD(1) [OF net_inv_link [OF assms(1) h(1)]] by (simp add: node_inv_def)
  then have wf: "wf_tree (Some (own_tree (l_start ?l)))" by (auto simp: slave_ready_def own_tree_def wf_tree_def split: option.splits)
  have "recognised h ?m" using assms(4-6) by (simp add: recognised_def)
  then have "member n0 n (tn_host_id c) (l_start ?l) ((own_host (l_start ?l))\<lparr>h_address := l_addr ?l, h_id := tn_host_id c\<rparr>)"
    using assms(5) by (auto simp: member_def)
  with o wf assms(3,6) show ?thesis by (auto simp: entry_of_def slave_origin_def)
qed

lemma entry_member:
  assumes "net_initial B n0" and inv: "net_inv B n" and o: "origin (n_master n0) n" and c: "c \<in> set (root_children (n_master n))"
  shows "\<exists>s host. entry_of n0 n c s host"
proof -
  have "tn_host_id c = 1 \<or> tn_host_id c \<in> set (map mc_slave_id (conns (n_master n))) - {0}"
    using inv c by (auto simp: net_inv_def master_inv_def tree_inv_def list_all_iff)
  then consider "tn_host_id c = 1" | h where "h < length (conns (n_master n))" "mc_slave_id (conns (n_master n) ! h) = tn_host_id c" "tn_host_id c \<noteq> 0"
    by (auto simp: in_set_conv_nth)
  then show ?thesis
    using master_entry [OF assms(1) o c] slave_entry [OF inv o c] by cases blast+
qed

text \<open>The owner has the node at the same path.\<close>

lemma entry_lookup:
  assumes "entry_of n0 n c s host" and "tn_name c = k" and "lookup_path c ks = Some node"
  shows "\<exists>own. lookup_path (own_tree s) (k # ks) = Some own \<and> node = marked (tn_host_id c) own"
proof -
  obtain c0 where c0: "c0 \<in> set (tn_children (own_tree s))" "c = marked (tn_host_id c) c0" using assms(1) by (auto simp: entry_of_def)
  have "sorted_names (tn_children (own_tree s))" using assms(1) by (auto simp: entry_of_def wf_tree_def dest: wf_nodeD)
  moreover have "tn_name c0 = k" using c0(2) assms(2) by (metis marked_def setHostID_sel(1) with_host_sel(1))
  ultimately have find: "set_find k (tn_children (own_tree s)) = Some c0" using c0(1) by (simp add: set_find_iff)
  have "lookup_path (marked (tn_host_id c) c0) ks = Some node" using assms(3) c0(2) by simp
  then obtain own where "lookup_path c0 ks = Some own" "node = marked (tn_host_id c) own" by (auto simp: lookup_marked)
  with find show ?thesis by simp
qed

lemma found_entry:
  assumes "net_initial B n0" and inv: "net_inv B n" and o: "origin (n_master n0) n"
    and c: "set_find k (root_children (n_master n)) = Some c" and node: "lookup_path c ks = Some node"
  shows "\<exists>s host own. member n0 n (tn_host_id node) s host \<and> Hosts_at (u_hosts (n_master n)) (tn_host_id node) = Inr host \<and>
    lookup_path (own_tree s) (k # ks) = Some own \<and> node = marked (tn_host_id node) own"
proof -
  have in_c: "c \<in> set (root_children (n_master n))" "tn_name c = k" using set_find_Some [OF c] by simp_all
  have "uniform (root_children (n_master n))" using inv by (simp add: net_inv_def master_inv_def tree_inv_def)
  then have id: "tn_host_id node = tn_host_id c" by (rule lookup_owner [OF _ c node])
  obtain s host where e: "entry_of n0 n c s host" using entry_member [OF assms(1) inv o in_c(1)] by blast
  with entry_lookup [OF e in_c(2) node] id show ?thesis by (auto simp: entry_of_def)
qed


lemma distinct_filter_nth:
  assumes "distinct (filter P xs)" and "i < length xs" and "j < length xs" and "xs ! i = xs ! j" and "P (xs ! i)"
  shows "i = j"
  using assms
proof (induction xs arbitrary: i j)
  case (Cons x xs)
  then show ?case by (cases i; cases j) (auto split: if_splits)
qed simp

lemma member_self:
  assumes "net_inv B n" and "member n0 n i s host" and "recognised h (n_master n)" and "mc_slave_id (conns (n_master n) ! h) = i"
  shows "s = l_start (n_links n ! h)" and "h_working_dir host = u_working_dir s"
proof -
  let ?m = "n_master n"
  have inv: "distinct (slave_ids ?m)" "list_all (\<lambda>i. 2 \<le> unat i) (slave_ids ?m)"
    using assms(1) by (auto simp: net_inv_def master_inv_def conns_inv_def list_all_iff)
  have h: "h < length (conns ?m)" "i \<noteq> 0" using assms(3,4) by (auto simp: recognised_def)
  then have "i \<in> set (slave_ids ?m)" using assms(4) by (auto simp: slave_ids_def)
  then have "i \<noteq> 1" using inv(2) by (auto simp: list_all_iff)
  then obtain k where k: "k < length (conns ?m)" "mc_slave_id (conns ?m ! k) = i" "s = l_start (n_links n ! k)"
    and host: "host = (own_host s)\<lparr>h_address := l_addr (n_links n ! k), h_id := i\<rparr>"
    using assms(2) by (auto simp: member_def recognised_def)
  have "k = h" using distinct_filter_nth [OF inv(1) [unfolded slave_ids_def], of k h] k(1,2) h assms(4) by simp
  with k(3) show "s = l_start (n_links n ! h)" by simp
  have "slave_ready B s" using link_invD(1) [OF net_inv_conn_link(1) [OF assms(1) k(1)]] k(3) by (simp add: node_inv_def)
  then show "h_working_dir host = u_working_dir s" by (simp add: host slave_ready_def)
qed

subsection \<open>Properties\<close>

text \<open>
  \<^bold>\<open>C16\<close>. Whose files these are. In every state of a network and for every path that leads somewhere
  in the merged tree of the master: the host id of the node names a member, the master or a slave
  that is recognised now; this member's scan has at the same path the node with the same data, apart from the
  id; and the vector of hosts has at this id the member's own host, with the address from which it
  connected.
\<close>

theorem shared_files_origin:
  assumes "net_initial B n0" and "net_run B n0 n" and "u_dir_tree (n_master n) = Some r" and "lookup_path r (k # ks) = Some node"
  shows "\<exists>s host own. member n0 n (tn_host_id node) s host \<and> Hosts_at (u_hosts (n_master n)) (tn_host_id node) = Inr host \<and>
    lookup_path (own_tree s) (k # ks) = Some own \<and> node = marked (tn_host_id node) own"
proof -
  obtain c where "set_find k (root_children (n_master n)) = Some c" "lookup_path c ks = Some node"
    using assms(3,4) by (auto simp: root_children_def split: option.splits)
  then show ?thesis by (rule found_entry [OF assms(1) net_run_inv [OF assms(1,2)] origin_run [OF assms(1,2)]])
qed

theorem shared_files_origin_witness:
  "\<exists>r node s host own. u_dir_tree (n_master sample_arrived) = Some r \<and> lookup_path r [''a'', ''c.txt''] = Some node \<and>
    member sample_net sample_arrived (tn_host_id node) s host \<and> lookup_path (own_tree s) [''a'', ''c.txt''] = Some own"
proof -
  obtain r node where "u_dir_tree (n_master sample_arrived) = Some r" "lookup_path r [''a'', ''c.txt''] = Some node"
    by (simp add: sample_arrived_def sample_net_def sample_net_master_meta) (simp add: sample_master_def sample_scan_def sample_defs)
  with shared_files_origin [OF sample_net_initial sample_arrives this] show ?thesis by blast
qed

text \<open>
  A read reaches the member that shares the file. When the network is at rest, at a slave
  whose connection is open at both ends, and for every path that leads somewhere in its mounted tree:
  if the host id of the node is the slave's, the file is one that the slave itself has scanned at this
  path and it is read from the slave's own directory; otherwise it is read through the SSH session of
  the member that has it at this path, and where there is no such session yet, through a new one to the address
  from which the member connected and its SSH port; the path is that member's directory with the path appended.
\<close>

theorem read_reaches_owner:
  fixes n :: network and L :: "'w libssh"
  assumes "net_initial B n0" and "net_run B n0 n" and "net_at_rest B n" and "both_open h n"
    and "u_dir_tree (l_slave (n_links n ! h)) = Some r" and "lookup_path r (k # ks) = Some node"
  defines "s \<equiv> l_slave (n_links n ! h)" and "i \<equiv> tn_host_id node"
  shows "\<exists>s0 host own. member n0 n i s0 host \<and> lookup_path (own_tree s0) (k # ks) = Some own \<and> node = marked i own \<and>
    (if i = u_host_id s
     then s0 = l_start (n_links n ! h) \<and>
          (\<exists>sm. UserFS_read path_append files L i (CHR ''/'' # rel) offset cnt s w =
             Inr (ifstream_read (files (path_append (u_working_dir s) rel)) offset cnt, s\<lparr>u_ssh_manager := sm\<rparr>, w))
     else UserFS_read path_append files L i (CHR ''/'' # rel) offset cnt s w =
            res_bind (SSHSession_read L (path_append (h_working_dir host) rel) offset cnt
                (case u_ssh_manager s i of None \<Rightarrow> SSHSession_new (h_address host) (h_ssh_port host) | Some x \<Rightarrow> x) w)
              (\<lambda>(res, x, w'). Inr (res, s\<lparr>u_ssh_manager := (u_ssh_manager s)(i \<mapsto> x)\<rparr>, w')))"
proof -
  have inv: "net_inv B n" by (rule net_run_inv [OF assms(1,2)])
  have sync: "root_children s = root_children (n_master n)" "u_hosts s = u_hosts (n_master n)"
    and id: "u_host_id s = mc_slave_id (conns (n_master n) ! h)"
    using rest_agrees(2,3) [OF inv assms(3,4)] rest_known(2) [OF inv assms(3,4)] by (simp_all add: in_sync_def s_def)
  obtain c where c: "set_find k (root_children (n_master n)) = Some c" "lookup_path c ks = Some node"
    using assms(5,6) sync(1) by (auto simp: root_children_def s_def split: option.splits)
  obtain s0 host own where m: "member n0 n i s0 host" "Hosts_at (u_hosts s) i = Inr host"
    "lookup_path (own_tree s0) (k # ks) = Some own" "node = marked i own"
    using found_entry [OF assms(1) inv origin_run [OF assms(1,2)] c] unfolding i_def sync(2) by blast
  have h: "h < length (n_links n)" using assms(4) by (simp add: both_open_def)
  have own: "s0 = l_start (n_links n ! h)" "h_working_dir host = u_working_dir s" if "i = u_host_id s"
    using member_self [OF inv m(1) rest_known(1) [OF inv assms(3,4)]] that id
      link_invD(1) [OF net_inv_link [OF inv h]] by (simp_all add: node_inv_def s_def)
  have "if i = u_host_id s
     then s0 = l_start (n_links n ! h) \<and>
          (\<exists>sm. UserFS_read path_append files L i (CHR ''/'' # rel) offset cnt s w =
             Inr (ifstream_read (files (path_append (u_working_dir s) rel)) offset cnt, s\<lparr>u_ssh_manager := sm\<rparr>, w))
     else UserFS_read path_append files L i (CHR ''/'' # rel) offset cnt s w =
            res_bind (SSHSession_read L (path_append (h_working_dir host) rel) offset cnt
                (case u_ssh_manager s i of None \<Rightarrow> SSHSession_new (h_address host) (h_ssh_port host) | Some x \<Rightarrow> x) w)
              (\<lambda>(res, x, w'). Inr (res, s\<lparr>u_ssh_manager := (u_ssh_manager s)(i \<mapsto> x)\<rparr>, w'))"
  proof (cases "i = u_host_id s")
    case True
    then show ?thesis using own [OF True] UserFS_read_local [of s host path_append files L rel offset cnt w] m(2) by simp
  next
    case False
    from remote_read [OF m(2) False refl] False show ?thesis by simp
  qed
  with m(1,3,4) show ?thesis by blast
qed


lemma sample_merged_lookup:
  "\<exists>r. sample_merged = Some r \<and> lookup_path r [''b.txt''] = Some (TreeNode REGULAR 22 0 0 0 5 0 1 1 ''b.txt'' [])"
  by (simp add: sample_merged_def sample_master_def sample_scan_def merge_loop_def TreeNode_less_def sample_defs with_host_TreeNode
      UserFS_new_def)

theorem read_reaches_owner_witness:
  "\<exists>n r node s0 host own. net_run tagged_archive sample_net n \<and> net_at_rest tagged_archive n \<and> both_open 0 n \<and>
    u_dir_tree (l_slave (n_links n ! 0)) = Some r \<and> lookup_path r [''b.txt''] = Some node \<and>
    member sample_net n (tn_host_id node) s0 host \<and> lookup_path (own_tree s0) [''b.txt''] = Some own"
proof -
  obtain n where n: "net_run tagged_archive sample_net n" "net_at_rest tagged_archive n" "both_open 0 n"
    "u_dir_tree (n_master n) = sample_merged" by (rule sample_settles)
  have inv: "net_inv tagged_archive n" by (rule net_run_inv [OF sample_net_initial n(1)])
  have sync: "root_children (l_slave (n_links n ! 0)) = root_children (n_master n)"
    using rest_agrees(2) [OF inv n(2,3)] by (simp add: in_sync_def)
  have "0 < length (n_links n)" using n(3) by (simp add: both_open_def)
  then obtain r where r: "u_dir_tree (l_slave (n_links n ! 0)) = Some r"
    using link_invD(1) [OF net_inv_link [OF inv]] by (auto simp: node_inv_def)
  obtain rm node where "sample_merged = Some rm" "lookup_path rm [''b.txt''] = Some node" using sample_merged_lookup by blast
  moreover from this(1) n(4) have "u_dir_tree (n_master n) = Some rm" by simp
  then have "tn_children r = tn_children rm" using sync r by (simp add: root_children_def)
  ultimately have node: "lookup_path r [''b.txt''] = Some node" by simp
  from read_reaches_owner [OF sample_net_initial n(1-3) r node, where L = tracking_libssh and rel = "''b.txt''"] r node n(1-3)
  show ?thesis by blast
qed

end
