(* ===== verification/Group_Spec.thy ===== *)
theory Group_Spec
  imports Shared_Files
begin

section \<open>What the group promises: an abstract specification\<close>

text \<open>
  The group without trees, messages and connections: which ids are members, which top-level entries
  each member contributes, and the hosts. A member joins under the next unused id and contributes its
  entries, marked with the id, except those whose names somebody contributes already; a member
  leaves with everything it contributes. Theory \<open>Network_Refinement\<close> shows that a network implements this
  specification.
\<close>

subsection \<open>Definitions\<close>

record group_spec =
  gs_members :: "u64 set"
  gs_files :: "u64 \<Rightarrow> TreeNode set"
  gs_hosts :: Hosts

definition gs_view :: "group_spec \<Rightarrow> TreeNode set" where
  "gs_view g = (\<Union>i\<in>gs_members g. gs_files g i)"

definition spec_join :: "string \<Rightarrow> TreeNode list \<Rightarrow> Host \<Rightarrow> group_spec \<Rightarrow> group_spec" where
  "spec_join remote entries host g =
     (let i = of_nat (length (gs_hosts g))
      in g\<lparr>gs_members := insert i (gs_members g),
           gs_files := (gs_files g)(i := marked i ` {c \<in> set entries. tn_name c \<notin> tn_name ` gs_view g}),
           gs_hosts := gs_hosts g @ [host\<lparr>h_address := remote, h_id := i\<rparr>]\<rparr>)"

definition spec_leave :: "u64 \<Rightarrow> group_spec \<Rightarrow> group_spec" where
  "spec_leave i g = g\<lparr>gs_members := gs_members g - {i}, gs_files := (gs_files g)(i := {})\<rparr>"

inductive spec_step :: "group_spec \<Rightarrow> group_spec \<Rightarrow> bool" where
  join: "sorted_names entries \<Longrightarrow> length (gs_hosts g) < 2 ^ 48 \<Longrightarrow> spec_step g (spec_join remote entries host g)"
| leave: "i \<in> gs_members g \<Longrightarrow> i \<noteq> 1 \<Longrightarrow> spec_step g (spec_leave i g)"

inductive_cases spec_stepE: "spec_step g g'"

text \<open>
  The ids of members have been handed out; the entries a member contributes carry its id; no two
  contributed entries have the same name.
\<close>

definition spec_inv :: "group_spec \<Rightarrow> bool" where
  "spec_inv g \<longleftrightarrow>
     1 \<in> gs_members g \<and> (\<forall>i\<in>gs_members g. unat i < length (gs_hosts g)) \<and>
     (\<forall>i. i \<notin> gs_members g \<longrightarrow> gs_files g i = {}) \<and>
     (\<forall>i. \<forall>c\<in>gs_files g i. tn_host_id c = i) \<and> inj_on tn_name (gs_view g)"

subsection \<open>Laws\<close>

lemma marked_sel [simp]: "tn_name (marked i c) = tn_name c" "tn_host_id (marked i c) = i"
  by (simp_all add: marked_def)

lemma spec_join_sel:
  fixes g :: group_spec
  defines "i \<equiv> of_nat (length (gs_hosts g))"
  shows "gs_members (spec_join remote entries host g) = insert i (gs_members g)"
    and "gs_files (spec_join remote entries host g) =
      (gs_files g)(i := marked i ` {c \<in> set entries. tn_name c \<notin> tn_name ` gs_view g})"
    and "gs_hosts (spec_join remote entries host g) = gs_hosts g @ [host\<lparr>h_address := remote, h_id := i\<rparr>]"
  by (simp_all add: spec_join_def i_def Let_def)

lemma spec_leave_sel [simp]:
  "gs_members (spec_leave i g) = gs_members g - {i}" "gs_files (spec_leave i g) = (gs_files g)(i := {})"
  "gs_hosts (spec_leave i g) = gs_hosts g"
  by (simp_all add: spec_leave_def)

lemma spec_next_new:
  assumes "spec_inv g" and "length (gs_hosts g) < 2 ^ 48"
  shows "of_nat (length (gs_hosts g)) \<notin> gs_members g" and "unat (of_nat (length (gs_hosts g)) :: u64) = length (gs_hosts g)"
proof -
  show eq: "unat (of_nat (length (gs_hosts g)) :: u64) = length (gs_hosts g)" using assms(2) by (simp add: unat_of_nat_small)
  with assms(1) show "of_nat (length (gs_hosts g)) \<notin> gs_members g" by (auto simp: spec_inv_def)
qed

lemma gs_view_join:
  assumes "spec_inv g" and "length (gs_hosts g) < 2 ^ 48"
  shows "gs_view (spec_join remote entries host g) =
    gs_view g \<union> marked (of_nat (length (gs_hosts g))) ` {c \<in> set entries. tn_name c \<notin> tn_name ` gs_view g}"
  using spec_next_new(1) [OF assms] by (auto simp: gs_view_def spec_join_sel)

lemma sorted_names_inj: "sorted_names cs \<Longrightarrow> inj_on tn_name (set cs)"
  unfolding inj_on_def using set_find_iff by (metis option.inject)

lemma spec_step_inv [inv_intros]:
  assumes "spec_step g g'" and "spec_inv g"
  shows "spec_inv g'"
  using assms(1)
proof (cases rule: spec_step.cases)
  case (join entries remote host)
  let ?i = "of_nat (length (gs_hosts g)) :: u64"
  note new = spec_next_new [OF assms(2) join(3)]
  let ?E = "{c \<in> set entries. tn_name c \<notin> tn_name ` gs_view g}"
  have "inj_on tn_name ?E" by (rule inj_on_subset [OF sorted_names_inj [OF join(2)]]) auto
  then have "inj_on tn_name (marked ?i ` ?E)" by (auto simp: inj_on_def)
  moreover have "tn_name ` gs_view g \<inter> tn_name ` (marked ?i ` ?E) = {}" by (auto simp: image_iff)
  moreover have "inj_on tn_name (gs_view g)" using assms(2) by (simp add: spec_inv_def)
  ultimately have "inj_on tn_name (gs_view g \<union> marked ?i ` ?E)" unfolding inj_on_Un by blast
  then have "inj_on tn_name (gs_view g')" by (simp add: join(1) gs_view_join [OF assms(2) join(3)])
  moreover have "\<forall>k\<in>gs_members g'. unat k < length (gs_hosts g')"
    using assms(2) new(2) by (auto simp: join(1) spec_inv_def spec_join_sel less_SucI)
  moreover have "\<forall>k. \<forall>c\<in>gs_files g' k. tn_host_id c = k"
    using assms(2) by (auto simp: join(1) spec_inv_def spec_join_sel)
  ultimately show ?thesis using assms(2) by (simp add: join(1) spec_inv_def spec_join_sel)
next
  case (leave i)
  have "gs_view (spec_leave i g) \<subseteq> gs_view g" by (auto simp: gs_view_def)
  with assms(2) have "inj_on tn_name (gs_view (spec_leave i g))" by (auto simp: spec_inv_def intro: inj_on_subset)
  with assms(2) leave show ?thesis by (auto simp: spec_inv_def)
qed

lemma spec_run_inv: "spec_step\<^sup>*\<^sup>* g g' \<Longrightarrow> spec_inv g \<Longrightarrow> spec_inv g'"
  by (induction rule: rtranclp_induct) (auto intro: spec_step_inv)

text \<open>A member that stays keeps what it contributes; an id is never used again.\<close>

lemma spec_step_files:
  assumes "spec_step g g'" and "spec_inv g" and "unat i < length (gs_hosts g)"
  shows "length (gs_hosts g) \<le> length (gs_hosts g') \<and> (i \<in> gs_members g' \<longrightarrow> i \<in> gs_members g \<and> gs_files g' i = gs_files g i)"
  using assms(1)
proof (cases rule: spec_step.cases)
  case (join entries remote host)
  have "i \<noteq> of_nat (length (gs_hosts g))" using spec_next_new(2) [OF assms(2) join(3)] assms(3) by auto
  then show ?thesis by (simp add: join(1) spec_join_sel)
qed simp

lemma spec_run_files:
  assumes "spec_step\<^sup>*\<^sup>* g g'" and "spec_inv g" and "unat i < length (gs_hosts g)" and "i \<in> gs_members g'"
  shows "gs_files g' i = gs_files g i"
proof -
  have "unat i < length (gs_hosts g') \<and> (i \<in> gs_members g' \<longrightarrow> gs_files g' i = gs_files g i)"
    using assms(1)
  proof (induction rule: rtranclp_induct)
    case base
    show ?case using assms(3) by simp
  next
    case (step g1 g2)
    have inv: "spec_inv g1" by (rule spec_run_inv [OF step(1) assms(2)])
    from spec_step_files [OF step(2) inv, of i] step(3) show ?case by auto
  qed
  with assms(4) show ?thesis by blast
qed

end
