(* ===== verification/Network_Refinement.thy ===== *)
theory Network_Refinement
  imports Group_Spec
begin

section \<open>A network implements the specification of the group\<close>

text \<open>
  The abstraction of a network is read off its master: the ids of its connections, the children of its
  root by host id, its hosts. Every event of a network is a step of the specification or invisible. What is then shown of the
  specification holds of the network: what a slave contributes is visible as long as it stays.
\<close>

subsection \<open>The abstraction\<close>

definition group_of :: "UserFS \<Rightarrow> group_spec" where
  "group_of m =
     \<lparr>gs_members = insert 1 (set (slave_ids m)),
      gs_files = (\<lambda>i. {c \<in> set (root_children m). tn_host_id c = i}), gs_hosts = u_hosts m\<rparr>"

lemma group_of_sel [simp]:
  "gs_members (group_of m) = insert 1 (set (slave_ids m))"
  "gs_files (group_of m) = (\<lambda>i. {c \<in> set (root_children m). tn_host_id c = i})" "gs_hosts (group_of m) = u_hosts m"
  by (simp_all add: group_of_def)

lemma slave_id_iff: "i \<in> set (slave_ids m) \<longleftrightarrow> i \<noteq> 0 \<and> (\<exists>h. mc_slave_id (conn_of m h) = i)"
proof -
  have "mc_slave_id (conn_of m h) = 0" if "\<not> h < length (conns m)" for h
    using that by (simp add: conn_of_def accepted_conn_def conn_new_def)
  then show ?thesis by (fastforce simp: slave_ids_def in_set_conv_nth conn_of_def)
qed

lemma group_view_of: "master_inv m \<Longrightarrow> gs_view (group_of m) = set (root_children m)"
  by (auto simp: gs_view_def master_inv_def tree_inv_def list_all_iff slave_ids_def)

lemma group_of_inv: "master_inv m \<Longrightarrow> spec_inv (group_of m)"
proof -
  assume inv: "master_inv m"
  have "sorted_names (root_children m)"
    using inv by (auto simp: master_inv_def tree_inv_def wf_tree_def root_children_def split: option.splits dest: wf_nodeD)
  then have "inj_on tn_name (gs_view (group_of m))" by (simp add: group_view_of [OF inv] sorted_names_inj)
  moreover have "\<forall>i\<in>insert 1 (set (slave_ids m)). unat i < length (u_hosts m)"
    using inv by (auto simp: master_inv_def conns_inv_def hosts_inv_def list_all_iff)
  moreover have "\<forall>c\<in>set (root_children m). tn_host_id c \<in> insert 1 (set (slave_ids m))"
    using inv by (auto simp: master_inv_def tree_inv_def list_all_iff slave_ids_def)
  ultimately show ?thesis by (auto simp: spec_inv_def)
qed

subsection \<open>Events that do not show\<close>

lemma quiet_group:
  assumes "quiet m m'"
  shows "group_of m' = group_of m"
proof -
  have "set (slave_ids m') = set (slave_ids m)" using assms by (auto simp: slave_id_iff quiet_def)
  with assms show ?thesis by (simp add: group_of_def quiet_def root_children_def)
qed

subsection \<open>A member leaves\<close>

text \<open>Another connection has another id.\<close>

lemma other_conn_id:
  assumes "master_inv m" and "h < length (conns m)" and "k \<noteq> h" and "mc_slave_id (conn_of m k) \<noteq> 0"
  shows "mc_slave_id (conn_of m k) \<noteq> mc_slave_id (conns m ! h)"
proof
  assume eq: "mc_slave_id (conn_of m k) = mc_slave_id (conns m ! h)"
  have "k < length (conns m)" by (rule conn_id_bound [OF assms(1,4)])
  with distinct_filter_nth [of "\<lambda>i. i \<noteq> 0" "map mc_slave_id (conns m)" k h] assms eq show False
    by (simp add: master_inv_def conns_inv_def slave_ids_def conn_of_def)
qed

lemma close_tree:
  assumes "master_inv m" and "h < length (conns m)" and "TCPMasterMessager_close B h m = Inr m'"
  shows "root_children m' = filter (\<lambda>c. tn_host_id c \<noteq> mc_slave_id (conns m ! h)) (root_children m)"
proof -
  obtain r where r: "u_dir_tree m = Some r" using master_inv_tree [OF assms(1)] by blast
  have role: "master_role m" and inv: "tree_inv m" "conns_inv m" using assms(1) by (simp_all add: master_inv_def)
  have nz: "filter (\<lambda>c. tn_host_id c \<noteq> 0) (root_children m) = root_children m"
    using tree_inv_host_nonzero [OF inv(1)] by (simp add: filter_id_conv)
  show ?thesis
  proof (cases "mc_open (conns m ! h)")
    case False
    then have "mc_slave_id (conns m ! h) = 0" using inv(2) assms(2) by (auto simp: conns_inv_def list_all_iff)
    with close_closed [OF role assms(2) False] assms(3) nz show ?thesis by simp
  next
    case True
    then have "same_but_posted (left h m) m'" using close_implements_left [OF role r assms(2) True, of B] assms(3) by auto
    then have "root_children m' = filter (\<lambda>c. mc_slave_id (conns m ! h) = 0 \<or> tn_host_id c \<noteq> mc_slave_id (conns m ! h)) (root_children m)"
      using left_tree [OF r, of h] by (simp add: same_but_posted_def root_children_def r)
    with nz show ?thesis by (cases "mc_slave_id (conns m ! h) = 0") simp_all
  qed
qed

lemma close_group:
  assumes "master_inv m" and "h < length (conns m)" and "TCPMasterMessager_close B h m = Inr m'"
  shows "group_of m' = group_of m \<or> spec_step (group_of m) (group_of m')"
proof -
  let ?i = "mc_slave_id (conns m ! h)"
  obtain c where c: "conns m' = (conns m)[h := c]" "mc_slave_id c = 0" "u_hosts m' = u_hosts m"
    by (rule close_effect [OF assms(1,2), of B]) (use assms(3) in auto)
  have inv: "conns_inv m" "tree_inv m" using assms(1) by (simp_all add: master_inv_def)
  have ids: "set (slave_ids m') = set (slave_ids m) - {?i}"
  proof -
    have "conn_of m h = conns m ! h" using assms(2) by (simp add: conn_of_def)
    with other_conn_id [OF assms(1,2)] c(2) show ?thesis
      unfolding set_eq_iff Diff_iff slave_id_iff conn_of_update [OF c(1) assms(2)] by (auto split: if_splits) metis
  qed
  note tree = close_tree [OF assms]
  show ?thesis
  proof (cases "?i = 0")
    case True
    have "root_children m' = root_children m"
      using tree tree_inv_host_nonzero [OF inv(2)] True by (simp add: filter_id_conv)
    moreover have "set (slave_ids m') = set (slave_ids m)" using ids True by (auto simp: slave_id_iff)
    ultimately show ?thesis using c(3) by (simp add: group_of_def)
  next
    case False
    then have i: "?i \<in> set (slave_ids m)" using assms(2) by (simp add: slave_ids_def)
    then have 1: "?i \<noteq> 1" using inv(1) by (auto simp: conns_inv_def list_all_iff)
    moreover have "{c \<in> set (root_children m'). tn_host_id c = k} = (if k = ?i then {} else {c \<in> set (root_children m). tn_host_id c = k})" for k
      unfolding tree by auto
    with 1 ids c(3) have "group_of m' = spec_leave ?i (group_of m)"
      by (simp add: group_of_def spec_leave_def fun_eq_iff insert_Diff_if)
    ultimately show ?thesis using i spec_step.leave [of ?i "group_of m"] by simp
  qed
qed

subsection \<open>A member joins\<close>

lemma set_merge_exact:
  assumes "sorted_names cs" and "sorted_names ns"
  shows "set (merge_loop ns cs) = set cs \<union> {c \<in> set ns. tn_name c \<notin> tn_name ` set cs}"
proof -
  have "sorted_names (merge_loop ns cs)" using assms(1) by (rule sorted_names_merge)
  then have "c \<in> set (merge_loop ns cs) \<longleftrightarrow> c \<in> set cs \<or> c \<in> set ns \<and> tn_name c \<notin> tn_name ` set cs" for c
    using set_find_iff [of "merge_loop ns cs" "tn_name c" c] set_find_merge [OF assms, of "tn_name c"]
      set_find_iff [OF assms(1), of "tn_name c"] set_find_iff [OF assms(2), of "tn_name c"] set_find_ne_None [OF assms(1), of "tn_name c"]
    by (cases "set_find (tn_name c) cs") (auto simp: image_iff)
  then show ?thesis by blast
qed

lemma joined_contribution:
  assumes "master_inv m" and "wf_node t" and "u_dir_tree m' = u_dir_tree (joined remote t host h m)"
  shows "set (root_children m') = set (root_children m) \<union> marked (u_max_host_id m) ` {c \<in> set (tn_children t). tn_name c \<notin> tn_name ` set (root_children m)}"
proof -
  obtain r where r: "u_dir_tree m = Some r" "wf_node r"
    using assms(1) by (auto simp: master_inv_def tree_inv_def wf_tree_def split: option.splits)
  have "root_children m' = merge_loop (map (marked (u_max_host_id m)) (tn_children t)) (root_children m)"
    using assms(3) r(1) by (simp add: root_children_def children_setHostID del: setHostID_sel)
  moreover have "sorted_names (map (marked (u_max_host_id m)) (tn_children t))" using wf_nodeD(1) [OF assms(2)] by (simp add: sorted_names_map)
  moreover have "sorted_names (root_children m)" using r wf_nodeD(1) by (simp add: root_children_def)
  ultimately show ?thesis by (auto simp: set_merge_exact)
qed

lemma join_group:
  assumes "master_inv m" and "fresh_connection h m" and "wf_node t" and "unat (u_max_host_id m) < 2 ^ 48"
    and "u_dir_tree m' = u_dir_tree (joined remote t host h m)" and "u_hosts m' = u_hosts (joined remote t host h m)"
    and "conns m' = (conns m)[h := c]" and "mc_slave_id c = u_max_host_id m"
  shows "group_of m' = spec_join remote (tn_children t) host (group_of m)" and "spec_step (group_of m) (group_of m')"
proof -
  let ?i = "u_max_host_id m"
  have inv: "tree_inv m" "conns_inv m" "hosts_inv m" using assms(1) by (simp_all add: master_inv_def)
  have h: "h < length (conns m)" "mc_slave_id (conn_of m h) = 0" using assms(2) by (simp_all add: fresh_connection_def conn_of_def)
  have i: "of_nat (length (u_hosts m)) = ?i" "?i \<noteq> 0" using inv(3) next_id_fresh(2) [OF inv(2,3)] by (simp_all add: hosts_inv_def)
  have old: "tn_host_id c \<noteq> ?i" if "c \<in> set (root_children m)" for c
    using tree_inv_host_bound [OF inv(1,2,3) that] by auto
  have ids: "set (slave_ids m') = insert ?i (set (slave_ids m))"
    using h i(2) assms(8) unfolding set_eq_iff insert_iff slave_id_iff conn_of_update [OF assms(7) h(1)] by (auto split: if_splits)
  have files: "{c \<in> set (root_children m'). tn_host_id c = k} =
      (if k = ?i then marked ?i ` {c \<in> set (tn_children t). tn_name c \<notin> tn_name ` set (root_children m)}
       else {c \<in> set (root_children m). tn_host_id c = k})" for k
    using old unfolding joined_contribution [OF assms(1,3,5)] by auto
  show eq: "group_of m' = spec_join remote (tn_children t) host (group_of m)"
    using ids assms(6) group_view_of [OF assms(1)] i(1) files
    by (simp add: group_of_def spec_join_def Let_def fun_eq_iff insert_commute)
  have "length (gs_hosts (group_of m)) < 2 ^ 48" using inv(3) assms(4) by (simp add: hosts_inv_def)
  then show "spec_step (group_of m) (group_of m')" unfolding eq by (rule spec_step.join [OF wf_nodeD(1) [OF assms(3)]])
qed

subsection \<open>All events\<close>

text \<open>
  What an event does to the master: nothing that shows, the end of a connection, or a join.
\<close>

lemma net_event_cases:
  assumes "net_inv B n" and "net_enabled B ev n" and "net_handle B ev n = Inr n'"
  obtains (quiet) "quiet (n_master n) (n_master n')"
  | (closed) h m1 where "quiet (n_master n) m1" and "master_inv m1" and "h < length (conns m1)"
      and "TCPMasterMessager_close B h m1 = Inr (n_master n')"
  | (joined) h c where "fresh_connection h (n_master n)" and "h < length (n_links n)" and "wf_node (own_tree (l_start (n_links n ! h)))"
      and "u_dir_tree (n_master n') = u_dir_tree (joined (l_addr (n_links n ! h)) (own_tree (l_start (n_links n ! h)))
        (own_host (l_start (n_links n ! h))) h (n_master n))"
      and "u_hosts (n_master n') = u_hosts (joined (l_addr (n_links n ! h)) (own_tree (l_start (n_links n ! h)))
        (own_host (l_start (n_links n ! h))) h (n_master n))"
      and "conns (n_master n') = (conns (n_master n))[h := c]" and "mc_slave_id c = u_max_host_id (n_master n)"
proof (cases "\<exists>mev. ev = MasterEvent mev")
  case False
  with assms(3) have "n_master n' = n_master n" by (cases ev) (auto simp: res_bind_eq_Inr)
  then show thesis by (intro quiet) (simp add: quiet_def)
next
  case True
  then obtain mev where mev: "ev = MasterEvent mev" by blast
  with assms(2,3) have en: "master_enabled mev n" and m': "master_handle B mev (n_master n) = Inr (n_master n')"
    by (auto simp: res_bind_eq_Inr)
  have inv: "master_inv (n_master n)" using assms(1) by (simp add: net_inv_def)
  show thesis
  proof (cases "\<exists>h data remote. mev = BodyRead h False data remote")
    case True
    then obtain h data remote where j: "mev = BodyRead h False data remote" by blast
    have h: "h < length (conns (n_master n))" using en j by simp
    then have "h < length (n_links n)" using assms(1) by (simp add: net_inv_def)
    moreover have "slave_ready B (l_start (n_links n ! h))"
      using link_invD(1) [OF net_inv_conn_link(1) [OF assms(1) h]] by (simp add: node_inv_def)
    then have "wf_node (own_tree (l_start (n_links n ! h)))" by (auto simp: slave_ready_def own_tree_def wf_tree_def split: option.splits)
    ultimately show thesis
      by (rule_tac net_join_effect [OF assms(1) en [unfolded j]], rule_tac joined) (use m' j in auto)
  next
    case no_join: False
    show thesis
    proof (cases "master_internal mev \<or> (\<exists>ec. mev = Accepted ec)")
      case True
      with no_join show thesis by (intro quiet master_event_quiet [OF assms(1) en m']) blast+
    next
      case False
      obtain h c where h: "h < length (conns (n_master n))" and c: "mc_open c = mc_open (conns (n_master n) ! h)"
        "mc_slave_id c = mc_slave_id (conns (n_master n) ! h)" and close: "TCPMasterMessager_close B h (set_conn h c (n_master n)) = Inr (n_master n')"
        by (rule master_error_closes [OF assms(1) en m' False])
      have "master_inv (set_conn h c (n_master n))" using inv c by (intro set_conn_keeps_inv)
      with close h show thesis by (intro closed [OF quiet_set_conn [OF h c]]) simp_all
    qed
  qed
qed

lemma net_event_group:
  assumes "net_inv B n" and "net_enabled B ev n" and "net_handle B ev n = Inr n'"
  shows "group_of (n_master n') = group_of (n_master n) \<or> spec_step (group_of (n_master n)) (group_of (n_master n'))"
  using assms
proof (cases rule: net_event_cases)
  case quiet
  then show ?thesis by (simp add: quiet_group)
next
  case (closed h m1)
  from close_group [OF closed(2-4)] quiet_group [OF closed(1)] show ?thesis by simp
next
  case (joined h c)
  have "master_inv (n_master n)" "unat (u_max_host_id (n_master n)) < 2 ^ 48"
    using assms(1) by (simp_all add: net_inv_def net_bounds_def fits_def)
  from join_group(2) [OF this(1) joined(1,3) this(2) joined(4-7)] show ?thesis ..
qed

interpretation net_spec: simulating_system "net_enabled B" "net_handle B" "net_bounds B" "net_inv B"
    "\<lambda>n. group_of (n_master n)" spec_step for B
  by unfold_locales (rule net_event_group)

subsection \<open>What a member contributes stays\<close>

text \<open>
  A name clashes when the master or another slave shares an entry with it, whether this slave is
  recognised or not. Entries of a recognised slave whose names do not clash are all in the tree; so are those of the master.
\<close>

definition unclashed :: "network \<Rightarrow> network \<Rightarrow> nat \<Rightarrow> string \<Rightarrow> bool" where
  "unclashed n0 n h k \<longleftrightarrow>
     k \<notin> tn_name ` set (root_children (n_master n0)) \<and>
     (\<forall>g<length (n_links n). g \<noteq> h \<longrightarrow> k \<notin> tn_name ` set (tn_children (own_tree (l_start (n_links n ! g)))))"

definition contributes :: "network \<Rightarrow> network \<Rightarrow> bool" where
  "contributes n0 n \<longleftrightarrow>
     set (root_children (n_master n0)) \<subseteq> set (root_children (n_master n)) \<and>
     (\<forall>h<length (n_links n). let i = mc_slave_id (conn_of (n_master n) h) in i \<noteq> 0 \<longrightarrow>
        (\<forall>c\<in>set (tn_children (own_tree (l_start (n_links n ! h)))). unclashed n0 n h (tn_name c) \<longrightarrow>
           marked i c \<in> set (root_children (n_master n))))"

lemma unclashed_earlier:
  assumes "net_handle B ev n = Inr n'" and "unclashed n0 n' h k"
  shows "unclashed n0 n h k"
  unfolding unclashed_def
proof (intro conjI allI impI)
  fix g assume g: "g < length (n_links n)" "g \<noteq> h"
  then have "g < length (n_links n')" using net_links_kept(3) [OF assms(1) g(1)] by simp
  with net_links_kept(1) [OF assms(1) g(1)] assms(2) g(2) show "k \<notin> tn_name ` set (tn_children (own_tree (l_start (n_links n ! g))))"
    unfolding unclashed_def by metis
qed (use assms(2) in \<open>simp add: unclashed_def\<close>)

lemma closed_contribution:
  assumes "master_inv m" and "h < length (conns m)" and "TCPMasterMessager_close B h m = Inr m'"
  shows "c \<in> set (root_children m) \<Longrightarrow> tn_host_id c = 1 \<Longrightarrow> c \<in> set (root_children m')"
    and "mc_slave_id (conn_of m' k) \<noteq> 0 \<Longrightarrow> mc_slave_id (conn_of m' k) = mc_slave_id (conn_of m k)"
    and "mc_slave_id (conn_of m' k) \<noteq> 0 \<Longrightarrow> c \<in> set (root_children m) \<Longrightarrow> tn_host_id c = mc_slave_id (conn_of m' k) \<Longrightarrow> c \<in> set (root_children m')"
proof -
  let ?i = "mc_slave_id (conns m ! h)"
  note tree = close_tree [OF assms]
  have "?i \<noteq> 1"
  proof
    assume "?i = 1"
    then have "1 \<in> set (slave_ids m)" using assms(2) by (force simp: slave_ids_def)
    with assms(1) show False by (auto simp: master_inv_def conns_inv_def list_all_iff)
  qed
  then show "c \<in> set (root_children m) \<Longrightarrow> tn_host_id c = 1 \<Longrightarrow> c \<in> set (root_children m')" unfolding tree by auto
  obtain d where d: "conns m' = (conns m)[h := d]" "mc_slave_id d = 0"
    by (rule close_effect [OF assms(1,2), of B]) (use assms(3) in auto)
  note upd = conn_of_update [OF d(1) assms(2)]
  show eq: "mc_slave_id (conn_of m' k) = mc_slave_id (conn_of m k)" if "mc_slave_id (conn_of m' k) \<noteq> 0"
    using that upd d(2) by (simp split: if_splits)
  show "c \<in> set (root_children m')"
    if "mc_slave_id (conn_of m' k) \<noteq> 0" "c \<in> set (root_children m)" "tn_host_id c = mc_slave_id (conn_of m' k)"
  proof -
    have "k \<noteq> h" using that(1) upd d(2) by auto
    with other_conn_id [OF assms(1,2), of k] eq [OF that(1)] that show ?thesis unfolding tree by simp
  qed
qed

lemma conn_id_link:
  assumes "net_inv B n" and "mc_slave_id (conn_of (n_master n) h) \<noteq> 0"
  shows "h < length (n_links n)"
proof -
  have "master_inv (n_master n)" "length (conns (n_master n)) \<le> length (n_links n)" using assms(1) by (simp_all add: net_inv_def)
  with conn_id_bound(1) [OF this(1) assms(2)] show ?thesis by simp
qed

lemma origin_names:
  assumes "origin (n_master n0) n" and "net_inv B n" and "unclashed n0 n h k" and "mc_slave_id (conn_of (n_master n) h) = 0"
  shows "k \<notin> tn_name ` set (root_children (n_master n))"
proof
  assume "k \<in> tn_name ` set (root_children (n_master n))"
  then obtain c where c: "c \<in> set (root_children (n_master n))" "tn_name c = k" by blast
  have "tn_host_id c = 1 \<or> tn_host_id c \<in> set (slave_ids (n_master n))"
    using assms(2) c(1) by (auto simp: net_inv_def master_inv_def tree_inv_def list_all_iff slave_ids_def)
  then show False
  proof
    assume "tn_host_id c = 1"
    with assms(1) c have "k \<in> tn_name ` set (root_children (n_master n0))" by (auto simp: origin_def)
    with assms(3) show False by (simp add: unclashed_def)
  next
    assume id: "tn_host_id c \<in> set (slave_ids (n_master n))"
    then obtain g where g: "mc_slave_id (conn_of (n_master n) g) = tn_host_id c" "tn_host_id c \<noteq> 0" by (auto simp: slave_id_iff)
    have len: "g < length (n_links n)" using g by (intro conn_id_link [OF assms(2)]) simp
    have "slave_origin (n_master n) (mc_slave_id (conn_of (n_master n) g)) (n_links n ! g)" using assms(1) len by (simp add: origin_def)
    then have "c \<in> marked (tn_host_id c) ` set (tn_children (own_tree (l_start (n_links n ! g))))" using c(1) g by (simp add: slave_origin_def)
    then obtain c0 where c0: "c0 \<in> set (tn_children (own_tree (l_start (n_links n ! g))))" and eq: "c = marked (tn_host_id c) c0" by blast
    have "tn_name c0 = k" using arg_cong [OF eq, of tn_name] c(2) by (simp only: marked_sel)
    with c0 have "k \<in> tn_name ` set (tn_children (own_tree (l_start (n_links n ! g))))" by blast
    moreover have "g \<noteq> h" using g assms(4) by auto
    ultimately show False using assms(3) len by (simp add: unclashed_def)
  qed
qed

lemma contributes_step:
  assumes "contributes n0 n" and "net_inv B n" and "origin (n_master n0) n" and "net_enabled B ev n" and "net_handle B ev n = Inr n'"
    and "\<forall>c\<in>set (root_children (n_master n0)). tn_host_id c = 1"
  shows "contributes n0 n'"
proof -
  let ?m = "n_master n" and ?m' = "n_master n'"
  have inv: "master_inv ?m" using assms(2) by (simp add: net_inv_def)
  have own: "set (root_children (n_master n0)) \<subseteq> set (root_children ?m)" using assms(1) by (simp add: contributes_def)
  have old: "marked (mc_slave_id (conn_of ?m h)) c \<in> set (root_children ?m)"
    if "mc_slave_id (conn_of ?m h) \<noteq> 0" "c \<in> set (tn_children (own_tree (l_start (n_links n ! h))))" "unclashed n0 n h (tn_name c)" for h c
    using assms(1) that conn_id_link [OF assms(2) that(1)] by (simp add: contributes_def Let_def)
  let ?E = "\<lambda>h. {c \<in> set (tn_children (own_tree (l_start (n_links n ! h)))). unclashed n0 n h (tn_name c)}"
  have "set (root_children (n_master n0)) \<subseteq> set (root_children ?m') \<and>
    (\<forall>h. mc_slave_id (conn_of ?m' h) \<noteq> 0 \<longrightarrow> h < length (n_links n) \<and>
       marked (mc_slave_id (conn_of ?m' h)) ` ?E h \<subseteq> set (root_children ?m'))"
    using assms(2,4,5)
  proof (cases rule: net_event_cases)
    case quiet
    then have "root_children ?m' = root_children ?m" "\<And>h. mc_slave_id (conn_of ?m' h) = mc_slave_id (conn_of ?m h)"
      by (simp_all add: quiet_def root_children_def)
    with own old conn_id_link [OF assms(2)] show ?thesis by auto
  next
    case (closed k m1)
    have m1: "root_children m1 = root_children ?m" "\<And>h. mc_slave_id (conn_of m1 h) = mc_slave_id (conn_of ?m h)"
      using closed(1) by (simp_all add: quiet_def root_children_def)
    note kept = closed_contribution [OF closed(2-4), unfolded m1]
    have "h < length (n_links n) \<and> marked (mc_slave_id (conn_of ?m' h)) ` ?E h \<subseteq> set (root_children ?m')"
      if i: "mc_slave_id (conn_of ?m' h) \<noteq> 0" for h
      using kept(2,3) [OF i] old [of h] i conn_id_link [OF assms(2), of h] by auto
    moreover have "set (root_children (n_master n0)) \<subseteq> set (root_children ?m')" using own kept(1) assms(6) by blast
    ultimately show ?thesis by blast
  next
    case (joined k d)
    have k: "k < length (conns ?m)" "mc_slave_id (conn_of ?m k) = 0" using joined(1) by (simp_all add: fresh_connection_def conn_of_def)
    note tree = joined_contribution [OF inv joined(3,4)]
    have "h < length (n_links n) \<and> marked (mc_slave_id (conn_of ?m' h)) ` ?E h \<subseteq> set (root_children ?m')"
      if i: "mc_slave_id (conn_of ?m' h) \<noteq> 0" for h
    proof (cases "h = k")
      case True
      with origin_names [OF assms(3,2) _ k(2)] joined(2,7) show ?thesis by (auto simp: tree conn_of_update [OF joined(6) k(1)])
    next
      case False
      then have "conn_of ?m' h = conn_of ?m h" by (simp add: conn_of_update [OF joined(6) k(1)])
      with old [of h] i conn_id_link [OF assms(2), of h] show ?thesis by (auto simp: tree)
    qed
    moreover have "set (root_children (n_master n0)) \<subseteq> set (root_children ?m')" using own by (auto simp: tree)
    ultimately show ?thesis by blast
  qed
  then have own': "set (root_children (n_master n0)) \<subseteq> set (root_children ?m')"
    and new: "\<And>h. mc_slave_id (conn_of ?m' h) \<noteq> 0 \<Longrightarrow> h < length (n_links n) \<and>
       marked (mc_slave_id (conn_of ?m' h)) ` ?E h \<subseteq> set (root_children ?m')"
    by blast+
  have "marked (mc_slave_id (conn_of ?m' h)) c \<in> set (root_children ?m')"
    if "mc_slave_id (conn_of ?m' h) \<noteq> 0" "c \<in> set (tn_children (own_tree (l_start (n_links n' ! h))))" "unclashed n0 n' h (tn_name c)" for h c
  proof -
    have "c \<in> ?E h" using that(2) net_links_kept(1) [OF assms(5)] new [OF that(1)] unclashed_earlier [OF assms(5) that(3)] by simp
    with new [OF that(1)] show ?thesis by blast
  qed
  with own' show ?thesis by (simp add: contributes_def Let_def)
qed

interpretation net_contributes: event_system "net_enabled B" "net_handle B" "net_bounds B"
    "\<lambda>n. (net_inv B n \<and> origin (n_master n0) n) \<and> contributes n0 n \<and> (\<forall>c\<in>set (root_children (n_master n0)). tn_host_id c = 1)" for B n0
  using net_origin.handle_returns net_origin.handle_keeps contributes_step by unfold_locales blast+

lemma contributes_run:
  assumes "net_initial B n0" and "net_run B n0 n"
  shows "contributes n0 n"
proof -
  have "\<forall>c\<in>set (root_children (n_master n0)). tn_host_id c = 1"
    using assms(1) by (auto simp: net_initial_def master_inv_def tree_inv_def list_all_iff)
  moreover have "net_inv B n0 \<and> origin (n_master n0) n0 \<and> contributes n0 n0"
    using net_initial_inv [OF assms(1)] origin_run [OF assms(1) run_start] assms(1) by (simp add: contributes_def net_initial_def)
  ultimately show ?thesis using net_contributes.run_inv [OF assms(2)] by blast
qed

text \<open>The whole subtree below such an entry is where its owner has it.\<close>

lemma contribution_lookup:
  assumes "master_inv m" and "u_dir_tree m = Some r" and "marked i c \<in> set (root_children m)" and "lookup_path c ks = Some own"
  shows "lookup_path r (tn_name c # ks) = Some (marked i own)"
proof -
  have "sorted_names (tn_children r)" using assms(1,2) by (auto simp: master_inv_def tree_inv_def wf_tree_def dest: wf_nodeD)
  then have "set_find (tn_name c) (tn_children r) = Some (marked i c)" using assms(2,3) by (simp add: set_find_iff root_children_def)
  with assms(4) show ?thesis by (simp add: lookup_marked)
qed

lemma shared_entry_lookup:
  assumes "net_initial B n0" and "net_run B n0 n" and "recognised h (n_master n)" and "unclashed n0 n h k"
    and "lookup_path (own_tree (l_start (n_links n ! h))) (k # ks) = Some own" and "u_dir_tree (n_master n) = Some r"
  shows "lookup_path r (k # ks) = Some (marked (mc_slave_id (conns (n_master n) ! h)) own)"
proof -
  let ?m = "n_master n"
  have inv: "net_inv B n" "master_inv ?m" using net_run_inv [OF assms(1,2)] by (simp_all add: net_inv_def)
  have id: "conn_of ?m h = conns ?m ! h" "mc_slave_id (conn_of ?m h) \<noteq> 0" using assms(3) by (simp_all add: recognised_def conn_of_def)
  obtain c where c: "set_find k (tn_children (own_tree (l_start (n_links n ! h)))) = Some c" "lookup_path c ks = Some own"
    using assms(5) by (auto split: option.splits)
  have c': "c \<in> set (tn_children (own_tree (l_start (n_links n ! h))))" "tn_name c = k" using set_find_Some [OF c(1)] by simp_all
  with contributes_run [OF assms(1,2)] id(2) assms(4) conn_id_link [OF inv(1) id(2)]
  have "marked (mc_slave_id (conn_of ?m h)) c \<in> set (root_children ?m)" by (simp add: contributes_def Let_def)
  from contribution_lookup [OF inv(2) assms(6) this c(2)] c'(2) id(1) show ?thesis by simp
qed

lemma own_entry_lookup:
  assumes "net_initial B n0" and "net_run B n0 n" and "lookup_path (own_tree (n_master n0)) (k # ks) = Some own"
    and "u_dir_tree (n_master n) = Some r"
  shows "lookup_path r (k # ks) = Some own"
proof -
  have inv: "master_inv (n_master n)" "master_inv (n_master n0)"
    using net_run_inv [OF assms(1,2)] assms(1) by (simp_all add: net_inv_def net_initial_def)
  obtain r0 where r0: "u_dir_tree (n_master n0) = Some r0" using master_inv_tree [OF inv(2)] by blast
  then obtain c where c: "set_find k (tn_children r0) = Some c" "lookup_path c ks = Some own"
    using assms(3) by (auto simp: own_tree_def split: option.splits)
  then have "c \<in> set (root_children (n_master n))" and name: "tn_name c = k"
    using contributes_run [OF assms(1,2)] set_find_Some [OF c(1)] r0 by (auto simp: contributes_def root_children_def)
  moreover have "sorted_names (tn_children r)" using inv(1) assms(4) by (auto simp: master_inv_def tree_inv_def wf_tree_def dest: wf_nodeD)
  ultimately have "set_find k (tn_children r) = Some c" using assms(4) by (simp add: set_find_iff root_children_def)
  with c(2) show ?thesis by simp
qed

subsection \<open>The small network\<close>

lemma internal_links_kept:
  assumes "(net_internal_step B)\<^sup>*\<^sup>* n n'"
  shows "length (n_links n') = length (n_links n) \<and> (\<forall>k<length (n_links n). l_start (n_links n' ! k) = l_start (n_links n ! k))"
  using assms
proof (induction rule: rtranclp_induct)
  case (step n1 n2)
  then obtain ev where ev: "net_internal ev" "net_handle B ev n1 = Inr n2" by (auto simp: step_of_def)
  then have "length (n_links n2) = length (n_links n1)" by (cases ev) (auto simp: res_bind_eq_Inr master_moves_kept simp del: master_moves.simps)
  with step net_links_kept(1) [OF ev(2)] show ?case by simp
qed simp

lemma sample_settled_links:
  assumes "(net_internal_step tagged_archive)\<^sup>*\<^sup>* sample_arrived n"
  shows "length (n_links n) = 1" and "own_tree (l_start (n_links n ! 0)) = standby_tree"
  using internal_links_kept [OF assms] sample_arrived_facts(3)
  by (simp_all add: sample_arrived_def link_new_def own_tree_def) (simp add: sample_slave_def)

lemma sample_unclashed: "length (n_links n) = 1 \<Longrightarrow> unclashed sample_net n 0 ''master_file1''"
  by (simp add: unclashed_def sample_net_def root_children_def sample_net_master_meta)
    (auto simp: sample_master_def sample_scan_def sample_defs UserFS_new_def)

subsection \<open>Properties\<close>

text \<open>
  \<^bold>\<open>C11\<close>. A network implements the group. Whatever a network goes through, its master is at each moment an
  implementation of a state that the specification of the group reaches from the master alone: the
  members are the master and the ids of its connections, what they contribute is what the tree shows,
  and the hosts are those that the specification has given ids. The next event, whichever it is, is
  again a step of the specification, a join or a leave, or does not show in it.
\<close>

theorem net_refines_group_spec:
  assumes "net_initial B n0" and "net_run B n0 n"
  shows "gs_members (group_of (n_master n0)) = {1} \<and> spec_step\<^sup>*\<^sup>* (group_of (n_master n0)) (group_of (n_master n)) \<and>
    spec_inv (group_of (n_master n)) \<and> gs_view (group_of (n_master n)) = set (root_children (n_master n)) \<and>
    (\<forall>ev n'. net_enabled B ev n \<and> net_handle B ev n = Inr n' \<longrightarrow>
       group_of (n_master n') = group_of (n_master n) \<or> spec_step (group_of (n_master n)) (group_of (n_master n')))"
proof -
  have inv: "net_inv B n" "master_inv (n_master n)" using net_run_inv [OF assms] by (simp_all add: net_inv_def)
  have "slave_ids (n_master n0) = []" using assms(1) by (simp add: net_initial_def slave_ids_def)
  with net_spec.run_simulates [OF assms(2) net_initial_inv [OF assms(1)]] group_of_inv [OF inv(2)] group_view_of [OF inv(2)]
    net_event_group [OF inv(1)] show ?thesis by auto
qed


theorem net_refines_group_spec_witness:
  "\<exists>n i. net_run tagged_archive sample_net n \<and> i \<noteq> 1 \<and> i \<in> gs_members (group_of (n_master n)) \<and>
    spec_step\<^sup>*\<^sup>* (group_of (n_master sample_net)) (group_of (n_master n))"
proof -
  obtain n where n: "net_run tagged_archive sample_net n" "net_at_rest tagged_archive n" "both_open 0 n" by (rule sample_settles)
  have "master_inv (n_master n)" using net_run_inv [OF sample_net_initial n(1)] by (simp add: net_inv_def)
  then have "list_all (\<lambda>i. 2 \<le> unat i) (slave_ids (n_master n))" by (auto simp: master_inv_def conns_inv_def list_all_iff)
  moreover have "mc_slave_id (conns (n_master n) ! 0) \<in> set (slave_ids (n_master n))"
    using rest_known(1) [OF net_run_inv [OF sample_net_initial n(1)] n(2,3)] by (simp add: recognised_def slave_ids_def)
  moreover from this calculation(1) have "mc_slave_id (conns (n_master n) ! 0) \<noteq> 1" by (auto simp: list_all_iff)
  ultimately show ?thesis using net_refines_group_spec [OF sample_net_initial n(1)] n(1) by (auto intro!: exI [of _ n])
qed

text \<open>
  What is shared is seen. In every state of a network: everything that a recognised slave has
  scanned below a name that neither the master nor another slave uses is in the tree of the master, at the same path and
  with the same data, marked with the slave's id; and everything the master has scanned is there as it was.
\<close>

theorem shared_entries_visible:
  assumes "net_initial B n0" and "net_run B n0 n" and "u_dir_tree (n_master n) = Some r"
  shows "(\<forall>h k ks own. recognised h (n_master n) \<and> unclashed n0 n h k \<and>
       lookup_path (own_tree (l_start (n_links n ! h))) (k # ks) = Some own \<longrightarrow>
       lookup_path r (k # ks) = Some (marked (mc_slave_id (conns (n_master n) ! h)) own)) \<and>
    (\<forall>k ks own. lookup_path (own_tree (n_master n0)) (k # ks) = Some own \<longrightarrow> lookup_path r (k # ks) = Some own)"
  using shared_entry_lookup [OF assms(1,2)] own_entry_lookup [OF assms(1,2)] assms(3) by blast

theorem shared_entries_visible_witness:
  "\<exists>n r own. net_run tagged_archive sample_net n \<and> u_dir_tree (n_master n) = Some r \<and> recognised 0 (n_master n) \<and>
    unclashed sample_net n 0 ''master_file1'' \<and> lookup_path (own_tree (l_start (n_links n ! 0))) [''master_file1''] = Some own \<and>
    lookup_path r [''master_file1''] = Some (marked (mc_slave_id (conns (n_master n) ! 0)) own)"
proof -
  obtain n where n: "(net_internal_step tagged_archive)\<^sup>*\<^sup>* sample_arrived n" "net_run tagged_archive sample_net n"
    "net_at_rest tagged_archive n" "both_open 0 n" by (rule sample_settles)
  have inv: "net_inv tagged_archive n" by (rule net_run_inv [OF sample_net_initial n(2)])
  then obtain r where r: "u_dir_tree (n_master n) = Some r" using master_inv_tree [of "n_master n"] by (auto simp: net_inv_def)
  note links = sample_settled_links [OF n(1)]
  have "lookup_path (own_tree (l_start (n_links n ! 0))) [''master_file1''] = Some (sample_file 0 ''master_file1'')"
    by (simp add: links(2) sample_defs)
  moreover have "recognised 0 (n_master n)" by (rule rest_known(1) [OF inv n(3,4)])
  ultimately show ?thesis
    using shared_entries_visible [OF sample_net_initial n(2) r] n(2) r sample_unclashed [OF links(1)] by blast
qed

end
