(* ===== verification/Network_Hosts.thy ===== *)
theory Network_Hosts
  imports Network_Refinement
begin

section \<open>What the nodes know of each other\<close>

text \<open>
  The vector of hosts of the master only grows, and an id is the index of one host for ever. What a
  slave knows at any moment, at rest or not, it has from the scan with which it started or from one
  packet of the master: its hosts are those of the master at some earlier moment, and its tree shows nothing
  that the master did not show at that moment. No handler of the network touches the SSH sessions.
\<close>

subsection \<open>Sessions\<close>

lemma close_ssh: "TCPMasterMessager_close B h m = Inr m' \<Longrightarrow> u_ssh_manager m' = u_ssh_manager m"
  by (auto simp: TCPMasterMessager_close_def UserFS_disconnect_slave_def UserFS_sendUpdate_def UserFS_sendUpdate_seq_def
      set_conn_def map_master_def res_bind_eq_Inr split: if_splits)

lemma newConnection_ssh: "UserFS_newConnection B remote ts hs h m = Inr m' \<Longrightarrow> u_ssh_manager m' = u_ssh_manager m"
  by (auto simp: UserFS_newConnection_def UserFS_sendUpdate_seq_def set_conn_def map_master_def Let_def res_bind_eq_Inr
      dest!: close_ssh split: if_splits)

lemma set_conn_ssh [simp]: "u_ssh_manager (set_conn h c m) = u_ssh_manager m"
  by (simp add: set_conn_def map_master_def)

lemma master_handle_ssh: "master_handle B ev m = Inr m' \<Longrightarrow> u_ssh_manager m' = u_ssh_manager m"
  by (cases ev)
    (auto simp: run_master_def master_header_handler_def master_body_handler_def master_write_handler_def Let_def res_bind_eq_Inr
      TCPManager_read_master_def dest!: close_ssh newConnection_ssh split: if_splits list.splits)

lemma set_slave_ssh [simp]: "u_ssh_manager (set_slave x s) = u_ssh_manager s"
  by (simp add: set_slave_def)

lemma disconnect_ssh: "UserFS_disconnect s = Inr s' \<Longrightarrow> u_ssh_manager s' = u_ssh_manager s"
  by (auto simp: UserFS_disconnect_def res_bind_eq_Inr Let_def split: if_splits)

lemma slave_handle_ssh: "slave_handle B ev s = Inr s' \<Longrightarrow> u_ssh_manager s' = u_ssh_manager s"
  by (cases ev)
    (auto simp: slave_connect_handler_def slave_header_handler_def slave_body_handler_def slave_write_handler_def Let_def res_bind_eq_Inr
      TCPManager_read_slave_def UserFS_slaveRecognized_def UserFS_updateInfo_def dest!: disconnect_ssh split: if_splits list.splits)

text \<open>The sessions of the nodes after an event.\<close>

lemma master_moves_slave: "k < length (n_links n) \<Longrightarrow> l_slave (n_links (master_moves ev n) ! k) = l_slave (n_links n ! k)"
  by (cases ev) (simp_all add: map_link_nth)

text \<open>
  An event of the master leaves the slaves alone, an event of a slave the master and the other slaves.
\<close>

lemma net_event_slave:
  assumes "net_handle B ev n = Inr n'" and "h < length (n_links n)"
  obtains (same) "l_slave (n_links n' ! h) = l_slave (n_links n ! h)"
  | (moved) sev where "ev = SlaveEvent h sev" and "slave_handle B sev (l_slave (n_links n ! h)) = Inr (l_slave (n_links n' ! h))"
proof (cases ev)
  case (SlaveEvent g sev)
  show thesis
  proof (cases "g = h")
    case True
    with SlaveEvent assms show thesis by (intro moved) (auto simp: res_bind_eq_Inr map_link_nth simp del: slave_handle.simps)
  qed (use SlaveEvent assms in \<open>auto simp: res_bind_eq_Inr map_link_nth intro!: same simp del: slave_handle.simps\<close>)
qed (use assms in \<open>auto simp: res_bind_eq_Inr map_link_nth nth_append master_moves_slave intro!: same simp del: master_moves.simps\<close>)

lemma net_event_ssh:
  assumes "net_handle B ev n = Inr n'"
  shows "u_ssh_manager (n_master n') = u_ssh_manager (n_master n)"
    and "h < length (n_links n) \<Longrightarrow> u_ssh_manager (l_slave (n_links n' ! h)) = u_ssh_manager (l_slave (n_links n ! h))"
proof -
  show "u_ssh_manager (n_master n') = u_ssh_manager (n_master n)"
    using assms by (cases ev) (auto simp: res_bind_eq_Inr simp del: master_handle.simps dest: master_handle_ssh)
  show "u_ssh_manager (l_slave (n_links n' ! h)) = u_ssh_manager (l_slave (n_links n ! h))" if "h < length (n_links n)"
    using assms that by (cases rule: net_event_slave) (simp_all add: slave_handle_ssh)
qed

subsection \<open>Hosts\<close>

lemma net_event_hosts:
  assumes "net_inv B n" and "net_enabled B ev n" and "net_handle B ev n = Inr n'"
  shows "prefix (u_hosts (n_master n)) (u_hosts (n_master n'))"
  using assms
proof (cases rule: net_event_cases)
  case quiet
  then show ?thesis by (simp add: quiet_def)
next
  case (closed h m1)
  then have "u_hosts (n_master n') = u_hosts m1" using close_effect [OF closed(2,3), of B] by (metis sum.inject(2))
  with closed(1) show ?thesis by (simp add: quiet_def)
next
  case (joined h c)
  then show ?thesis by simp
qed

text \<open>What an event may do to the tree and the hosts of a slave: remove nodes, or take over both from a packet.\<close>

lemma disconnect_view:
  "UserFS_disconnect s = Inr s' \<Longrightarrow> u_hosts s' = u_hosts s \<and> set (root_children s') \<subseteq> set (root_children s)"
  by (cases "u_dir_tree s")
    (auto simp: UserFS_disconnect_def DirTree_removeNotOf_def removeNotOf_loop_eq root_children_def res_bind_eq_Inr Let_def split: if_splits)

lemma root_children_set_slave [simp]: "root_children (set_slave x s) = root_children s"
  by (simp add: root_children_def)

lemma slave_event_view:
  assumes "archive_lossless B" and "link_inv B m c qs l" and "slave_enabled ev l" and "slave_handle B ev (l_slave l) = Inr s'"
  shows "u_hosts s' = u_hosts (l_slave l) \<and> set (root_children s') \<subseteq> set (root_children (l_slave l)) \<or>
    (\<exists>m0. earlier B (u_hosts m) m0 \<and> in_sync m0 s')"
proof (cases "\<exists>data. ev = SlaveBodyRead False data")
  case False
  then show ?thesis
    using assms(4)
    by (cases ev)
      (auto simp: slave_connect_handler_def slave_header_handler_def slave_body_handler_def slave_write_handler_def Let_def res_bind_eq_Inr
        dest!: disconnect_view split: if_splits list.splits)
next
  case True
  then obtain data where ev: "ev = SlaveBodyRead False data" by blast
  have rd: "sm_read (lm l) = ReadBody" "sm_open (lm l)" "take (length data) (l_down l) = data"
    "length data = unat (pkt_size (sm_packet (lm l)))" using assms(3) ev by auto
  obtain rest ps where st: "stream_ok ReadBody (sm_packet (lm l)) (l_down l @ rest) ps" and due: "due B m c qs l rest ps"
    using assms(2) rd(1,2) by (auto simp: link_inv_def down_inv_def)
  have node: "tm_slave (u_tcp_manager (l_slave l)) \<noteq> None" "u_dir_tree (l_slave l) \<noteq> None"
    using assms(2) by (simp_all add: link_inv_def node_inv_def)
  obtain p ps' where p: "ps = p # ps'" "data = pkt_data (Packet_received p)"
    by (rule stream_body [OF st due_framed [OF due] rd(3,4)]) blast
  obtain i where i: "packet_for B (u_hosts m) i p" by (rule due_packet [OF due [unfolded p(1)]])
  obtain s2 b q where "slave_body_handler B False data (l_slave l) =
      Inr (set_slave ((lm l)\<lparr>sm_packet := q, sm_buffer := b, sm_read := ReadHeader\<rparr>) s2)"
    and known: "\<exists>m0. earlier B (u_hosts m) m0 \<and> in_sync m0 s2"
    by (rule slave_body_ok [OF node(1) rd(4) assms(1) i p(2) node(2)])
  with assms(4) ev have "in_sync m0 s' = in_sync m0 s2" for m0 by (auto simp: in_sync_def)
  with known show ?thesis by simp
qed

definition heard :: "boost_archive \<Rightarrow> Hosts \<Rightarrow> link \<Rightarrow> bool" where
  "heard B hs l \<longleftrightarrow>
     u_hosts (l_slave l) = u_hosts (l_start l) \<and> set (root_children (l_slave l)) \<subseteq> set (root_children (l_start l)) \<or>
     (\<exists>m. earlier B hs m \<and> u_hosts (l_slave l) = u_hosts m \<and> set (root_children (l_slave l)) \<subseteq> set (root_children m))"

lemma heard_mono: "heard B hs l \<Longrightarrow> prefix hs hs' \<Longrightarrow> heard B hs' l"
  by (auto simp: heard_def intro: earlier_mono)

lemma heard_shrinks:
  assumes "heard B hs l" and "l_start l' = l_start l" and "u_hosts (l_slave l') = u_hosts (l_slave l)"
    and "set (root_children (l_slave l')) \<subseteq> set (root_children (l_slave l))"
  shows "heard B hs l'"
  using assms unfolding heard_def by (metis subset_trans)

definition all_heard :: "boost_archive \<Rightarrow> network \<Rightarrow> bool" where
  "all_heard B n \<longleftrightarrow> (\<forall>h<length (n_links n). heard B (u_hosts (n_master n)) (n_links n ! h))"

lemma all_heard_step:
  assumes "all_heard B n" and "net_inv B n" and "net_enabled B ev n" and "net_handle B ev n = Inr n'"
  shows "all_heard B n'"
proof -
  note grown = net_event_hosts [OF assms(2-4)]
  have old: "heard B (u_hosts (n_master n')) (n_links n' ! h)" if h: "h < length (n_links n)" for h
  proof -
    have l: "heard B (u_hosts (n_master n)) (n_links n ! h)" using assms(1) h by (simp add: all_heard_def)
    have start: "l_start (n_links n' ! h) = l_start (n_links n ! h)" by (rule net_links_kept(1) [OF assms(4) h])
    show ?thesis
      using assms(4) h
    proof (cases rule: net_event_slave)
      case same
      then show ?thesis by (intro heard_shrinks [OF heard_mono [OF l grown] start]) simp_all
    next
      case (moved sev)
      then have "slave_enabled sev (n_links n ! h)" using assms(3) by simp
      moreover have "archive_lossless B" using assms(2) by (simp add: net_inv_def)
      ultimately consider "u_hosts (l_slave (n_links n' ! h)) = u_hosts (l_slave (n_links n ! h))"
          "set (root_children (l_slave (n_links n' ! h))) \<subseteq> set (root_children (l_slave (n_links n ! h)))"
        | m0 where "earlier B (u_hosts (n_master n)) m0" "in_sync m0 (l_slave (n_links n' ! h))"
        using slave_event_view [OF _ net_inv_link [OF assms(2) h] _ moved(2)] by blast
      then show ?thesis
      proof cases
        case 1
        then show ?thesis by (intro heard_shrinks [OF heard_mono [OF l grown] start]) simp_all
      next
        case 2
        with earlier_mono [OF 2(1) grown] show ?thesis by (auto simp: heard_def in_sync_def)
      qed
    qed
  qed
  show ?thesis
  proof (cases "\<exists>s addr. ev = SlaveArrives s addr")
    case False
    then have "length (n_links n') = length (n_links n)" using assms(4) by (cases ev) (auto simp: res_bind_eq_Inr master_moves_kept simp del: master_moves.simps)
    with old show ?thesis by (simp add: all_heard_def)
  next
    case True
    then obtain s addr s' where s': "slave_connect_handler False s = Inr s'" and n': "n' = n\<lparr>n_links := n_links n @ [link_new s addr s']\<rparr>"
      using assms(4) by (auto simp: res_bind_eq_Inr)
    have "heard B hs (link_new s addr s')" for hs
      using s' by (auto simp: heard_def link_new_def slave_connect_handler_def res_bind_eq_Inr root_children_def)
    with old show ?thesis by (auto simp: all_heard_def n' nth_append less_Suc_eq)
  qed
qed

interpretation net_heard: event_system "net_enabled B" "net_handle B" "net_bounds B" "\<lambda>n. net_inv B n \<and> all_heard B n" for B
  by unfold_locales (use net_event_ok all_heard_step in fastforce)+

end
