(* ===== verification/Sftp_Service.thy ===== *)
theory Sftp_Service
  imports Ssh_Manager "HOL-Library.Sublist"
begin

section \<open>What a read over SFTP returns\<close>

text \<open>
  The sessions of \<open>Libssh_Wrapper\<close> on a library that does what its documentation says. The hypothesis
  \<open>libssh_documented\<close> describes the functions of libssh by what they do to three tables: the SSH sessions
  with the address and port that were set, the SFTP sessions with the SSH session they run over, and the open files
  with their path and position. Nothing is said about when a function succeeds. Under it the cached handle of
  a session is always one on the file it is cached for, at the host of the session, also with several
  sessions open at the same time; so a read that reports success returns octets of that file.
\<close>

subsection \<open>The library by its tables\<close>

record ssh_tables =
  st_sessions :: "nat \<rightharpoonup> string \<times> u32"
  st_channels :: "nat \<rightharpoonup> nat"
  st_files :: "nat \<rightharpoonup> nat \<times> string \<times> u64"

definition ssh_documented :: "'w libssh \<Rightarrow> ('w \<Rightarrow> ssh_tables) \<Rightarrow> bool" where
  "ssh_documented L T \<longleftrightarrow>
     (\<forall>w. case l_ssh_new L w of
        (None, w') \<Rightarrow> T w' = T w
      | (Some h, w') \<Rightarrow> st_sessions (T w) h = None \<and> (\<exists>x. T w' = (T w)\<lparr>st_sessions := (st_sessions (T w))(h \<mapsto> x)\<rparr>)) \<and>
     (\<forall>h a w b p. st_sessions (T w) h = Some (b, p) \<longrightarrow> (case l_ssh_options_set_host L h a w of (ok, w') \<Rightarrow>
        T w' = (if ok then (T w)\<lparr>st_sessions := (st_sessions (T w))(h \<mapsto> (a, p))\<rparr> else T w))) \<and>
     (\<forall>h q w b p. st_sessions (T w) h = Some (b, p) \<longrightarrow> (case l_ssh_options_set_port L h q w of (ok, w') \<Rightarrow>
        T w' = (if ok then (T w)\<lparr>st_sessions := (st_sessions (T w))(h \<mapsto> (b, q))\<rparr> else T w))) \<and>
     (\<forall>h w. T (snd (l_ssh_connect L h w)) = T w) \<and>
     (\<forall>h w. T (snd (l_ssh_userauth_publickey_auto L h w)) = T w) \<and>
     (\<forall>h w. T (l_ssh_disconnect L h w) = T w) \<and> (\<forall>w. T (l_ssh_free L None w) = T w) \<and>
     (\<forall>h w. T (l_ssh_free L (Some h) w) = (T w)\<lparr>st_sessions := (st_sessions (T w))(h := None)\<rparr>)"

definition sftp_documented :: "'w libssh \<Rightarrow> ('w \<Rightarrow> ssh_tables) \<Rightarrow> bool" where
  "sftp_documented L T \<longleftrightarrow>
     (\<forall>h w. case l_sftp_new L h w of
        (None, w') \<Rightarrow> T w' = T w
      | (Some t, w') \<Rightarrow> st_channels (T w) t = None \<and> T w' = (T w)\<lparr>st_channels := (st_channels (T w))(t \<mapsto> h)\<rparr>) \<and>
     (\<forall>t w. T (snd (l_sftp_init L t w)) = T w) \<and>
     (\<forall>t w. T (l_sftp_free L t w) = (T w)\<lparr>st_channels := (st_channels (T w))(t := None)\<rparr>) \<and>
     (\<forall>t path w. case l_sftp_open L t path w of
        (None, w') \<Rightarrow> T w' = T w
      | (Some f, w') \<Rightarrow> st_files (T w) f = None \<and> T w' = (T w)\<lparr>st_files := (st_files (T w))(f \<mapsto> (t, path, 0))\<rparr>) \<and>
     (\<forall>f w. T (l_sftp_close L f w) = (T w)\<lparr>st_files := (st_files (T w))(f := None)\<rparr>)"

text \<open>
  \<open>disk a p path\<close> are the contents of the file that the SSH server at address \<open>a\<close> and port \<open>p\<close> has at \<open>path\<close>.
  A read gives at most as many octets as asked for, from the position of the handle on; 0 means the end of the file.
\<close>

definition portion :: "bytes \<Rightarrow> u64 \<Rightarrow> u64 \<Rightarrow> int \<Rightarrow> bytes \<Rightarrow> bool" where
  "portion c offset n k d \<longleftrightarrow>
     k = int (length d) \<and> prefix d (take (unat n) (drop (unat offset) c)) \<and> (d = [] \<longrightarrow> take (unat n) (drop (unat offset) c) = [])"

definition file_documented :: "'w libssh \<Rightarrow> ('w \<Rightarrow> ssh_tables) \<Rightarrow> (string \<Rightarrow> u32 \<Rightarrow> string \<Rightarrow> bytes) \<Rightarrow> bool" where
  "file_documented L T disk \<longleftrightarrow>
     (\<forall>f offset w t path pos. st_files (T w) f = Some (t, path, pos) \<longrightarrow> (case l_sftp_seek64 L f offset w of (ok, w') \<Rightarrow>
        T w' = (if ok then (T w)\<lparr>st_files := (st_files (T w))(f \<mapsto> (t, path, offset))\<rparr> else T w))) \<and>
     (\<forall>f n w t path pos h a p. st_files (T w) f = Some (t, path, pos) \<and> st_channels (T w) t = Some h \<and>
        st_sessions (T w) h = Some (a, p) \<longrightarrow> (case l_sftp_read L f n w of ((k, d), w') \<Rightarrow>
          (\<exists>pos'. T w' = (T w)\<lparr>st_files := (st_files (T w))(f \<mapsto> (t, path, pos'))\<rparr>) \<and>
          (0 \<le> k \<longrightarrow> portion (disk a p path) pos n k d)))"

definition libssh_documented :: "'w libssh \<Rightarrow> ('w \<Rightarrow> ssh_tables) \<Rightarrow> (string \<Rightarrow> u32 \<Rightarrow> string \<Rightarrow> bytes) \<Rightarrow> bool" where
  "libssh_documented L T disk \<longleftrightarrow> ssh_documented L T \<and> sftp_documented L T \<and> file_documented L T disk"

text \<open>The laws, one by one.\<close>

lemma ssh_laws:
  assumes "libssh_documented L T disk"
  shows "l_ssh_new L w = (None, w') \<Longrightarrow> T w' = T w"
    and "l_ssh_new L w = (Some h, w') \<Longrightarrow> st_sessions (T w) h = None \<and> (\<exists>x. T w' = (T w)\<lparr>st_sessions := (st_sessions (T w))(h \<mapsto> x)\<rparr>)"
    and "l_ssh_options_set_host L h a w = (ok, w') \<Longrightarrow> st_sessions (T w) h = Some (b, p) \<Longrightarrow>
      T w' = (if ok then (T w)\<lparr>st_sessions := (st_sessions (T w))(h \<mapsto> (a, p))\<rparr> else T w)"
    and "l_ssh_options_set_port L h q w = (ok, w') \<Longrightarrow> st_sessions (T w) h = Some (b, p) \<Longrightarrow>
      T w' = (if ok then (T w)\<lparr>st_sessions := (st_sessions (T w))(h \<mapsto> (b, q))\<rparr> else T w)"
    and "l_ssh_connect L h w = (ok, w') \<Longrightarrow> T w' = T w" and "l_ssh_userauth_publickey_auto L h w = (ok, w') \<Longrightarrow> T w' = T w"
    and "T (l_ssh_disconnect L r w) = T w" and "T (l_ssh_free L None w) = T w"
    and "T (l_ssh_free L (Some h) w) = (T w)\<lparr>st_sessions := (st_sessions (T w))(h := None)\<rparr>"
proof -
  have doc: "ssh_documented L T" using assms by (simp add: libssh_documented_def)
  have new: "case l_ssh_new L w of
      (None, w') \<Rightarrow> T w' = T w
    | (Some h, w') \<Rightarrow> st_sessions (T w) h = None \<and> (\<exists>x. T w' = (T w)\<lparr>st_sessions := (st_sessions (T w))(h \<mapsto> x)\<rparr>)"
    using doc [unfolded ssh_documented_def, THEN conjunct1] by (rule spec)
  then show "l_ssh_new L w = (None, w') \<Longrightarrow> T w' = T w" by simp
  show "l_ssh_new L w = (Some h, w') \<Longrightarrow> st_sessions (T w) h = None \<and> (\<exists>x. T w' = (T w)\<lparr>st_sessions := (st_sessions (T w))(h \<mapsto> x)\<rparr>)"
    using new by simp
  show "T w' = (if ok then (T w)\<lparr>st_sessions := (st_sessions (T w))(h \<mapsto> (a, p))\<rparr> else T w)"
    if "l_ssh_options_set_host L h a w = (ok, w')" "st_sessions (T w) h = Some (b, p)"
    using doc [unfolded ssh_documented_def, THEN conjunct2, THEN conjunct1, rule_format, OF that(2), of a] that(1) by simp
  show "T w' = (if ok then (T w)\<lparr>st_sessions := (st_sessions (T w))(h \<mapsto> (b, q))\<rparr> else T w)"
    if "l_ssh_options_set_port L h q w = (ok, w')" "st_sessions (T w) h = Some (b, p)"
    using doc [unfolded ssh_documented_def, THEN conjunct2, THEN conjunct2, THEN conjunct1, rule_format, OF that(2), of q] that(1) by simp
  show "l_ssh_connect L h w = (ok, w') \<Longrightarrow> T w' = T w" "l_ssh_userauth_publickey_auto L h w = (ok, w') \<Longrightarrow> T w' = T w"
    using doc unfolding ssh_documented_def by (metis snd_conv)+
qed (use assms in \<open>simp_all add: libssh_documented_def ssh_documented_def\<close>)

lemma sftp_laws:
  assumes "libssh_documented L T disk"
  shows "l_sftp_new L h w = (None, w') \<Longrightarrow> T w' = T w"
    and "l_sftp_new L h w = (Some t, w') \<Longrightarrow> st_channels (T w) t = None \<and> T w' = (T w)\<lparr>st_channels := (st_channels (T w))(t \<mapsto> h)\<rparr>"
    and "l_sftp_init L t w = (ok, w') \<Longrightarrow> T w' = T w"
    and "T (l_sftp_free L t w) = (T w)\<lparr>st_channels := (st_channels (T w))(t := None)\<rparr>"
    and "l_sftp_open L t path w = (None, w') \<Longrightarrow> T w' = T w"
    and "l_sftp_open L t path w = (Some f, w') \<Longrightarrow> st_files (T w) f = None \<and> T w' = (T w)\<lparr>st_files := (st_files (T w))(f \<mapsto> (t, path, 0))\<rparr>"
    and "T (l_sftp_close L f w) = (T w)\<lparr>st_files := (st_files (T w))(f := None)\<rparr>"
proof -
  have doc: "sftp_documented L T" using assms by (simp add: libssh_documented_def)
  have new: "case l_sftp_new L h w of
      (None, w') \<Rightarrow> T w' = T w
    | (Some t, w') \<Rightarrow> st_channels (T w) t = None \<and> T w' = (T w)\<lparr>st_channels := (st_channels (T w))(t \<mapsto> h)\<rparr>"
    and opened: "case l_sftp_open L t path w of
      (None, w') \<Rightarrow> T w' = T w
    | (Some f, w') \<Rightarrow> st_files (T w) f = None \<and> T w' = (T w)\<lparr>st_files := (st_files (T w))(f \<mapsto> (t, path, 0))\<rparr>"
    by (rule doc [unfolded sftp_documented_def, THEN conjunct1, rule_format],
      rule doc [unfolded sftp_documented_def, THEN conjunct2, THEN conjunct2, THEN conjunct2, THEN conjunct1, rule_format])
  show "l_sftp_new L h w = (None, w') \<Longrightarrow> T w' = T w"
    "l_sftp_new L h w = (Some t, w') \<Longrightarrow> st_channels (T w) t = None \<and> T w' = (T w)\<lparr>st_channels := (st_channels (T w))(t \<mapsto> h)\<rparr>"
    using new by simp_all
  show "l_sftp_open L t path w = (None, w') \<Longrightarrow> T w' = T w"
    "l_sftp_open L t path w = (Some f, w') \<Longrightarrow> st_files (T w) f = None \<and> T w' = (T w)\<lparr>st_files := (st_files (T w))(f \<mapsto> (t, path, 0))\<rparr>"
    using opened by simp_all
  show "l_sftp_init L t w = (ok, w') \<Longrightarrow> T w' = T w" using doc unfolding sftp_documented_def by (metis snd_conv)
qed (use assms in \<open>simp_all add: libssh_documented_def sftp_documented_def\<close>)

lemma file_laws:
  assumes "libssh_documented L T disk" and "st_files (T w) f = Some (t, path, pos)"
  shows "l_sftp_seek64 L f offset w = (ok, w') \<Longrightarrow>
      T w' = (if ok then (T w)\<lparr>st_files := (st_files (T w))(f \<mapsto> (t, path, offset))\<rparr> else T w)"
    and "l_sftp_read L f n w = ((k, d), w') \<Longrightarrow> st_channels (T w) t = Some h \<Longrightarrow> st_sessions (T w) h = Some (a, p) \<Longrightarrow>
      (\<exists>pos'. T w' = (T w)\<lparr>st_files := (st_files (T w))(f \<mapsto> (t, path, pos'))\<rparr>) \<and> (0 \<le> k \<longrightarrow> portion (disk a p path) pos n k d)"
proof -
  have doc: "file_documented L T disk" using assms by (simp add: libssh_documented_def)
  have "case l_sftp_seek64 L f offset w of (ok, w') \<Rightarrow>
      T w' = (if ok then (T w)\<lparr>st_files := (st_files (T w))(f \<mapsto> (t, path, offset))\<rparr> else T w)"
    by (rule doc [unfolded file_documented_def, THEN conjunct1, rule_format, OF assms(2)])
  then show "l_sftp_seek64 L f offset w = (ok, w') \<Longrightarrow>
      T w' = (if ok then (T w)\<lparr>st_files := (st_files (T w))(f \<mapsto> (t, path, offset))\<rparr> else T w)" by simp
  have "case l_sftp_read L f n w of ((k, d), w') \<Rightarrow>
      (\<exists>pos'. T w' = (T w)\<lparr>st_files := (st_files (T w))(f \<mapsto> (t, path, pos'))\<rparr>) \<and> (0 \<le> k \<longrightarrow> portion (disk a p path) pos n k d)"
    if "st_channels (T w) t = Some h" "st_sessions (T w) h = Some (a, p)"
    by (rule doc [unfolded file_documented_def, THEN conjunct2, rule_format]) (use assms(2) that in simp)
  then show "(\<exists>pos'. T w' = (T w)\<lparr>st_files := (st_files (T w))(f \<mapsto> (t, path, pos'))\<rparr>) \<and> (0 \<le> k \<longrightarrow> portion (disk a p path) pos n k d)"
    if "l_sftp_read L f n w = ((k, d), w')" "st_channels (T w) t = Some h" "st_sessions (T w) h = Some (a, p)"
    using that by simp
qed

subsection \<open>What a call touches\<close>

text \<open>
  A call on a session changes entries of the tables only where the pointer of the session points, and
  lets the pointer point elsewhere only where the table had no entry.
\<close>

definition touched :: "(nat \<rightharpoonup> 'a) \<Rightarrow> ptr \<Rightarrow> (nat \<rightharpoonup> 'a) \<Rightarrow> ptr \<Rightarrow> bool" where
  "touched m p m' p' \<longleftrightarrow>
     (\<forall>a. m a \<noteq> None \<and> p \<noteq> Ptr a \<longrightarrow> m' a = m a) \<and> (\<forall>a. p' = Ptr a \<longrightarrow> p = Ptr a \<or> m a = None)"

lemma touched_refl [simp]: "touched m p m p"
  by (simp add: touched_def)

lemma touched_trans: "touched m p m1 p1 \<Longrightarrow> touched m1 p1 m2 p2 \<Longrightarrow> touched m p m2 p2"
  unfolding touched_def by metis

lemma touched_update [simp]: "touched m (Ptr a) (m(a := x)) (Ptr a)" "touched m (Ptr a) (m(a := x)) Null"
  by (simp_all add: touched_def)

lemma touched_new: "m a = None \<Longrightarrow> touched m p (m(a := x)) (Ptr a)"
  by (auto simp: touched_def)

lemma touched_Null [simp]: "touched m p m Null"
  by (simp add: touched_def)

definition touches :: "ssh_tables \<Rightarrow> SSHSession \<Rightarrow> ssh_tables \<Rightarrow> SSHSession \<Rightarrow> bool" where
  "touches tb s tb' s' \<longleftrightarrow>
     touched (st_sessions tb) (ss_ssh_session s) (st_sessions tb') (ss_ssh_session s') \<and>
     touched (st_channels tb) (ss_sftp_session s) (st_channels tb') (ss_sftp_session s') \<and>
     touched (st_files tb) (ss_file_handle s) (st_files tb') (ss_file_handle s') \<and>
     ss_address s' = ss_address s \<and> ss_port s' = ss_port s"

lemma touches_refl [simp]: "touches tb s tb s"
  by (simp add: touches_def)

lemma touches_trans: "touches tb s tb1 s1 \<Longrightarrow> touches tb1 s1 tb2 s2 \<Longrightarrow> touches tb s tb2 s2"
  unfolding touches_def by (blast intro: touched_trans dest: trans)

text \<open>An open session whose pointers and cached path are what the tables say.\<close>

definition session_live :: "ssh_tables \<Rightarrow> SSHSession \<Rightarrow> bool" where
  "session_live tb s \<longleftrightarrow>
     (\<exists>h t f pos. ss_ssh_session s = Ptr h \<and> ss_sftp_session s = Ptr t \<and> ss_file_handle s = Ptr f \<and>
        st_sessions tb h = Some (ss_address s, ss_port s) \<and> st_channels tb t = Some h \<and>
        st_files tb f = Some (t, ss_file_open s, pos))"

subsection \<open>The calls\<close>

lemma disconnect_touches:
  assumes "libssh_documented L T disk" and "SSHSession_disconnect L s w = Inr (s', w')"
  shows "touches (T w) s (T w') s' \<and> session_closed s'"
proof -
  note free = ssh_laws(7-9) [OF assms(1)] sftp_laws(4,7) [OF assms(1)]
  show ?thesis
    using assms(2)
    by (cases "ss_file_handle s"; cases "ss_sftp_session s"; cases "ss_ssh_session s")
      (auto simp: SSHSession_disconnect_def Let_def touches_def session_closed_def free)
qed

lemma do_read_touches:
  assumes "libssh_documented L T disk" and "session_live (T w) s" and "SSHSession_do_read L offset n s w = Inr ((k, d), w')"
  shows "touches (T w) s (T w') s \<and> session_live (T w') s \<and>
    (0 \<le> k \<longrightarrow> portion (disk (ss_address s) (ss_port s) (ss_file_open s)) offset n k d)"
proof -
  obtain h t f pos where s: "ss_ssh_session s = Ptr h" "ss_sftp_session s = Ptr t" "ss_file_handle s = Ptr f"
    and tb: "st_sessions (T w) h = Some (ss_address s, ss_port s)" "st_channels (T w) t = Some h"
      "st_files (T w) f = Some (t, ss_file_open s, pos)"
    using assms(2) by (auto simp: session_live_def)
  obtain ok w1 where seek: "l_sftp_seek64 L f offset w = (ok, w1)" by fastforce
  note T1 = file_laws(1) [OF assms(1) tb(3) seek]
  show ?thesis
  proof (cases ok)
    case False
    with assms(2,3) T1 s(3) seek show ?thesis by (simp add: SSHSession_do_read_def)
  next
    case True
    then have rd: "l_sftp_read L f n w1 = ((k, d), w')" using assms(3) s(3) seek by (simp add: SSHSession_do_read_def)
    have "st_files (T w1) f = Some (t, ss_file_open s, offset)" "st_channels (T w1) t = Some h"
      "st_sessions (T w1) h = Some (ss_address s, ss_port s)" using T1 True tb by simp_all
    from file_laws(2) [OF assms(1) this(1) rd this(2,3)] obtain pos' where
      "T w' = (T w1)\<lparr>st_files := (st_files (T w1))(f \<mapsto> (t, ss_file_open s, pos'))\<rparr>"
      "0 \<le> k \<longrightarrow> portion (disk (ss_address s) (ss_port s) (ss_file_open s)) offset n k d" by blast
    with T1 True s tb show ?thesis by (auto simp: touches_def session_live_def)
  qed
qed

text \<open>The tables while a connection is made: an SSH session for the host, an SFTP session over it, the file.\<close>

lemma set_options_touches:
  assumes "libssh_documented L T disk" and "l_ssh_new L w = (Some h, w0)"
    and "l_ssh_options_set_host L h a w0 = (ok1, w1)" and "(if ok1 then l_ssh_options_set_port L h p w1 else (False, w1)) = (ok2, w2)"
  shows "st_sessions (T w) h = None"
    and "\<exists>x. T w2 = (T w)\<lparr>st_sessions := (st_sessions (T w))(h \<mapsto> x)\<rparr> \<and> (ok1 \<and> ok2 \<longrightarrow> x = (a, p))"
proof -
  obtain b q where new: "st_sessions (T w) h = None" and T0: "T w0 = (T w)\<lparr>st_sessions := (st_sessions (T w))(h \<mapsto> (b, q))\<rparr>"
    using ssh_laws(2) [OF assms(1,2)] by auto
  have T1: "T w1 = (T w)\<lparr>st_sessions := (st_sessions (T w))(h \<mapsto> (if ok1 then a else b, q))\<rparr>"
    using ssh_laws(3) [OF assms(1,3), of b q] T0 by simp
  show "\<exists>x. T w2 = (T w)\<lparr>st_sessions := (st_sessions (T w))(h \<mapsto> x)\<rparr> \<and> (ok1 \<and> ok2 \<longrightarrow> x = (a, p))"
  proof (cases ok1)
    case True
    with assms(4) have "l_ssh_options_set_port L h p w1 = (ok2, w2)" by simp
    from ssh_laws(4) [OF assms(1) this, of a q] T1 True show ?thesis by (cases ok2) auto
  qed (use T1 assms(4) in auto)
  show "st_sessions (T w) h = None" by (rule new)
qed

lemma do_connect_run:
  fixes s :: SSHSession
  assumes "l_ssh_new L w = (Some h, w0)" and "l_ssh_options_set_host L h (ss_address s) w0 = (ok1, w1)"
    and "(if ok1 then l_ssh_options_set_port L h (ss_port s) w1 else (False, w1)) = (ok2, w2)"
    and "l_ssh_connect L h w2 = (ok3, w3)" and "l_ssh_userauth_publickey_auto L h w3 = (ok4, w4)"
    and "l_sftp_new L h w4 = (t, w5)" and "l_sftp_init L (the t) w5 = (ok6, w6)" and "l_sftp_open L (the t) path w6 = (f, w7)"
  defines "s1 \<equiv> s\<lparr>ss_ssh_session := Ptr h\<rparr>" and "s2 \<equiv> s\<lparr>ss_ssh_session := Ptr h, ss_sftp_session := ptr_of t\<rparr>"
  shows "SSHSession_do_connect L path s w =
    (if \<not> (ok1 \<and> ok2) then (True, s1, w2) else if \<not> ok3 then (True, s1, w3) else if \<not> ok4 then (True, s1, w4)
     else if t = None then (True, s2, w5) else if \<not> ok6 then (True, s2, w6)
     else if f = None then (True, s2\<lparr>ss_file_handle := Null\<rparr>, w7)
     else (False, s2\<lparr>ss_file_handle := Ptr (the f), ss_file_open := path\<rparr>, w7))"
  using assms(1-8) by (cases ok1) (auto simp: SSHSession_do_connect_def s1_def s2_def Let_def ptr_of_def)

lemma do_connect_touches:
  assumes "libssh_documented L T disk" and "SSHSession_do_connect L path s w = (err, s', w')"
  shows "touches (T w) s (T w') s' \<and> (\<not> err \<longrightarrow> session_live (T w') s' \<and> ss_file_open s' = path)"
proof (cases "l_ssh_new L w")
  case (Pair r w0)
  show ?thesis
  proof (cases r)
    case None
    with assms(2) Pair ssh_laws(1) [OF assms(1), of w w0] show ?thesis by (auto simp: SSHSession_do_connect_def touches_def)
  next
    case (Some h)
    obtain ok1 w1 ok2 w2 where o: "l_ssh_options_set_host L h (ss_address s) w0 = (ok1, w1)"
      "(if ok1 then l_ssh_options_set_port L h (ss_port s) w1 else (False, w1)) = (ok2, w2)" by (metis surj_pair)
    obtain ok3 w3 ok4 w4 where c: "l_ssh_connect L h w2 = (ok3, w3)" "l_ssh_userauth_publickey_auto L h w3 = (ok4, w4)" by (metis surj_pair)
    obtain t w5 ok6 w6 f w7 where t: "l_sftp_new L h w4 = (t, w5)" "l_sftp_init L (the t) w5 = (ok6, w6)" "l_sftp_open L (the t) path w6 = (f, w7)"
      by (metis surj_pair)
    obtain x where new: "st_sessions (T w) h = None" and T2: "T w2 = (T w)\<lparr>st_sessions := (st_sessions (T w))(h \<mapsto> x)\<rparr>"
      and x: "ok1 \<and> ok2 \<Longrightarrow> x = (ss_address s, ss_port s)"
      using set_options_touches [OF assms(1) Pair [unfolded Some] o] by blast
    have T4: "T w3 = T w2" "T w4 = T w2" using ssh_laws(5) [OF assms(1) c(1)] ssh_laws(6) [OF assms(1) c(2)] by simp_all
    have T5: "t = None \<Longrightarrow> T w5 = T w2"
      "\<And>a. t = Some a \<Longrightarrow> st_channels (T w) a = None \<and> T w5 = (T w2)\<lparr>st_channels := (st_channels (T w))(a \<mapsto> h)\<rparr>"
      using sftp_laws(1,2) [OF assms(1), of h w4] t(1) T4(2) T2 by auto
    have T6: "T w6 = T w5" using sftp_laws(3) [OF assms(1) t(2)] .
    have T7: "f = None \<Longrightarrow> T w7 = T w5"
      "\<And>b. f = Some b \<Longrightarrow> st_files (T w5) b = None \<and> T w7 = (T w5)\<lparr>st_files := (st_files (T w5))(b \<mapsto> (the t, path, 0))\<rparr>"
      using sftp_laws(5,6) [OF assms(1), of "the t" path w6] t(3) T6 by auto
    note run = trans [OF do_connect_run [OF Pair [unfolded Some] o c t, symmetric] assms(2)]
    show ?thesis
    proof (cases "ok1 \<and> ok2 \<and> ok3 \<and> ok4 \<and> t \<noteq> None")
      case False
      have "T w' = T w2 \<and> (s' = s\<lparr>ss_ssh_session := Ptr h\<rparr> \<or> s' = s\<lparr>ss_ssh_session := Ptr h, ss_sftp_session := Null\<rparr>) \<and> err"
        using run False T4 T5 by (auto simp: ptr_of_def split: if_splits)
      with T2 new show ?thesis by (auto simp: touches_def touched_new)
    next
      case True
      then obtain a where a: "t = Some a" by blast
      with T5(2) have T5': "st_channels (T w) a = None" "T w5 = (T w2)\<lparr>st_channels := (st_channels (T w))(a \<mapsto> h)\<rparr>" by simp_all
      show ?thesis
      proof (cases "ok6 \<and> f \<noteq> None")
        case False
        have "T w' = T w5 \<and> (s' = s\<lparr>ss_ssh_session := Ptr h, ss_sftp_session := Ptr a\<rparr> \<or>
            s' = s\<lparr>ss_ssh_session := Ptr h, ss_sftp_session := Ptr a, ss_file_handle := Null\<rparr>) \<and> err"
          using run False True a T6 T7(1) by (auto split: if_splits)
        with T5' T2 new show ?thesis by (auto simp: touches_def touched_new)
      next
        case 2: True
        then obtain b where b: "f = Some b" by blast
        have "w' = w7" "s' = s\<lparr>ss_ssh_session := Ptr h, ss_sftp_session := Ptr a, ss_file_handle := Ptr b, ss_file_open := path\<rparr>"
          using run True 2 a b by auto
        with T7(2) [OF b] T5' T2 new x True a show ?thesis by (auto simp: touches_def touched_new session_live_def)
      qed
    qed
  qed
qed

text \<open>
  The states of a session between calls: never used, closed, or open as the tables say.
\<close>

definition session_ok :: "ssh_tables \<Rightarrow> SSHSession \<Rightarrow> bool" where
  "session_ok tb s \<longleftrightarrow>
     ss_ssh_session s = Uninit \<and> ss_sftp_session s = Uninit \<and> ss_file_handle s = Uninit \<or> session_closed s \<or> session_live tb s"

text \<open>What one call of \<^verbatim>\<open>read\<close> does.\<close>

definition reads :: "(string \<Rightarrow> u32 \<Rightarrow> string \<Rightarrow> bytes) \<Rightarrow> string \<Rightarrow> u64 \<Rightarrow> u64 \<Rightarrow> ssh_tables \<Rightarrow> SSHSession \<Rightarrow>
    int \<Rightarrow> bytes \<Rightarrow> SSHSession \<Rightarrow> ssh_tables \<Rightarrow> bool" where
  "reads disk path offset n tb s k d s' tb' \<longleftrightarrow>
     touches tb s tb' s' \<and> session_ok tb' s' \<and> (0 \<le> k \<longrightarrow> portion (disk (ss_address s) (ss_port s) path) offset n k d)"

lemma reads_after:
  "touches tb s tb1 s1 \<Longrightarrow> reads disk path offset n tb1 s1 k d s' tb' \<Longrightarrow> reads disk path offset n tb s k d s' tb'"
  using touches_trans [of tb s tb1 s1] by (auto simp: reads_def) (simp add: touches_def)

lemma do_read_reads:
  assumes "libssh_documented L T disk" and "session_live (T w) s" and "ss_file_open s = path"
    and "res_bind (SSHSession_do_read L offset n s w) (\<lambda>((k, d), w). if k \<ge> 0 then Inr ((k, d), s, w) else F k d w) = Inr ((k, d), s', w')"
    and "\<And>k1 d1 w1. k1 < 0 \<Longrightarrow> touches (T w) s (T w1) s \<Longrightarrow> F k1 d1 w1 = Inr ((k, d), s', w') \<Longrightarrow>
      reads disk path offset n (T w) s k d s' (T w')"
  shows "reads disk path offset n (T w) s k d s' (T w')"
proof -
  obtain k1 d1 w1 where r: "SSHSession_do_read L offset n s w = Inr ((k1, d1), w1)"
    using assms(4) by (auto simp: res_bind_eq_Inr)
  note t = do_read_touches [OF assms(1,2) r]
  show ?thesis
  proof (cases "0 \<le> k1")
    case True
    with assms(3,4) r t show ?thesis by (auto simp: reads_def session_ok_def)
  next
    case False
    with assms(4) r have "F k1 d1 w1 = Inr ((k, d), s', w')" by simp
    with assms(5) [of k1 w1 d1] False t show ?thesis by simp
  qed
qed

lemma fresh_read_reads:
  assumes "libssh_documented L T disk" and "SSHSession_fresh_read L path offset n s w = Inr ((k, d), s', w')"
  shows "reads disk path offset n (T w) s k d s' (T w')"
proof -
  obtain err s1 w1 where c: "SSHSession_connect L path s w = Inr (err, s1, w1)"
    using assms(2) by (auto simp: SSHSession_fresh_read_def res_bind_eq_Inr)
  obtain e s0 w0 where dc: "SSHSession_do_connect L path s w = (e, s0, w0)" by (metis prod_cases3)
  note t = do_connect_touches [OF assms(1) dc]
  have closed: "reads disk path offset n (T w) s k d s' (T w')"
    if "touches (T w) s (T w2) s2" "SSHSession_disconnect L s2 w2 = Inr (s', w')" "k < 0" for s2 w2
    using disconnect_touches [OF assms(1) that(2)] touches_trans [OF that(1)] that(3) by (auto simp: reads_def session_ok_def)
  show ?thesis
  proof (cases e)
    case True
    with c dc assms(2) t show ?thesis
      by (intro closed [of w0 s0]) (auto simp: SSHSession_connect_def SSHSession_fresh_read_def res_bind_eq_Inr)
  next
    case False
    with c dc have eq: "err = False" "s1 = s0" "w1 = w0" by (auto simp: SSHSession_connect_def)
    have "reads disk path offset n (T w0) s0 k d s' (T w')"
    proof (rule do_read_reads [OF assms(1), where F = "\<lambda>k d w. res_bind (SSHSession_disconnect L s0 w) (\<lambda>(s, w). Inr ((k, d), s, w))"])
      show "session_live (T w0) s0" "ss_file_open s0 = path" using t False by simp_all
    qed (use assms(2) c eq disconnect_touches [OF assms(1)] in
        \<open>auto simp: SSHSession_fresh_read_def reads_def session_ok_def res_bind_eq_Inr intro: touches_trans\<close>)
    with t reads_after show ?thesis by blast
  qed
qed

lemma session_read_reads:
  assumes "libssh_documented L T disk" and "session_ok (T w) s" and "SSHSession_read L path offset n s w = Inr ((k, d), s', w')"
  shows "reads disk path offset n (T w) s k d s' (T w')"
proof (cases "session_live (T w) s \<and> ss_file_open s = path")
  case True
  then obtain t where "ss_sftp_session s = Ptr t" by (auto simp: session_live_def)
  with True assms(3) have run: "res_bind (SSHSession_do_read L offset n s w) (\<lambda>((k, d), w). if k \<ge> 0 then Inr ((k, d), s, w)
      else res_bind (SSHSession_disconnect L s w) (\<lambda>(s, w). SSHSession_fresh_read L path offset n s w)) = Inr ((k, d), s', w')"
    by (simp add: SSHSession_read_def)
  show ?thesis
  proof (rule do_read_reads [OF assms(1) _ _ run])
    fix k1 d1 w1
    assume t: "touches (T w) s (T w1) s"
      and "res_bind (SSHSession_disconnect L s w1) (\<lambda>(s, w). SSHSession_fresh_read L path offset n s w) = Inr ((k, d), s', w')"
    then obtain s2 w2 where d: "SSHSession_disconnect L s w1 = Inr (s2, w2)"
      and f: "SSHSession_fresh_read L path offset n s2 w2 = Inr ((k, d), s', w')" by (auto simp: res_bind_eq_Inr)
    have "touches (T w) s (T w2) s2" using disconnect_touches [OF assms(1) d] t by (blast intro: touches_trans)
    from reads_after [OF this fresh_read_reads [OF assms(1) f]] show "reads disk path offset n (T w) s k d s' (T w')" .
  qed (use True in simp_all)
next
  case False
  with assms(2,3) have "SSHSession_fresh_read L path offset n s w = Inr ((k, d), s', w')"
    by (auto simp: SSHSession_read_def session_ok_def session_closed_def split: if_splits)
  from fresh_read_reads [OF assms(1) this] show ?thesis .
qed

subsection \<open>All sessions of a node\<close>

text \<open>No two sessions of a manager have a handle in common.\<close>

definition apart :: "SSHSession \<Rightarrow> SSHSession \<Rightarrow> bool" where
  "apart s x \<longleftrightarrow>
     (\<forall>a. (ss_ssh_session s = Ptr a \<longrightarrow> ss_ssh_session x \<noteq> Ptr a) \<and> (ss_sftp_session s = Ptr a \<longrightarrow> ss_sftp_session x \<noteq> Ptr a) \<and>
        (ss_file_handle s = Ptr a \<longrightarrow> ss_file_handle x \<noteq> Ptr a))"

definition sessions_ok :: "ssh_tables \<Rightarrow> SSHManager \<Rightarrow> bool" where
  "sessions_ok tb sm \<longleftrightarrow>
     (\<forall>i s. sm i = Some s \<longrightarrow> session_ok tb s) \<and> (\<forall>i j s x. i \<noteq> j \<longrightarrow> sm i = Some s \<longrightarrow> sm j = Some x \<longrightarrow> apart s x)"

lemma sessions_ok_new [simp]: "sessions_ok tb SSHManager_new"
  by (simp add: sessions_ok_def SSHManager_new_def)

lemma apart_sym: "apart s x \<Longrightarrow> apart x s"
  by (auto simp: apart_def)

text \<open>Reading through one session leaves the others as they are, and apart from it.\<close>

lemma touches_apart:
  assumes "touches tb s tb' s'" and "session_ok tb x" and "apart s x"
  shows "session_ok tb' x" and "apart s' x"
proof -
  show "session_ok tb' x"
  proof (cases "session_live tb x")
    case True
    then obtain h t f pos where "ss_ssh_session x = Ptr h" "ss_sftp_session x = Ptr t" "ss_file_handle x = Ptr f"
      and "st_sessions tb h = Some (ss_address x, ss_port x)" "st_channels tb t = Some h" "st_files tb f = Some (t, ss_file_open x, pos)"
      by (auto simp: session_live_def)
    moreover from this assms(1,3) have "st_sessions tb' h = st_sessions tb h" "st_channels tb' t = st_channels tb t" "st_files tb' f = st_files tb f"
      unfolding touches_def touched_def apart_def by (metis option.distinct(1))+
    ultimately show ?thesis by (simp add: session_ok_def session_live_def)
  qed (use assms(2) in \<open>auto simp: session_ok_def\<close>)
  have own: "(ss_ssh_session x = Ptr a \<longrightarrow> st_sessions tb a \<noteq> None) \<and> (ss_sftp_session x = Ptr a \<longrightarrow> st_channels tb a \<noteq> None) \<and>
      (ss_file_handle x = Ptr a \<longrightarrow> st_files tb a \<noteq> None)" for a
    using assms(2) by (auto simp: session_ok_def session_live_def session_closed_def)
  show "apart s' x" using assms(1,3) own unfolding touches_def touched_def apart_def by metis
qed

lemma sessions_ok_insert:
  assumes "sessions_ok tb sm"
  shows "sessions_ok tb (snd (SSHManager_insertHost i a p sm))"
  using assms by (auto simp: sessions_ok_def SSHManager_insertHost_def session_ok_def SSHSession_new_def apart_def)

lemma manager_read:
  assumes "libssh_documented L T disk" and "sessions_ok (T w) sm" and "sm i = Some s"
    and "SSHManager_read L i path offset n sm w = Inr ((k, d), sm', w')"
  obtains s' where "sm' = sm(i \<mapsto> s')" and "sessions_ok (T w') sm'" and "reads disk path offset n (T w) s k d s' (T w')"
proof -
  obtain s' where rd: "SSHSession_read L path offset n s w = Inr ((k, d), s', w')" and sm': "sm' = sm(i \<mapsto> s')"
    using assms(3,4) by (auto simp: SSHManager_read_def res_bind_eq_Inr)
  have ok: "session_ok (T w) s" using assms(2,3) by (simp add: sessions_ok_def)
  have r: "reads disk path offset n (T w) s k d s' (T w')" by (rule session_read_reads [OF assms(1) ok rd])
  then have t: "touches (T w) s (T w') s'" "session_ok (T w') s'" by (simp_all add: reads_def)
  have other: "session_ok (T w') x" "apart s' x" if "sm j = Some x" "j \<noteq> i" for j x
  proof -
    have "session_ok (T w) x" "apart s x" using assms(2,3) that unfolding sessions_ok_def by metis+
    from touches_apart [OF t(1) this] show "session_ok (T w') x" "apart s' x" .
  qed
  have "sessions_ok (T w') sm'"
    unfolding sessions_ok_def
  proof (intro conjI allI impI)
    fix j x assume "sm' j = Some x"
    with t(2) other(1) sm' show "session_ok (T w') x" by (cases "j = i") auto
  next
    fix j l x y assume "j \<noteq> l" "sm' j = Some x" "sm' l = Some y"
    with other(2) apart_sym assms(2) sm' show "apart x y" by (cases "j = i"; cases "l = i") (auto simp: sessions_ok_def)
  qed
  with sm' r show thesis by (intro that)
qed

subsection \<open>A library that does what is documented\<close>

text \<open>
  \<open>table_libssh disk\<close> keeps the tables and the number of the next handle; everything succeeds as long as the next
  number is free.
\<close>

definition table_read :: "(string \<Rightarrow> u32 \<Rightarrow> string \<Rightarrow> bytes) \<Rightarrow> nat \<Rightarrow> u64 \<Rightarrow> ssh_tables \<times> nat \<Rightarrow> (int \<times> bytes) \<times> ssh_tables \<times> nat" where
  "table_read disk f n w =
     (case st_files (fst w) f of
        None \<Rightarrow> ((-1, []), w)
      | Some (t, path, pos) \<Rightarrow>
          (case Option.bind (st_channels (fst w) t) (st_sessions (fst w)) of
             None \<Rightarrow> ((-1, []), w)
           | Some (a, p) \<Rightarrow>
               let d = take (unat n) (drop (unat pos) (disk a p path))
               in ((int (length d), d), (fst w)\<lparr>st_files := (st_files (fst w))(f \<mapsto> (t, path, pos + of_nat (length d)))\<rparr>, snd w)))"

definition table_libssh :: "(string \<Rightarrow> u32 \<Rightarrow> string \<Rightarrow> bytes) \<Rightarrow> (ssh_tables \<times> nat) libssh" where
  "table_libssh disk =
     \<lparr>l_ssh_new = (\<lambda>(tb, c). if st_sessions tb c = None then (Some c, tb\<lparr>st_sessions := (st_sessions tb)(c \<mapsto> ([], 22))\<rparr>, Suc c) else (None, tb, c)),
      l_ssh_options_set_host = (\<lambda>h a (tb, c). (True, tb\<lparr>st_sessions := (st_sessions tb)(h \<mapsto> (a, snd (the (st_sessions tb h))))\<rparr>, c)),
      l_ssh_options_set_port = (\<lambda>h p (tb, c). (True, tb\<lparr>st_sessions := (st_sessions tb)(h \<mapsto> (fst (the (st_sessions tb h)), p))\<rparr>, c)),
      l_ssh_connect = (\<lambda>h w. (True, w)),
      l_ssh_userauth_publickey_auto = (\<lambda>h w. (True, w)),
      l_sftp_new = (\<lambda>h (tb, c). if st_channels tb c = None then (Some c, tb\<lparr>st_channels := (st_channels tb)(c \<mapsto> h)\<rparr>, Suc c) else (None, tb, c)),
      l_sftp_init = (\<lambda>t w. (True, w)),
      l_sftp_open = (\<lambda>t path (tb, c). if st_files tb c = None then (Some c, tb\<lparr>st_files := (st_files tb)(c \<mapsto> (t, path, 0))\<rparr>, Suc c) else (None, tb, c)),
      l_sftp_seek64 = (\<lambda>f pos (tb, c). case st_files tb f of None \<Rightarrow> (False, tb, c)
        | Some (t, path, _) \<Rightarrow> (True, tb\<lparr>st_files := (st_files tb)(f \<mapsto> (t, path, pos))\<rparr>, c)),
      l_sftp_read = table_read disk,
      l_sftp_close = (\<lambda>f (tb, c). (tb\<lparr>st_files := (st_files tb)(f := None)\<rparr>, c)),
      l_sftp_free = (\<lambda>t (tb, c). (tb\<lparr>st_channels := (st_channels tb)(t := None)\<rparr>, c)),
      l_ssh_disconnect = (\<lambda>h w. w),
      l_ssh_free = (\<lambda>h (tb, c). (case h of None \<Rightarrow> tb | Some a \<Rightarrow> tb\<lparr>st_sessions := (st_sessions tb)(a := None)\<rparr>, c))\<rparr>"

lemma table_libssh_documented: "libssh_documented (table_libssh disk) fst disk"
proof -
  have "ssh_documented (table_libssh disk) fst" by (auto simp: ssh_documented_def table_libssh_def)
  moreover have "sftp_documented (table_libssh disk) fst" by (auto simp: sftp_documented_def table_libssh_def)
  moreover have "file_documented (table_libssh disk) fst disk"
    by (auto simp: file_documented_def table_libssh_def table_read_def portion_def Let_def)
  ultimately show ?thesis by (simp add: libssh_documented_def)
qed

definition no_tables :: ssh_tables where
  "no_tables = \<lparr>st_sessions = Map.empty, st_channels = Map.empty, st_files = Map.empty\<rparr>"

definition sample_disk :: "string \<Rightarrow> u32 \<Rightarrow> string \<Rightarrow> bytes" where
  "sample_disk a p path = (if path = ''/slave/x'' then [5, 6, 7, 8] else if path = ''/slave/y'' then [1] else [])"

subsection \<open>Two reads at the same time\<close>

text \<open>The two calls that \<^verbatim>\<open>do_read\<close> makes.\<close>

definition SSHSession_do_read_seek :: "'w libssh \<Rightarrow> u64 \<Rightarrow> SSHSession \<Rightarrow> 'w \<Rightarrow> (bool \<times> 'w) result" where
  "SSHSession_do_read_seek L offset s w =
     res_bind (ptr_test (ss_file_handle s)) (\<lambda>f. res_bind (of_option NullDeref f) (\<lambda>f. Inr (l_sftp_seek64 L f offset w)))"

definition SSHSession_do_read_fetch :: "'w libssh \<Rightarrow> u64 \<Rightarrow> SSHSession \<Rightarrow> 'w \<Rightarrow> ((int \<times> bytes) \<times> 'w) result" where
  "SSHSession_do_read_fetch L n s w =
     res_bind (ptr_test (ss_file_handle s)) (\<lambda>f. res_bind (of_option NullDeref f) (\<lambda>f. Inr (l_sftp_read L f n w)))"

lemma do_read_calls:
  "SSHSession_do_read L offset n s w =
     res_bind (SSHSession_do_read_seek L offset s w) (\<lambda>(ok, w). if \<not> ok then Inr ((-1, []), w) else SSHSession_do_read_fetch L n s w)"
  by (cases "ss_file_handle s") (simp_all add: SSHSession_do_read_def SSHSession_do_read_seek_def SSHSession_do_read_fetch_def split: prod.split)

lemma seek_live:
  assumes "libssh_documented L T disk" and "session_live (T w) s" and "SSHSession_do_read_seek L offset s w = Inr (True, w')"
  shows "session_live (T w') s" and "\<exists>f t. ss_file_handle s = Ptr f \<and> st_files (T w') f = Some (t, ss_file_open s, offset)"
proof -
  obtain h t f pos where s: "ss_ssh_session s = Ptr h" "ss_sftp_session s = Ptr t" "ss_file_handle s = Ptr f"
    and tb: "st_sessions (T w) h = Some (ss_address s, ss_port s)" "st_channels (T w) t = Some h"
      "st_files (T w) f = Some (t, ss_file_open s, pos)"
    using assms(2) by (auto simp: session_live_def)
  have "l_sftp_seek64 L f offset w = (True, w')" using assms(3) s(3) by (simp add: SSHSession_do_read_seek_def)
  note file_laws(1) [OF assms(1) tb(3) this]
  with s tb show "session_live (T w') s" "\<exists>f t. ss_file_handle s = Ptr f \<and> st_files (T w') f = Some (t, ss_file_open s, offset)"
    by (auto simp: session_live_def)
qed

lemma fetch_live:
  assumes "libssh_documented L T disk" and "session_live (T w) s" and "ss_file_handle s = Ptr f" and "st_files (T w) f = Some (t, ss_file_open s, offset)"
    and "SSHSession_do_read_fetch L n s w = Inr ((k, d), w')" and "0 \<le> k"
  shows "portion (disk (ss_address s) (ss_port s) (ss_file_open s)) offset n k d"
proof -
  obtain h where "st_channels (T w) t = Some h" "st_sessions (T w) h = Some (ss_address s, ss_port s)"
    using assms(2-4) by (auto simp: session_live_def)
  moreover have "l_sftp_read L f n w = ((k, d), w')" using assms(3,5) by (simp add: SSHSession_do_read_fetch_def)
  ultimately show ?thesis using file_laws(2) [OF assms(1,4)] assms(6) by blast
qed

lemma portion_first:
  assumes "portion c a n k d" and "d \<noteq> []" and "unat a < length c"
  shows "d ! 0 = c ! unat a"
proof -
  obtain zs where eq: "take (unat n) (drop (unat a) c) = d @ zs" using assms(1) by (auto simp: portion_def prefix_def)
  with assms(2) have "0 < unat n" by (cases "unat n") auto
  then have "take (unat n) (drop (unat a) c) ! 0 = c ! unat a" using assms(3) by simp
  with eq assms(2) show ?thesis by (simp add: nth_append)
qed

definition sample_open :: SSHSession where
  "sample_open = \<lparr>ss_address = ''10.0.0.7'', ss_port = 22, ss_ssh_session = Ptr 0, ss_sftp_session = Ptr 1, ss_file_handle = Ptr 2, ss_file_open = ''/slave/x''\<rparr>"

definition sample_tables :: ssh_tables where
  "sample_tables = \<lparr>st_sessions = [0 \<mapsto> (''10.0.0.7'', 22)], st_channels = [1 \<mapsto> 0], st_files = [2 \<mapsto> (1, ''/slave/x'', 0)]\<rparr>"

subsection \<open>Properties\<close>

text \<open>
  A read over SFTP returns octets of the file asked for. On a library that does what is documented, in
  whatever order a node has read files of several hosts, closed sessions after errors and connected again: when
  \<^verbatim>\<open>SSHManager::read\<close> reports success, the octets are those that the host of the session has at the path, from the
  offset on, at most as many as asked for and none only at the end of the file, whether a cached
  handle was used or a new one; and the handles stay in order for the next call.
\<close>

theorem sftp_read_portion:
  assumes "libssh_documented L T disk" and "sessions_ok (T w) sm" and "sm i = Some s"
    and "SSHManager_read L i path offset n sm w = Inr ((k, d), sm', w')"
  shows "(0 \<le> k \<longrightarrow> portion (disk (ss_address s) (ss_port s) path) offset n k d) \<and> sessions_ok (T w') sm' \<and>
    (\<forall>j. j \<noteq> i \<longrightarrow> sm' j = sm j) \<and> (\<exists>s'. sm' i = Some s' \<and> ss_address s' = ss_address s \<and> ss_port s' = ss_port s)"
  by (rule manager_read [OF assms]) (auto simp: reads_def touches_def)

theorem sftp_read_portion_witness:
  "\<exists>k d sm' w'. SSHManager_read (table_libssh sample_disk) 2 ''/slave/x'' 1 2
      (snd (SSHManager_insertHost 2 ''10.0.0.7'' 22 SSHManager_new)) (no_tables, 0) = Inr ((k, d), sm', w') \<and>
    k = 2 \<and> portion (sample_disk ''10.0.0.7'' 22 ''/slave/x'') 1 2 k d \<and> sessions_ok (fst w') sm'"
proof -
  let ?sm = "snd (SSHManager_insertHost 2 ''10.0.0.7'' 22 SSHManager_new)"
  obtain s where s: "?sm 2 = Some s" "s = SSHSession_new ''10.0.0.7'' 22" by (simp add: SSHManager_insertHost_def SSHManager_new_def)
  have ok: "sessions_ok (fst (no_tables, 0 :: nat)) ?sm" by (simp add: sessions_ok_insert)
  obtain d sm' w' where "SSHManager_read (table_libssh sample_disk) 2 ''/slave/x'' 1 2 ?sm (no_tables, 0) = Inr ((2, d), sm', w')"
    using s by (simp add: SSHManager_read_def SSHSession_read_def SSHSession_fresh_read_def SSHSession_connect_def SSHSession_do_connect_def
        SSHSession_do_read_def SSHSession_new_def table_libssh_def table_read_def no_tables_def sample_disk_def Let_def)
  from sftp_read_portion [OF table_libssh_documented ok s(1) this] this s(2) show ?thesis by (auto simp: SSHSession_new_def)
qed

text \<open>
  \<^bold>\<open>C33\<close>. Two reads of one file get mixed up. \<^verbatim>\<open>main\<close> lets FUSE run several threads, and all reads from one host
  share a session and its handle without a lock. When a second read moves the position of the handle between the two calls of a first one, the
  first read returns octets from the offset of the second, as many as the library gives, and not those it was asked for
  whenever the file has different octets at the two offsets.
\<close>

theorem concurrent_reads_mix_offsets:
  fixes s :: SSHSession
  assumes "libssh_documented L T disk" and "session_live (T w) s"
    and "SSHSession_do_read_seek L offset1 s w = Inr (True, w1)" and "SSHSession_do_read_seek L offset2 s w1 = Inr (True, w2)"
    and "SSHSession_do_read_fetch L n s w2 = Inr ((k, d), w3)" and "0 < k"
  defines "c \<equiv> disk (ss_address s) (ss_port s) (ss_file_open s)"
  shows "portion c offset2 n k d \<and>
    (unat offset1 < length c \<and> unat offset2 < length c \<and> c ! unat offset1 \<noteq> c ! unat offset2 \<longrightarrow> \<not> portion c offset1 n k d)"
proof -
  note live = seek_live(1) [OF assms(1) seek_live(1) [OF assms(1-3)] assms(4)]
  obtain f t where f: "ss_file_handle s = Ptr f" "st_files (T w2) f = Some (t, ss_file_open s, offset2)"
    using seek_live(2) [OF assms(1) seek_live(1) [OF assms(1-3)] assms(4)] by blast
  have p: "portion c offset2 n k d" unfolding c_def by (rule fetch_live [OF assms(1) live f assms(5)]) (use assms(6) in simp)
  with assms(6) have "d \<noteq> []" by (auto simp: portion_def)
  with p portion_first [of c _ n k d] show ?thesis by metis
qed

theorem concurrent_reads_mix_offsets_witness:
  "\<exists>w1 w2 w3. SSHSession_do_read_seek (table_libssh sample_disk) 0 sample_open (sample_tables, 3) = Inr (True, w1) \<and>
    SSHSession_do_read_seek (table_libssh sample_disk) 2 sample_open w1 = Inr (True, w2) \<and>
    SSHSession_do_read_fetch (table_libssh sample_disk) 2 sample_open w2 = Inr ((2, [7, 8]), w3) \<and>
    \<not> portion [5, 6, 7, 8] 0 2 2 [7, 8]"
proof -
  let ?L = "table_libssh sample_disk"
  obtain w1 w2 w3 where r: "SSHSession_do_read_seek ?L 0 sample_open (sample_tables, 3) = Inr (True, w1)"
    "SSHSession_do_read_seek ?L 2 sample_open w1 = Inr (True, w2)" "SSHSession_do_read_fetch ?L 2 sample_open w2 = Inr ((2, [7, 8]), w3)"
    by (simp add: SSHSession_do_read_seek_def SSHSession_do_read_fetch_def table_libssh_def table_read_def sample_tables_def sample_open_def
        sample_disk_def Let_def)
  have live: "session_live (fst (sample_tables, 3 :: nat)) sample_open" by (simp add: session_live_def sample_open_def sample_tables_def)
  have "\<not> portion [5, 6, 7, 8] 0 2 2 [7, 8]"
    using concurrent_reads_mix_offsets [OF table_libssh_documented live r] by (simp add: sample_open_def sample_disk_def)
  with r show ?thesis by blast
qed

end
