(* ===== verification/Mounted.thy ===== *)
theory Mounted
  imports Network_Hosts Sftp_Service Fuse_Interface
begin

section \<open>A network whose nodes are read from\<close>

text \<open>
  The network together with the file systems that its nodes mount: between the events of the network the
  master and the slaves serve reads, in any order. A read keeps SSH sessions open for later ones, so what it
  returns depends on everything read before; the invariant here says that each session a node keeps goes
  to the host whose id it is kept under. Each process has its own state of the library, \<open>mt_worlds\<close>.
\<close>

subsection \<open>Definitions\<close>

text \<open>\<open>None\<close> is the master, \<open>Some h\<close> the slave on link \<open>h\<close>.\<close>

type_synonym node_name = "nat option"

record 'w mounted =
  mt_net :: network
  mt_worlds :: "node_name \<Rightarrow> 'w"

fun is_node :: "node_name \<Rightarrow> network \<Rightarrow> bool" where
  "is_node None n = True"
| "is_node (Some h) n = (h < length (n_links n))"

fun node_at :: "node_name \<Rightarrow> network \<Rightarrow> UserFS" where
  "node_at None n = n_master n"
| "node_at (Some h) n = l_slave (n_links n ! h)"

fun put_node :: "node_name \<Rightarrow> UserFS \<Rightarrow> network \<Rightarrow> network" where
  "put_node None fs n = n\<lparr>n_master := fs\<rparr>"
| "put_node (Some h) fs n = map_link h (\<lambda>l. l\<lparr>l_slave := fs\<rparr>) n"

text \<open>
  \<open>files x\<close> is the local disk of node \<open>x\<close>. A slave arrives without SSH sessions.
\<close>

inductive mounted_step ::
    "boost_archive \<Rightarrow> (string \<Rightarrow> string list) \<Rightarrow> (string \<Rightarrow> string \<Rightarrow> string) \<Rightarrow> (node_name \<Rightarrow> string \<Rightarrow> local_file) \<Rightarrow> 'w libssh \<Rightarrow>
       'w mounted \<Rightarrow> 'w mounted \<Rightarrow> bool"
  for B path_elements path_append files L where
  network: "net_enabled B ev (mt_net c) \<Longrightarrow> net_handle B ev (mt_net c) = Inr n' \<Longrightarrow> net_bounds B n' \<Longrightarrow>
    (\<And>s addr. ev = SlaveArrives s addr \<Longrightarrow> u_ssh_manager s = SSHManager_new) \<Longrightarrow>
    mounted_step B path_elements path_append files L c (c\<lparr>mt_net := n'\<rparr>)"
| served: "is_node x (mt_net c) \<Longrightarrow>
    FUSE_read path_elements path_append (files x) L path sz offset (FUSE_initialize (node_at x (mt_net c))) (mt_worlds c x) = Inr (r, Some fs, w) \<Longrightarrow>
    mounted_step B path_elements path_append files L c
      (c\<lparr>mt_net := put_node x fs (mt_net c), mt_worlds := (mt_worlds c)(x := w)\<rparr>)"

subsection \<open>What a read does to a node\<close>

text \<open>The sessions a node may keep, by what it knows of the hosts.\<close>

definition addressed :: "Hosts \<Rightarrow> SSHManager \<Rightarrow> bool" where
  "addressed hs sm \<longleftrightarrow>
     (\<forall>i s. sm i = Some s \<longrightarrow> i \<noteq> 0 \<longrightarrow>
        (\<exists>host. Hosts_at hs i = Inr host \<and> ss_address s = h_address host \<and> ss_port s = ucast (h_ssh_port host)))"

lemma addressed_new [simp]: "addressed hs SSHManager_new"
  by (simp add: addressed_def SSHManager_new_def)

lemma Hosts_at_prefix: "Hosts_at hs i = Inr host \<Longrightarrow> prefix hs hs' \<Longrightarrow> Hosts_at hs' i = Inr host"
  by (auto simp: Hosts_at_def prefix_def nth_append split: if_splits)

lemma addressed_mono: "addressed hs sm \<Longrightarrow> prefix hs hs' \<Longrightarrow> addressed hs' sm"
  unfolding addressed_def using Hosts_at_prefix by metis

definition below_root :: "string \<Rightarrow> string" where
  "below_root path = (if hd path = CHR ''/'' then drop 1 path else path)"

text \<open>The octets that a node gets for a path of the member \<open>i\<close> with the given host.\<close>

definition served_octets :: "(string \<Rightarrow> u32 \<Rightarrow> string \<Rightarrow> bytes) \<Rightarrow> (string \<Rightarrow> local_file) \<Rightarrow> UserFS \<Rightarrow> u64 \<Rightarrow> Host \<Rightarrow> string \<Rightarrow> u64 \<Rightarrow> u64 \<Rightarrow> int \<Rightarrow> bytes \<Rightarrow> bool" where
  "served_octets disk files fs i host path offset n k d \<longleftrightarrow>
     (if i = u_host_id fs then (k, d) = ifstream_read (files path) offset n
      else 0 \<le> k \<longrightarrow> portion (disk (h_address host) (ucast (h_ssh_port host)) path) offset n k d)"

lemma UserFS_read_ok:
  assumes "libssh_documented L T disk" and "sessions_ok (T w) (u_ssh_manager fs)" and "addressed hs (u_ssh_manager fs)"
    and "\<And>host. i \<noteq> 0 \<Longrightarrow> Hosts_at (u_hosts fs) i = Inr host \<Longrightarrow> Hosts_at hs i = Inr host"
    and "UserFS_read path_append files L i path offset n fs w = Inr ((k, d), fs', w')"
  obtains sm host where "fs' = fs\<lparr>u_ssh_manager := sm\<rparr>" and "sessions_ok (T w') sm" and "addressed hs sm"
    and "Hosts_at (u_hosts fs) i = Inr host"
    and "i \<noteq> 0 \<longrightarrow> served_octets disk files fs i host (path_append (h_working_dir host) (below_root path)) offset n k d"
proof -
  let ?sm = "u_ssh_manager fs"
  obtain host where host: "Hosts_at (u_hosts fs) i = Inr host" using assms(5) by (auto simp: UserFS_read_def res_bind_eq_Inr split: if_splits)
  let ?sm1 = "if ?sm i = None then ?sm(i \<mapsto> SSHSession_new (h_address host) (h_ssh_port host)) else ?sm"
  have ok: "sessions_ok (T w) ?sm1" using sessions_ok_insert [OF assms(2), of i "h_address host" "h_ssh_port host"] assms(2)
    by (auto simp: SSHManager_insertHost_def split: if_splits)
  have adr: "addressed hs ?sm1" using assms(3) assms(4) [OF _ host] by (auto simp: addressed_def SSHSession_new_def)
  let ?path = "path_append (h_working_dir host) (below_root path)"
  have run: "(if i = u_host_id fs then Inr (ifstream_read (files ?path) offset n, fs\<lparr>u_ssh_manager := ?sm1\<rparr>, w)
      else res_bind (SSHManager_read L i ?path offset n ?sm1 w) (\<lambda>(r, sm, w). Inr (r, fs\<lparr>u_ssh_manager := sm\<rparr>, w))) = Inr ((k, d), fs', w')"
    using assms(5) host by (auto simp: UserFS_read_def SSHManager_findHost_def SSHManager_insertHost_def below_root_def Let_def split: if_splits)
  show thesis
  proof (cases "i = u_host_id fs")
    case True
    with run ok adr host show thesis by (intro that [of ?sm1 host]) (auto simp: served_octets_def)
  next
    case False
    obtain s where s: "?sm1 i = Some s" by (cases "?sm i") auto
    obtain sm' where rd: "SSHManager_read L i ?path offset n ?sm1 w = Inr ((k, d), sm', w')" and fs': "fs' = fs\<lparr>u_ssh_manager := sm'\<rparr>"
      using run False by (auto simp: res_bind_eq_Inr)
    obtain s' where s': "sm' = ?sm1(i \<mapsto> s')" "sessions_ok (T w') sm'" "reads disk ?path offset n (T w) s k d s' (T w')"
      by (rule manager_read [OF assms(1) ok s rd])
    have kept: "ss_address s' = ss_address s" "ss_port s' = ss_port s" using s'(3) by (simp_all add: reads_def touches_def)
    have "addressed hs sm'"
      unfolding addressed_def
    proof (intro allI impI)
      fix j x assume j: "sm' j = Some x" "j \<noteq> 0"
      with s'(1) kept s have "\<exists>y. ?sm1 j = Some y \<and> ss_address x = ss_address y \<and> ss_port x = ss_port y" by (cases "j = i") auto
      with adr j(2) show "\<exists>host. Hosts_at hs j = Inr host \<and> ss_address x = h_address host \<and> ss_port x = ucast (h_ssh_port host)"
        unfolding addressed_def by metis
    qed
    moreover have "served_octets disk files fs i host ?path offset n k d" if "i \<noteq> 0"
    proof -
      have "ss_address s = h_address host" "ss_port s = ucast (h_ssh_port host)"
        using adr s that assms(4) [OF that host] unfolding addressed_def by (metis sum.inject(2))+
      with False s'(3) show ?thesis by (simp add: served_octets_def reads_def)
    qed
    ultimately show thesis using that [OF fs' s'(2) _ host] by blast
  qed
qed

text \<open>A read answers without asking anybody, or asks the member whose id the node carries.\<close>

lemma FUSE_read_cases:
  assumes "FUSE_read path_elements path_append files L path sz offset (Some fs) w = Inr ((k, d), fi, w')"
  obtains (answered) "fi = Some fs" and "w' = w" and "k \<le> 0"
  | (asked) node b fs' where "UserFS_find path_elements path fs = Inr (Some node)" and "tn_type node \<noteq> DIRECTORY" and "fi = Some fs'"
      and "UserFS_read path_append files L (tn_host_id node) path offset sz fs w = Inr ((b, d), fs', w')"
      and "k = (if b < 0 then - EIO else to_int32 b)"
  using assms
  by (auto simp: FUSE_read_def res_bind_eq_Inr Let_def errno_defs split: option.splits if_splits)

subsection \<open>A read does not show in the network\<close>

lemma ssh_update_view [simp]:
  "conns (fs\<lparr>u_ssh_manager := sm\<rparr>) = conns fs" "posted (fs\<lparr>u_ssh_manager := sm\<rparr>) = posted fs" "accepting (fs\<lparr>u_ssh_manager := sm\<rparr>) = accepting fs"
  "root_children (fs\<lparr>u_ssh_manager := sm\<rparr>) = root_children fs" "messager (fs\<lparr>u_ssh_manager := sm\<rparr>) = messager fs"
  "master_role (fs\<lparr>u_ssh_manager := sm\<rparr>) = master_role fs" "conn_of (fs\<lparr>u_ssh_manager := sm\<rparr>) h = conn_of fs h"
  "posts h (fs\<lparr>u_ssh_manager := sm\<rparr>) = posts h fs"
  by (simp_all add: conns_def posted_def accepting_def root_children_def messager_def master_role_def conn_of_def posts_def)

lemma master_inv_ssh [simp]: "master_inv (fs\<lparr>u_ssh_manager := sm\<rparr>) = master_inv fs"
  by (simp add: master_inv_def tree_inv_def hosts_inv_def conns_inv_def slave_ids_def)

lemma link_inv_ssh:
  "link_inv B (m\<lparr>u_ssh_manager := sm\<rparr>) c qs l = link_inv B m c qs l"
  "link_inv B m c qs (l\<lparr>l_slave := (l_slave l)\<lparr>u_ssh_manager := sm\<rparr>\<rparr>) = link_inv B m c qs l"
proof -
  show "link_inv B (m\<lparr>u_ssh_manager := sm\<rparr>) c qs l = link_inv B m c qs l" by (rule link_inv_quiet) simp_all
  have "told_inv B m i ((l_slave l)\<lparr>u_ssh_manager := sm\<rparr>) ps = told_inv B m i (l_slave l) ps" for i ps by (rule told_inv_view) simp_all
  then show "link_inv B m c qs (l\<lparr>l_slave := (l_slave l)\<lparr>u_ssh_manager := sm\<rparr>\<rparr>) = link_inv B m c qs l"
    by (simp add: link_inv_def node_inv_def conn_inv_def up_inv_def down_inv_def due_def)
qed

lemma put_node_sel:
  fixes n :: network and sm :: SSHManager
  assumes "is_node x n"
  defines "n' \<equiv> put_node x ((node_at x n)\<lparr>u_ssh_manager := sm\<rparr>) n"
  shows "\<exists>sm0. n_master n' = (n_master n)\<lparr>u_ssh_manager := sm0\<rparr>" and "length (n_links n') = length (n_links n)"
    and "h < length (n_links n) \<Longrightarrow> \<exists>sm0. n_links n' ! h = (n_links n ! h)\<lparr>l_slave := (l_slave (n_links n ! h))\<lparr>u_ssh_manager := sm0\<rparr>\<rparr>"
    and "is_node y n' = is_node y n" and "is_node y n \<Longrightarrow> node_at y n' = (node_at y n)\<lparr>u_ssh_manager := (if y = x then sm else u_ssh_manager (node_at y n))\<rparr>"
proof -
  show "\<exists>sm0. n_master n' = (n_master n)\<lparr>u_ssh_manager := sm0\<rparr>" 
    by (cases x) (auto simp: n'_def intro: exI [of _ "u_ssh_manager (n_master n)"])
  show "length (n_links n') = length (n_links n)" by (cases x) (simp_all add: n'_def)
  show "\<exists>sm0. n_links n' ! h = (n_links n ! h)\<lparr>l_slave := (l_slave (n_links n ! h))\<lparr>u_ssh_manager := sm0\<rparr>\<rparr>" if "h < length (n_links n)"
    using that by (cases x) (auto simp: n'_def map_link_nth intro: exI [of _ "u_ssh_manager (l_slave (n_links n ! h))"])
  show "is_node y n' = is_node y n" by (cases x; cases y) (simp_all add: n'_def)
  show "node_at y n' = (node_at y n)\<lparr>u_ssh_manager := (if y = x then sm else u_ssh_manager (node_at y n))\<rparr>" if "is_node y n"
    using that by (cases x; cases y) (simp_all add: n'_def map_link_nth)
qed

text \<open>Everything that is known of the network holds of it after a read.\<close>

lemma put_node_keeps:
  fixes n :: network and sm :: SSHManager
  assumes "is_node x n"
  defines "n' \<equiv> put_node x ((node_at x n)\<lparr>u_ssh_manager := sm\<rparr>) n"
  shows "net_inv B n \<Longrightarrow> net_inv B n'" and "origin m0 n \<Longrightarrow> origin m0 n'" and "all_heard B n \<Longrightarrow> all_heard B n'"
    and "u_hosts (n_master n') = u_hosts (n_master n)"
proof -
  note sel = put_node_sel [OF assms(1), where sm = sm, folded n'_def]
  obtain sm1 where m: "n_master n' = (n_master n)\<lparr>u_ssh_manager := sm1\<rparr>" using sel(1) by blast
  then show hosts: "u_hosts (n_master n') = u_hosts (n_master n)" by simp
  have len: "length (n_links n') = length (n_links n)" by (rule sel(2))
  have "link_inv B (n_master n') c qs (n_links n' ! h) = link_inv B (n_master n) c qs (n_links n ! h)" if "h < length (n_links n)" for c qs h
    using sel(3) [OF that] by (auto simp: m link_inv_ssh)
  moreover have "update_of B (n_master n') = update_of B (n_master n)" by (simp add: m update_of_def)
  ultimately show "net_inv B n'" if "net_inv B n"
    using that by (simp add: net_inv_def net_bounds_def fits_def posts_ok_def m len)
  have start: "l_start (n_links n' ! h) = l_start (n_links n ! h)" "l_addr (n_links n' ! h) = l_addr (n_links n ! h)"
    if "h < length (n_links n)" for h using sel(3) [OF that] by auto
  show "origin m0 n'" if "origin m0 n"
    using that start slave_origin_link [of "n_links n' ! _"] by (simp add: origin_def m len slave_origin_def)
  have "heard B hs (n_links n' ! h) = heard B hs (n_links n ! h)" if "h < length (n_links n)" for hs h
    using sel(3) [OF that] by (auto simp: heard_def)
  then show "all_heard B n'" if "all_heard B n" using that by (simp add: all_heard_def len hosts)
qed

lemma net_event_grows:
  assumes "net_handle B ev n = Inr n'" and "length (n_links n) < length (n_links n')"
  shows "\<exists>s addr. ev = SlaveArrives s addr"
  using assms by (cases ev) (auto simp: res_bind_eq_Inr master_moves_kept simp del: master_moves.simps)

subsection \<open>The invariant\<close>

definition mounted_inv :: "boost_archive \<Rightarrow> ('w \<Rightarrow> ssh_tables) \<Rightarrow> UserFS \<Rightarrow> 'w mounted \<Rightarrow> bool" where
  "mounted_inv B T m0 c \<longleftrightarrow>
     net_inv B (mt_net c) \<and> origin m0 (mt_net c) \<and> all_heard B (mt_net c) \<and>
     (\<forall>x. is_node x (mt_net c) \<longrightarrow> sessions_ok (T (mt_worlds c x)) (u_ssh_manager (node_at x (mt_net c))) \<and>
        addressed (u_hosts (n_master (mt_net c))) (u_ssh_manager (node_at x (mt_net c))))"

text \<open>Whichever node it is: a host that it knows by an id other than 0 is the master's host at this id.\<close>

lemma node_host:
  assumes "net_inv B n" and "all_heard B n" and "is_node x n" and "Hosts_at (u_hosts (node_at x n)) i = Inr host" and "i \<noteq> 0"
  shows "Hosts_at (u_hosts (n_master n)) i = Inr host"
proof (cases x)
  case None
  with assms(4) show ?thesis by simp
next
  case (Some h)
  let ?l = "n_links n ! h"
  have h: "h < length (n_links n)" using assms(3) Some by simp
  have "slave_ready B (l_start ?l)" using link_invD(1) [OF net_inv_link [OF assms(1) h]] by (simp add: node_inv_def)
  then have one: "length (u_hosts (l_start ?l)) = 1" by (simp add: slave_ready_def)
  have "unat i \<noteq> 0" using assms(5) by (simp add: unat_eq_0)
  then have "\<not> u_hosts (l_slave ?l) = u_hosts (l_start ?l)" using assms(4) Some one by (auto simp: Hosts_at_def split: if_splits)
  moreover have "heard B (u_hosts (n_master n)) ?l" using assms(2) h by (simp add: all_heard_def)
  ultimately obtain m where "earlier B (u_hosts (n_master n)) m" "u_hosts (l_slave ?l) = u_hosts m" unfolding heard_def by blast
  with assms(4) Some have "Hosts_at (u_hosts m) i = Inr host" "prefix (u_hosts m) (u_hosts (n_master n))" by (simp_all add: earlier_def)
  then show ?thesis by (rule Hosts_at_prefix)
qed

lemma mounted_invD:
  assumes "mounted_inv B T m0 c"
  shows "net_inv B (mt_net c)" and "origin m0 (mt_net c)" and "all_heard B (mt_net c)"
    and "is_node x (mt_net c) \<Longrightarrow> sessions_ok (T (mt_worlds c x)) (u_ssh_manager (node_at x (mt_net c)))"
    and "is_node x (mt_net c) \<Longrightarrow> addressed (u_hosts (n_master (mt_net c))) (u_ssh_manager (node_at x (mt_net c)))"
  using assms by (simp_all add: mounted_inv_def)

lemma network_keeps:
  assumes "mounted_inv B T m0 c" and "net_enabled B ev (mt_net c)" and "net_handle B ev (mt_net c) = Inr n'" and "net_bounds B n'"
    and "\<And>s addr. ev = SlaveArrives s addr \<Longrightarrow> u_ssh_manager s = SSHManager_new"
  shows "mounted_inv B T m0 (c\<lparr>mt_net := n'\<rparr>)"
proof -
  let ?n = "mt_net c"
  note inv = mounted_invD [OF assms(1)]
  have n': "net_inv B n'" using net_event_ok [OF inv(1) assms(2)] assms(3,4) by auto
  have o: "origin m0 n'" by (rule origin_step [OF inv(2,1) assms(2,3)])
  have heard: "all_heard B n'" by (rule all_heard_step [OF inv(3,1) assms(2,3)])
  have grown: "prefix (u_hosts (n_master ?n)) (u_hosts (n_master n'))" by (rule net_event_hosts [OF inv(1) assms(2,3)])
  have "u_ssh_manager (node_at x n') = (if is_node x ?n then u_ssh_manager (node_at x ?n) else SSHManager_new)" if node: "is_node x n'" for x
  proof (cases x)
    case None
    with net_event_ssh(1) [OF assms(3)] show ?thesis by simp
  next
    case (Some h)
    show ?thesis
    proof (cases "h < length (n_links ?n)")
      case True
      with net_event_ssh(2) [OF assms(3)] Some show ?thesis by simp
    next
      case False
      then obtain s addr where ev: "ev = SlaveArrives s addr" using net_event_grows [OF assms(3)] node Some by auto
      with assms(3,5) node False Some show ?thesis by (auto simp: res_bind_eq_Inr nth_append link_new_def less_Suc_eq simp del: slave_handle.simps dest!: slave_handle_ssh)
    qed
  qed
  then have "sessions_ok (T (mt_worlds c x)) (u_ssh_manager (node_at x n')) \<and> addressed (u_hosts (n_master n')) (u_ssh_manager (node_at x n'))"
    if "is_node x n'" for x
    using inv(4,5) [of x] addressed_mono [OF _ grown] that by auto
  with n' o heard show ?thesis by (simp add: mounted_inv_def)
qed

lemma read_keeps:
  assumes "libssh_documented L T disk" and "mounted_inv B T m0 c" and "is_node x (mt_net c)"
    and "FUSE_read path_elements path_append files L path sz offset (FUSE_initialize (node_at x (mt_net c))) (mt_worlds c x) = Inr (r, Some fs, w)"
  shows "mounted_inv B T m0 (c\<lparr>mt_net := put_node x fs (mt_net c), mt_worlds := (mt_worlds c)(x := w)\<rparr>)"
proof -
  let ?n = "mt_net c" and ?fs = "node_at x (mt_net c)"
  note inv = mounted_invD [OF assms(2)]
  obtain k d where r: "r = (k, d)" by fastforce
  have "\<exists>sm. fs = ?fs\<lparr>u_ssh_manager := sm\<rparr> \<and> sessions_ok (T w) sm \<and> addressed (u_hosts (n_master ?n)) sm"
    using assms(4) [unfolded r FUSE_initialize_def]
  proof (cases rule: FUSE_read_cases)
    case answered
    with inv(4,5) [OF assms(3)] show ?thesis by (intro exI [of _ "u_ssh_manager ?fs"]) simp
  next
    case (asked node b fs')
    obtain sm where "fs' = ?fs\<lparr>u_ssh_manager := sm\<rparr>" "sessions_ok (T w) sm" "addressed (u_hosts (n_master ?n)) sm"
      by (rule UserFS_read_ok [OF assms(1) inv(4) [OF assms(3)] inv(5) [OF assms(3)] node_host [OF inv(1,3) assms(3)] asked(4)])
    with asked(3) show ?thesis by auto
  qed
  then obtain sm where sm: "fs = ?fs\<lparr>u_ssh_manager := sm\<rparr>" "sessions_ok (T w) sm" "addressed (u_hosts (n_master ?n)) sm" by blast
  note kept = put_node_keeps [OF assms(3), where sm = sm]
  note sel = put_node_sel [OF assms(3), where sm = sm]
  have "sessions_ok (T (((mt_worlds c)(x := w)) y)) (u_ssh_manager (node_at y (put_node x fs ?n))) \<and>
      addressed (u_hosts (n_master ?n)) (u_ssh_manager (node_at y (put_node x fs ?n)))" if "is_node y ?n" for y
    using sel(5) [OF that] sm inv(4,5) [OF that] by simp
  with kept(1) [OF inv(1)] kept(2) [OF inv(2)] kept(3) [OF inv(3)] kept(4) sel(4) sm(1) show ?thesis by (simp add: mounted_inv_def)
qed

lemma mounted_run_inv:
  assumes "libssh_documented L T disk" and "(mounted_step B path_elements path_append files L)\<^sup>*\<^sup>* c0 c" and "mounted_inv B T m0 c0"
  shows "mounted_inv B T m0 c"
  using assms(2,3)
proof (induction rule: rtranclp_induct)
  case (step c1 c2)
  note inv = step(3) [OF step(4)]
  from step(2) show ?case
  proof (cases rule: mounted_step.cases)
    case (network ev n')
    from network_keeps [OF inv network(2-5)] network(1) show ?thesis by simp
  next
    case (served x path sz offset r fs w)
    from read_keeps [OF assms(1) inv served(2,3)] served(1) show ?thesis by simp
  qed
qed simp

definition mounted_initial :: "boost_archive \<Rightarrow> 'w mounted \<Rightarrow> bool" where
  "mounted_initial B c \<longleftrightarrow> net_initial B (mt_net c) \<and> u_ssh_manager (n_master (mt_net c)) = SSHManager_new"

lemma mounted_initial_inv:
  assumes "mounted_initial B c"
  shows "mounted_inv B T (n_master (mt_net c)) c"
proof -
  have n: "net_initial B (mt_net c)" "n_links (mt_net c) = []" using assms by (simp_all add: mounted_initial_def net_initial_def)
  have "u_ssh_manager (node_at x (mt_net c)) = SSHManager_new" if "is_node x (mt_net c)" for x
    using that assms n(2) by (cases x) (simp_all add: mounted_initial_def)
  with net_initial_inv [OF n(1)] origin_run [OF n(1) run_start] show ?thesis by (simp add: mounted_inv_def all_heard_def n(2))
qed

text \<open>The nodes that show the tree of the master: the master itself, and at rest every slave that is connected.\<close>

definition up_to_date :: "boost_archive \<Rightarrow> node_name \<Rightarrow> network \<Rightarrow> bool" where
  "up_to_date B x n \<longleftrightarrow> (case x of None \<Rightarrow> True | Some h \<Rightarrow> net_at_rest B n \<and> both_open h n)"

lemma up_to_date_view:
  assumes "net_inv B n" and "up_to_date B x n"
  shows "is_node x n" and "root_children (node_at x n) = root_children (n_master n)" and "u_hosts (node_at x n) = u_hosts (n_master n)"
  using assms rest_agrees(2) [OF assms(1)] by (auto simp: up_to_date_def both_open_def in_sync_def split: option.splits)

subsection \<open>What a read returns\<close>

text \<open>A path without \<^verbatim>\<open>.\<close> and \<^verbatim>\<open>..\<close> as the kernel passes it, by its components.\<close>

lemma find_plain:
  assumes "path_elements path = ''/'' # ks" and "''.'' \<notin> set ks" and "''..'' \<notin> set ks" and "u_dir_tree fs = Some r"
  shows "UserFS_find path_elements path fs = Inr (lookup_path r ks)"
proof -
  have "filter (\<lambda>e. e \<noteq> ''.'') ks = ks" using assms(2) by (auto simp: filter_id_conv)
  with assms show ?thesis by (simp add: UserFS_find_def DirTree_find_def find_loop_Some)
qed

lemma find_loop_no_tree: "''..'' \<notin> set es \<Longrightarrow> find_loop None es None = Inr None"
  by (induction es) auto

lemma member_id: "member n0 n i s host \<Longrightarrow> i \<noteq> 0"
  by (auto simp: member_def recognised_def)

text \<open>The member that a node finds its own files at is the node itself.\<close>

lemma own_member:
  assumes "net_inv B n" and "up_to_date B x n" and "member n0 n (u_host_id (node_at x n)) s host"
  shows "s = (case x of None \<Rightarrow> n_master n0 | Some h \<Rightarrow> l_start (n_links n ! h))"
proof (cases x)
  case None
  have id: "u_host_id (n_master n) = 1" and ids: "1 \<notin> set (slave_ids (n_master n))"
    using assms(1) by (auto simp: net_inv_def master_inv_def master_role_def conns_inv_def list_all_iff)
  have "mc_slave_id (conns (n_master n) ! h) \<noteq> 1" if "recognised h (n_master n)" for h
  proof
    assume "mc_slave_id (conns (n_master n) ! h) = 1"
    with that have "1 \<in> set (slave_ids (n_master n))" by (force simp: recognised_def slave_ids_def)
    with ids show False ..
  qed
  with assms(3) None id show ?thesis by (auto simp: member_def)
next
  case (Some h)
  then have rest: "net_at_rest B n" "both_open h n" using assms(2) by (simp_all add: up_to_date_def)
  have "u_host_id (l_slave (n_links n ! h)) = mc_slave_id (conns (n_master n) ! h)"
    using rest_agrees(3) [OF assms(1) rest] rest_known(2) [OF assms(1) rest] by simp
  from member_self(1) [OF assms(1) _ rest_known(1) [OF assms(1) rest], OF assms(3)] this Some show ?thesis by simp
qed

lemma found_at_node:
  assumes "net_initial B n0" and "net_inv B n" and "origin (n_master n0) n" and "up_to_date B x n"
    and "path_elements path = ''/'' # k # ks" and "''.'' \<notin> set (k # ks)" and "''..'' \<notin> set (k # ks)"
    and "UserFS_find path_elements path (node_at x n) = Inr (Some node)"
  shows "\<exists>s host own. member n0 n (tn_host_id node) s host \<and> Hosts_at (u_hosts (node_at x n)) (tn_host_id node) = Inr host \<and>
    lookup_path (own_tree s) (k # ks) = Some own \<and> node = marked (tn_host_id node) own"
proof -
  note view = up_to_date_view [OF assms(2,4)]
  obtain r where r: "u_dir_tree (node_at x n) = Some r" using assms(8) find_loop_no_tree assms(5-7)
    by (cases "u_dir_tree (node_at x n)") (auto simp: UserFS_find_def DirTree_find_def)
  have "lookup_path r (k # ks) = Some node" using find_plain [of path_elements path, OF assms(5-7) r] assms(8) by simp
  then obtain c where c: "set_find k (root_children (n_master n)) = Some c" "lookup_path c ks = Some node"
    using view(2) r by (auto simp: root_children_def split: option.splits)
  from found_entry [OF assms(1-3) c] view(3) show ?thesis by simp
qed

subsection \<open>The small network, mounted\<close>

definition sample_mounted :: "(ssh_tables \<times> nat) mounted" where
  "sample_mounted = \<lparr>mt_net = sample_net, mt_worlds = (\<lambda>_. (no_tables, 0))\<rparr>"

lemma internal_mounted:
  assumes "(net_internal_step B)\<^sup>*\<^sup>* n n'"
  shows "(mounted_step B path_elements path_append files L)\<^sup>*\<^sup>* (c\<lparr>mt_net := n\<rparr>) (c\<lparr>mt_net := n'\<rparr>) \<and>
    u_ssh_manager (n_master n') = u_ssh_manager (n_master n)"
  using assms
proof (induction rule: rtranclp_induct)
  case (step n1 n2)
  then obtain ev where ev: "net_internal ev" "net_enabled B ev n1" "net_handle B ev n1 = Inr n2" "net_bounds B n2" by (auto simp: step_of_def)
  have "mounted_step B path_elements path_append files L (c\<lparr>mt_net := n1\<rparr>) (c\<lparr>mt_net := n1\<rparr>\<lparr>mt_net := n2\<rparr>)"
    by (rule mounted_step.network) (use ev in auto)
  with step(3) net_event_ssh(1) [OF ev(3)] show ?case by (auto intro: rtranclp.rtrancl_into_rtrancl)
qed simp

lemma sample_mounts:
  obtains n where "(mounted_step tagged_archive path_elements path_append files L)\<^sup>*\<^sup>* sample_mounted (sample_mounted\<lparr>mt_net := n\<rparr>)"
    and "net_inv tagged_archive n" and "origin (n_master sample_net) n" and "u_ssh_manager (n_master n) = SSHManager_new"
    and "u_dir_tree (n_master n) = sample_merged"
proof -
  obtain n where n: "(net_internal_step tagged_archive)\<^sup>*\<^sup>* sample_arrived n" "net_run tagged_archive sample_net n"
    "u_dir_tree (n_master n) = sample_merged" by (rule sample_settles)
  have "mounted_step tagged_archive path_elements path_append files L sample_mounted (sample_mounted\<lparr>mt_net := sample_arrived\<rparr>)"
    by (rule mounted_step.network [where ev = "SlaveArrives sample_slave ''10.0.0.7''"])
      (use sample_arrival in \<open>auto simp: sample_mounted_def sample_slave_def UserFS_new_def simp del: net_handle.simps net_enabled.simps\<close>)
  with internal_mounted [OF n(1), of path_elements path_append files L sample_mounted] show thesis
    by (intro that [of n] net_run_inv [OF sample_net_initial n(2)] origin_run [OF sample_net_initial n(2)] n(3))
      (auto intro: converse_rtranclp_into_rtranclp simp: sample_arrived_def sample_net_def sample_net_master_def sample_master_def sample_scan_def UserFS_new_def)
qed

lemma sample_merged_slave_file:
  "\<exists>r. sample_merged = Some r \<and> lookup_path r [''master_file1''] = Some (TreeNode REGULAR 22 0 0 0 5 0 2 1 ''master_file1'' [])"
  by (simp add: sample_merged_def sample_master_def sample_scan_def merge_loop_def TreeNode_less_def sample_defs with_host_TreeNode
      UserFS_new_def)

lemma table_session_read:
  assumes "path \<noteq> []"
  shows "\<exists>s w. SSHSession_read (table_libssh disk) path 0 2 (SSHSession_new a p) (no_tables, 0) =
    Inr ((int (length (take 2 (disk a (ucast p) path))), take 2 (disk a (ucast p) path)), s, w) \<and> ss_file_handle s \<noteq> Uninit"
  using assms by (simp add: SSHSession_read_def SSHSession_fresh_read_def SSHSession_connect_def SSHSession_do_connect_def
      SSHSession_do_read_def SSHSession_new_def table_libssh_def table_read_def no_tables_def Let_def)

lemma sample_mounted_initial: "mounted_initial tagged_archive sample_mounted"
  using sample_net_initial by (simp add: mounted_initial_def sample_mounted_def)
    (simp add: sample_net_def sample_net_master_def sample_master_def sample_scan_def UserFS_new_def)

text \<open>The master reads a file of the slave.\<close>

lemma sample_remote_read:
  fixes L :: "(ssh_tables \<times> nat) libssh"
  assumes "L = table_libssh (\<lambda>_ _ _. [5, 6, 7])"
  obtains n fs w s where
    "(mounted_step tagged_archive (\<lambda>_. [''/'', ''master_file1'']) (\<lambda>a b. a @ ''/'' @ b) (\<lambda>_ _. NoFile) L)\<^sup>*\<^sup>* sample_mounted (sample_mounted\<lparr>mt_net := n\<rparr>)"
    and "FUSE_read (\<lambda>_. [''/'', ''master_file1'']) (\<lambda>a b. a @ ''/'' @ b) (\<lambda>_. NoFile) L ''/master_file1'' 2 0 (FUSE_initialize (n_master n)) (no_tables, 0) =
      Inr ((2, [5, 6]), Some fs, w)"
    and "u_ssh_manager fs = [2 \<mapsto> s]" and "ss_file_handle s \<noteq> Uninit"
proof -
  let ?pe = "\<lambda>_ :: string. [''/'', ''master_file1'']" and ?pa = "\<lambda>a b :: string. a @ ''/'' @ b" and ?L = "table_libssh (\<lambda>_ _ _. [5, 6, 7])"
  let ?files = "\<lambda>(_ :: node_name) (_ :: string). NoFile"
  obtain n where run: "(mounted_step tagged_archive ?pe ?pa ?files ?L)\<^sup>*\<^sup>* sample_mounted (sample_mounted\<lparr>mt_net := n\<rparr>)"
    and inv: "net_inv tagged_archive n" "origin (n_master sample_net) n" and ssh: "u_ssh_manager (n_master n) = SSHManager_new"
    and tree: "u_dir_tree (n_master n) = sample_merged" by (rule sample_mounts)
  obtain r where r: "sample_merged = Some r" "lookup_path r [''master_file1''] = Some (TreeNode REGULAR 22 0 0 0 5 0 2 1 ''master_file1'' [])"
    using sample_merged_slave_file by blast
  have find: "UserFS_find ?pe ''/master_file1'' (n_master n) = Inr (Some (TreeNode REGULAR 22 0 0 0 5 0 2 1 ''master_file1'' []))"
    using find_plain [of ?pe "''/master_file1''" "[''master_file1'']" "n_master n" r] r tree by simp
  obtain host where host: "Hosts_at (u_hosts (n_master n)) 2 = Inr host"
    using found_at_node [OF sample_net_initial inv, of None ?pe "''/master_file1''" "''master_file1''" "[]"] find by (auto simp: up_to_date_def)
  have id: "(2 :: u64) \<noteq> u_host_id (n_master n)" using inv(1) by (simp add: net_inv_def master_inv_def master_role_def)
  let ?s = "SSHSession_new (h_address host) (h_ssh_port host)"
  obtain s w where s: "SSHSession_read ?L (?pa (h_working_dir host) ''master_file1'') 0 2 ?s (no_tables, 0) = Inr ((2, [5, 6]), s, w)" "ss_file_handle s \<noteq> Uninit"
    using table_session_read [of "?pa (h_working_dir host) ''master_file1''" "\<lambda>_ _ _. [5, 6, 7]" "h_address host" "h_ssh_port host"] by auto
  have "UserFS_read ?pa (\<lambda>_. NoFile) ?L 2 ''/master_file1'' 0 2 (n_master n) (no_tables, 0) = Inr ((2, [5, 6]), (n_master n)\<lparr>u_ssh_manager := [2 \<mapsto> s]\<rparr>, w)"
    using remote_read [OF host id, of "''/master_file1''" "''master_file1''" ?pa "\<lambda>_. NoFile" ?L 0 2 "(no_tables, 0)"] ssh s(1) by (simp add: SSHManager_new_def)
  then have "FUSE_read ?pe ?pa (\<lambda>_. NoFile) ?L ''/master_file1'' 2 0 (FUSE_initialize (n_master n)) (no_tables, 0) =
      Inr ((2, [5, 6]), Some ((n_master n)\<lparr>u_ssh_manager := [2 \<mapsto> s]\<rparr>), w)"
    by (simp add: FUSE_read_def FUSE_initialize_def find to_int32_small)
  with that run s(2) assms show thesis by simp
qed

subsection \<open>Properties\<close>

text \<open>
  \<^bold>\<open>C5\<close>. A read returns the owner's octets. Take a network whose nodes have served any reads in between, on
  a libssh that does what is documented, and read a path at the master, or at a slave that is connected when the network is at
  rest. If the kernel gets a positive number of octets, then the path names a file that some member has scanned at this path, and the
  octets are a portion of that member's file from the offset on: of the file on the node's own disk if the
  member is the node itself, and otherwise of the file that the SSH server at the member's address and port has
  at the path below the member's directory, whatever sessions were opened, cached, broken and reopened before.
\<close>

theorem read_returns_owner_octets:
  fixes c :: "'w mounted"
  assumes "libssh_documented L T disk" and "mounted_initial B c0" and "(mounted_step B path_elements path_append files L)\<^sup>*\<^sup>* c0 c"
    and "up_to_date B x (mt_net c)" and "path_elements path = ''/'' # k # ks" and "''.'' \<notin> set (k # ks)" and "''..'' \<notin> set (k # ks)"
    and "FUSE_read path_elements path_append (files x) L path sz offset (FUSE_initialize (node_at x (mt_net c))) (mt_worlds c x) = Inr ((r, d), fi, w)"
    and "0 < r"
  shows "\<exists>node s host own. UserFS_find path_elements path (node_at x (mt_net c)) = Inr (Some node) \<and>
    member (mt_net c0) (mt_net c) (tn_host_id node) s host \<and> lookup_path (own_tree s) (k # ks) = Some own \<and> node = marked (tn_host_id node) own \<and>
    (let p = path_append (h_working_dir host) (below_root path)
     in if tn_host_id node = u_host_id (node_at x (mt_net c))
        then s = (case x of None \<Rightarrow> n_master (mt_net c0) | Some h \<Rightarrow> l_start (n_links (mt_net c) ! h)) \<and>
             ifstream_read (files x p) offset sz = (int (length d), d)
        else portion (disk (h_address host) (ucast (h_ssh_port host)) p) offset sz (int (length d)) d)"
proof -
  let ?n = "mt_net c" and ?fs = "node_at x (mt_net c)"
  have n0: "net_initial B (mt_net c0)" using assms(2) by (simp add: mounted_initial_def)
  note inv = mounted_invD [OF mounted_run_inv [OF assms(1,3) mounted_initial_inv [OF assms(2)]]]
  have x: "is_node x ?n" by (rule up_to_date_view(1) [OF inv(1) assms(4)])
  from assms(8) [unfolded FUSE_initialize_def] show ?thesis
  proof (cases rule: FUSE_read_cases)
    case answered
    with assms(9) show ?thesis by simp
  next
    case (asked node b fs')
    let ?i = "tn_host_id node"
    obtain s host own where m: "member (mt_net c0) ?n ?i s host" "Hosts_at (u_hosts ?fs) ?i = Inr host"
      "lookup_path (own_tree s) (k # ks) = Some own" "node = marked ?i own"
      using found_at_node [OF n0 inv(1,2) assms(4) assms(5-7) asked(1)] by blast
    obtain host' where "Hosts_at (u_hosts ?fs) ?i = Inr host'"
      and oct: "?i \<noteq> 0 \<longrightarrow> served_octets disk (files x) ?fs ?i host' (path_append (h_working_dir host') (below_root path)) offset sz b d"
      by (rule UserFS_read_ok [OF assms(1) inv(4) [OF x] inv(5) [OF x] node_host [OF inv(1,3) x] asked(4)])
    with m(2) have octets: "served_octets disk (files x) ?fs ?i host (path_append (h_working_dir host) (below_root path)) offset sz b d"
      using member_id [OF m(1)] by simp
    have "0 \<le> b" using asked(5) assms(9) by (auto simp: errno_defs split: if_splits)
    with octets have "b = int (length d)"
      by (auto simp: served_octets_def portion_def ifstream_read_def Let_def split: if_splits local_file.splits)
    moreover have "s = (case x of None \<Rightarrow> n_master (mt_net c0) | Some h \<Rightarrow> l_start (n_links ?n ! h))" if "?i = u_host_id ?fs"
      using own_member [OF inv(1) assms(4)] m(1) that by simp
    ultimately have "let p = path_append (h_working_dir host) (below_root path)
     in if ?i = u_host_id ?fs
        then s = (case x of None \<Rightarrow> n_master (mt_net c0) | Some h \<Rightarrow> l_start (n_links ?n ! h)) \<and> ifstream_read (files x p) offset sz = (int (length d), d)
        else portion (disk (h_address host) (ucast (h_ssh_port host)) p) offset sz (int (length d)) d"
      using octets by (simp add: served_octets_def Let_def split: if_splits)
    with asked(1) m(1,3,4) show ?thesis by blast
  qed
qed

theorem read_returns_owner_octets_witness:
  "\<exists>(c :: (ssh_tables \<times> nat) mounted) d fi w node s host own.
    (mounted_step tagged_archive (\<lambda>_. [''/'', ''master_file1'']) (\<lambda>a b. a @ ''/'' @ b) (\<lambda>_ _. NoFile) (table_libssh (\<lambda>_ _ _. [5, 6, 7])))\<^sup>*\<^sup>*
      sample_mounted c \<and>
    FUSE_read (\<lambda>_. [''/'', ''master_file1'']) (\<lambda>a b. a @ ''/'' @ b) (\<lambda>_. NoFile) (table_libssh (\<lambda>_ _ _. [5, 6, 7])) ''/master_file1'' 2 0
      (FUSE_initialize (node_at None (mt_net c))) (mt_worlds c None) = Inr ((2, d), fi, w) \<and>
    UserFS_find (\<lambda>_. [''/'', ''master_file1'']) ''/master_file1'' (node_at None (mt_net c)) = Inr (Some node) \<and>
    member sample_net (mt_net c) (tn_host_id node) s host \<and> lookup_path (own_tree s) [''master_file1''] = Some own \<and> d = [5, 6]"
proof -
  let ?pe = "\<lambda>_ :: string. [''/'', ''master_file1'']" and ?pa = "\<lambda>a b :: string. a @ ''/'' @ b" and ?L = "table_libssh (\<lambda>_ _ _. [5, 6, 7])"
  obtain n fs w where run: "(mounted_step tagged_archive ?pe ?pa (\<lambda>_ _. NoFile) ?L)\<^sup>*\<^sup>* sample_mounted (sample_mounted\<lparr>mt_net := n\<rparr>)"
    and rd: "FUSE_read ?pe ?pa (\<lambda>_. NoFile) ?L ''/master_file1'' 2 0 (FUSE_initialize (n_master n)) (no_tables, 0) = Inr ((2, [5, 6]), Some fs, w)"
    by (rule sample_remote_read [OF refl])
  let ?c = "sample_mounted\<lparr>mt_net := n\<rparr>"
  have read: "FUSE_read ?pe ?pa ((\<lambda>_ _. NoFile) (None :: node_name)) ?L ''/master_file1'' 2 0 (FUSE_initialize (node_at None (mt_net ?c))) (mt_worlds ?c None) =
      Inr ((2, [5, 6]), Some fs, w)" using rd by (simp add: sample_mounted_def)
  have "up_to_date tagged_archive None (mt_net ?c)" by (simp add: up_to_date_def)
  from read_returns_owner_octets [OF table_libssh_documented sample_mounted_initial run this _ _ _ read, of "''master_file1''" "[]"]
  obtain node s host own where "UserFS_find ?pe ''/master_file1'' (node_at None (mt_net ?c)) = Inr (Some node)"
    and "member (mt_net sample_mounted) (mt_net ?c) (tn_host_id node) s host" and "lookup_path (own_tree s) [''master_file1''] = Some own" by auto
  moreover have "mt_net sample_mounted = sample_net" by (simp add: sample_mounted_def)
  ultimately show ?thesis using run read by metis
qed

end
