(* ===== verification/End_To_End.thy ===== *)
theory End_To_End
  imports Mounted
begin

section \<open>From a shared directory to the mounted file systems\<close>

text \<open>
  The components together. Every node that is up to date gives the same answers as the master; and what a member
  has in its shared directory is what \<^verbatim>\<open>getattr\<close> reports at every such node: the scan, the message, the archive, the merge, the
  update and the lookup in one statement.
\<close>

subsection \<open>Lookups depend on the children of the root only\<close>

lemma find_loop_inside: "find_loop root es (Some n) = find_loop root' es (Some n)"
  by (induction es arbitrary: n) (auto split: option.splits)

lemma find_loop_same_children:
  assumes "tn_children r = tn_children q"
  shows "find_loop (Some r) es (Some r) = find_loop (Some q) es (Some q) \<or>
    find_loop (Some r) es (Some r) = Inr (Some r) \<and> find_loop (Some q) es (Some q) = Inr (Some q)"
proof (induction es)
  case (Cons e es)
  with assms find_loop_inside [of "Some r" es _ "Some q"] show ?case by (auto split: option.splits)
qed simp

lemma find_same_children:
  assumes "tn_children r = tn_children q"
  shows "find_loop (Some r) es None = find_loop (Some q) es None \<or>
    find_loop (Some r) es None = Inr (Some r) \<and> find_loop (Some q) es None = Inr (Some q)"
proof (induction es)
  case (Cons e es)
  with find_loop_same_children [OF assms] show ?case by auto
qed simp

text \<open>Two nodes with the same children of the root: a path leads to the same in both trees, or to the two roots.\<close>

lemma find_same_view:
  assumes "root_children fs = root_children fs'" and "u_dir_tree fs = Some r" and "u_dir_tree fs' = Some q"
  obtains (same) "UserFS_find path_elements path fs = UserFS_find path_elements path fs'"
  | (roots) "UserFS_find path_elements path fs = Inr (Some r)" and "UserFS_find path_elements path fs' = Inr (Some q)"
  using find_same_children [of r q "path_elements path"] assms by (auto simp: UserFS_find_def DirTree_find_def root_children_def)

lemma up_to_date_tree:
  assumes "net_inv B n" and "up_to_date B x n"
  shows "\<exists>r. u_dir_tree (node_at x n) = Some r"
proof (cases x)
  case None
  with assms(1) master_inv_tree [of "n_master n"] show ?thesis by (auto simp: net_inv_def)
next
  case (Some h)
  with up_to_date_view(1) [OF assms] link_invD(1) [OF net_inv_link [OF assms(1), of h]] show ?thesis by (auto simp: node_inv_def)
qed

lemma marked_data [simp]:
  "tn_type (marked i c) = tn_type c" "tn_size (marked i c) = tn_size c" "tn_mtime (marked i c) = tn_mtime c" "tn_num_links (marked i c) = tn_num_links c"
  by (cases c; simp add: marked_def with_host_TreeNode)+

lemma entry_at_known: "entry_at es k ks = Some e \<Longrightarrow> treenode_type (e_type e) \<noteq> UNKNOWN"
  by (induction es k ks rule: entry_at.induct) (auto simp: find_entry_def find_Some_iff split: option.splits)

subsection \<open>Ids and hosts of the nodes of a mounted tree\<close>

lemma net_heard_run:
  assumes "net_initial B n0" and "net_run B n0 n"
  shows "all_heard B n"
proof -
  have "net_inv B n0 \<and> all_heard B n0" using net_initial_inv [OF assms(1)] assms(1) by (simp add: all_heard_def net_initial_def)
  with net_heard.run_inv [OF assms(2)] show ?thesis by blast
qed

text \<open>A node below the root belongs to the host of a child of the root.\<close>

lemma found_child:
  assumes "u_dir_tree fs = Some r" and "lookup_path r (k # ks) = Some node" and "set (root_children fs) \<subseteq> set cs" and "uniform cs"
  shows "\<exists>c\<in>set cs. tn_host_id node = tn_host_id c"
proof -
  obtain c where c: "set_find k (root_children fs) = Some c" "lookup_path c ks = Some node"
    using assms(1,2) by (auto simp: root_children_def split: option.splits)
  have "uniform (root_children fs)" using assms(3,4) by (auto simp: uniform_def list_all_iff)
  from lookup_owner [OF this c] set_find_Some [OF c(1)] assms(3) show ?thesis by blast
qed

lemma master_host_known:
  assumes "master_inv m" and "c \<in> set (root_children m)"
  shows "\<exists>host. Hosts_at (u_hosts m) (tn_host_id c) = Inr host"
proof -
  have inv: "tree_inv m" "conns_inv m" "hosts_inv m" using assms(1) by (simp_all add: master_inv_def)
  with tree_inv_host_bound [OF inv assms(2)] show ?thesis by (simp add: Hosts_at_def hosts_inv_def)
qed

lemma node_host_known:
  assumes "net_inv B n" and "all_heard B n" and "is_node x n" and "u_dir_tree (node_at x n) = Some r" and "lookup_path r (k # ks) = Some node"
  shows "\<exists>host. Hosts_at (u_hosts (node_at x n)) (tn_host_id node) = Inr host"
proof (cases x)
  case None
  have m: "master_inv (n_master n)" "uniform (root_children (n_master n))" using assms(1) by (simp_all add: net_inv_def master_inv_def tree_inv_def)
  with found_child [OF assms(4,5), of "root_children (n_master n)"] master_host_known None show ?thesis by fastforce
next
  case (Some h)
  let ?l = "n_links n ! h"
  have h: "h < length (n_links n)" using assms(3) Some by simp
  have ready: "slave_ready B (l_start ?l)" using link_invD(1) [OF net_inv_link [OF assms(1) h]] by (simp add: node_inv_def)
  have "heard B (u_hosts (n_master n)) ?l" using assms(2) h by (simp add: all_heard_def)
  then consider (own) "u_hosts (l_slave ?l) = u_hosts (l_start ?l)" "set (root_children (l_slave ?l)) \<subseteq> set (root_children (l_start ?l))"
    | (told) m where "master_inv m" "u_hosts (l_slave ?l) = u_hosts m" "set (root_children (l_slave ?l)) \<subseteq> set (root_children m)"
    unfolding heard_def earlier_def by blast
  then show ?thesis
  proof cases
    case own
    have zero: "owned_by 0 c" if "c \<in> set (root_children (l_start ?l))" for c using ready that by (simp add: slave_ready_def list_all_iff)
    then have "uniform (root_children (l_start ?l))" by (auto simp: uniform_def list_all_iff owned_by_def)
    then obtain c where "c \<in> set (root_children (l_start ?l))" "tn_host_id node = tn_host_id c"
      using found_child [OF assms(4,5)] own(2) Some by auto
    with zero have "tn_host_id node = 0" by (auto simp: owned_by_def)
    moreover have "length (u_hosts (l_start ?l)) = 1" using ready by (simp add: slave_ready_def)
    ultimately show ?thesis using own(1) Some by (simp add: Hosts_at_def)
  next
    case told
    have "uniform (root_children m)" using told(1) by (simp add: master_inv_def tree_inv_def)
    with found_child [OF assms(4,5), of "root_children m"] told master_host_known [OF told(1)] Some show ?thesis by fastforce
  qed
qed

lemma session_read_bounds: "SSHSession_read L path offset n s w \<noteq> Inl OutOfBounds"
proof -
  have d: "SSHSession_disconnect L s w \<noteq> Inl OutOfBounds" for s w
    by (cases "ss_file_handle s"; cases "ss_sftp_session s"; cases "ss_ssh_session s") (simp_all add: SSHSession_disconnect_def Let_def)
  have r: "SSHSession_do_read L offset n s w \<noteq> Inl OutOfBounds" for s w
    by (cases "ss_file_handle s") (simp_all add: SSHSession_do_read_def split: prod.split)
  have c: "SSHSession_connect L path s w \<noteq> Inl OutOfBounds" for s w
    using d by (simp add: SSHSession_connect_def res_bind_eq_Inl split: prod.split)
  have f: "SSHSession_fresh_read L path offset n s w \<noteq> Inl OutOfBounds" for s w
    using c d r by (auto simp: SSHSession_fresh_read_def res_bind_eq_Inl split: if_splits prod.splits)
  show ?thesis
    using d r f by (cases "ss_sftp_session s") (auto simp: SSHSession_read_def res_bind_eq_Inl split: if_splits prod.splits)
qed

subsection \<open>Properties\<close>

text \<open>
  \<^bold>\<open>C7\<close>. One file system for all. In a network at rest any two nodes that are connected, the master
  included, answer alike: \<^verbatim>\<open>open\<close> at every path and with all flags, \<^verbatim>\<open>readdir\<close> at every path when both have scanned a directory,
  \<^verbatim>\<open>getattr\<close> at every path but that of the root, whose attributes are each node's own; also when the answer is an error or the
  assertion against \<^verbatim>\<open>..\<close> fails.
\<close>

theorem same_view_everywhere:
  assumes "net_initial B n0" and "net_run B n0 n" and "up_to_date B x n" and "up_to_date B y n"
  shows "FUSE_open path_elements path flags (Some (node_at x n)) = FUSE_open path_elements path flags (Some (node_at y n)) \<and>
    (tn_type (own_tree (node_at x n)) = DIRECTORY \<and> tn_type (own_tree (node_at y n)) = DIRECTORY \<longrightarrow>
       FUSE_readdir path_elements path (Some (node_at x n)) = FUSE_readdir path_elements path (Some (node_at y n))) \<and>
    (UserFS_find path_elements path (node_at x n) \<noteq> Inr (u_dir_tree (node_at x n)) \<longrightarrow>
       FUSE_getattr path_elements path (Some (node_at x n)) = FUSE_getattr path_elements path (Some (node_at y n)))"
proof -
  have inv: "net_inv B n" by (rule net_run_inv [OF assms(1,2)])
  have eq: "root_children (node_at x n) = root_children (node_at y n)"
    using up_to_date_view(2) [OF inv assms(3)] up_to_date_view(2) [OF inv assms(4)] by simp
  obtain r q where t: "u_dir_tree (node_at x n) = Some r" "u_dir_tree (node_at y n) = Some q"
    using up_to_date_tree [OF inv assms(3)] up_to_date_tree [OF inv assms(4)] by blast
  show ?thesis
    using eq t
  proof (cases rule: find_same_view [where path_elements = path_elements and path = path])
    case same
    then show ?thesis by (simp add: FUSE_open_def FUSE_readdir_def FUSE_getattr_def)
  next
    case roots
    moreover have "tn_children r = tn_children q" using eq t by (simp add: root_children_def)
    ultimately show ?thesis using t by (simp add: FUSE_open_def FUSE_readdir_def own_tree_def)
  qed
qed

theorem same_view_everywhere_witness:
  "\<exists>n. net_run tagged_archive sample_net n \<and> up_to_date tagged_archive None n \<and> up_to_date tagged_archive (Some 0) n \<and>
    FUSE_open b_elements ''/b.txt'' 0 (Some (node_at None n)) = FUSE_open b_elements ''/b.txt'' 0 (Some (node_at (Some 0) n))"
proof -
  obtain n where n: "net_run tagged_archive sample_net n" "net_at_rest tagged_archive n" "both_open 0 n" by (rule sample_settles)
  then have "up_to_date tagged_archive None n" "up_to_date tagged_archive (Some 0) n" by (simp_all add: up_to_date_def)
  with same_view_everywhere [OF sample_net_initial n(1) this] n(1) show ?thesis by blast
qed

text \<open>
  \<^bold>\<open>C6\<close>. A shared entry is seen everywhere, as it is. A slave has scanned its directory without error and is
  recognised; a path leads to an entry of this directory, below a name that nobody else uses. Then at every node that is
  up to date \<^verbatim>\<open>find\<close> leads the path to a node with the slave's id and the type, size, modification time and link count of the
  entry, and \<^verbatim>\<open>getattr\<close> succeeds and reports them.
\<close>

theorem entry_seen_everywhere:
  assumes "net_initial B n0" and "net_run B n0 n" and "up_to_date B x n" and "recognised h (n_master n)" and "unclashed n0 n h k"
    and "UserFS_initDirTree absolute junk now nl (Some es) wd fs0 = Inr fs" and "distinct_names es"
    and "u_dir_tree (l_start (n_links n ! h)) = u_dir_tree fs" and "entry_at es k ks = Some e"
    and "path_elements path = ''/'' # k # ks" and "''.'' \<notin> set (k # ks)" and "''..'' \<notin> set (k # ks)"
  shows "\<exists>node. UserFS_find path_elements path (node_at x n) = Inr (Some node) \<and>
    scanned (mc_slave_id (conns (n_master n) ! h)) node e \<and> tn_type node \<noteq> UNKNOWN \<and>
    FUSE_getattr path_elements path (FUSE_initialize (node_at x n)) =
      Inr (0, \<lparr>st_mode = the (mode_of (tn_type node)), st_nlink = the (e_hard_link_count e),
               st_size = sint (if tn_type node = DIRECTORY then 0 else the (e_file_size e)), st_mtime = sint (the (e_last_write_time e))\<rparr>)"
proof -
  have inv: "net_inv B n" by (rule net_run_inv [OF assms(1,2)])
  obtain r where r: "u_dir_tree (node_at x n) = Some r" using up_to_date_tree [OF inv assms(3)] by blast
  obtain m where m: "u_dir_tree (n_master n) = Some m" using inv master_inv_tree [of "n_master n"] by (auto simp: net_inv_def)
  let ?i = "mc_slave_id (conns (n_master n) ! h)"
  obtain t where t: "u_dir_tree fs = Some t" using assms(6) by (auto elim: initDirTree_ok)
  obtain own where own: "lookup_path t (k # ks) = Some own" "scanned (u_host_id fs0) own e"
    using initDirTree_lookup [OF assms(6,7) t, of k ks] assms(9) by (auto simp: option_rel_Some2)
  have "own_tree (l_start (n_links n ! h)) = t" using assms(8) t by (simp add: own_tree_def)
  with shared_entry_lookup [OF assms(1,2,4,5) _ m] own(1) have "lookup_path m (k # ks) = Some (marked ?i own)" by simp
  moreover have "tn_children r = tn_children m" using up_to_date_view(2) [OF inv assms(3)] r m by (simp add: root_children_def)
  ultimately have "lookup_path r (k # ks) = Some (marked ?i own)" by simp
  with find_plain [of path_elements path, OF assms(10-12) r] have find: "UserFS_find path_elements path (node_at x n) = Inr (Some (marked ?i own))" by simp
  have sc: "scanned ?i (marked ?i own) e" using own(2) by (simp add: scanned_def)
  have known: "tn_type (marked ?i own) \<noteq> UNKNOWN" using entry_at_known [OF assms(9)] sc by (simp add: scanned_def)
  then obtain mode where mode: "mode_of (tn_type (marked ?i own)) = Some mode" by (cases "tn_type (marked ?i own)") auto
  have "FUSE_getattr path_elements path (FUSE_initialize (node_at x n)) =
      Inr (0, \<lparr>st_mode = the (mode_of (tn_type (marked ?i own))), st_nlink = the (e_hard_link_count e),
               st_size = sint (if tn_type (marked ?i own) = DIRECTORY then 0 else the (e_file_size e)), st_mtime = sint (the (e_last_write_time e))\<rparr>)"
    using find mode sc by (auto simp: FUSE_getattr_def FUSE_initialize_def scanned_def split: if_splits)
  with find sc known show ?thesis by blast
qed

lemma standby_scan:
  "\<exists>fs. UserFS_initDirTree (\<lambda>d. d) (\<lambda>_. TreeNode REGULAR 0 0 0 0 0 0 0 0 [] []) 5 (Some 2)
      (Some [Entry ''standby1_file1'' regular_file (Some 22) (Some 5) (Some 1) None, Entry ''master_file1'' regular_file (Some 22) (Some 5) (Some 1) None])
      ''/standby'' UserFS_new = Inr fs \<and> u_dir_tree fs = Some standby_tree"
  by (simp add: UserFS_initDirTree_def add_trailing_slash_def Let_def sample_defs TreeNode_less_def UserFS_new_def)

theorem entry_seen_everywhere_witness:
  "\<exists>n node. net_run tagged_archive sample_net n \<and> up_to_date tagged_archive (Some 0) n \<and>
    UserFS_find (\<lambda>_. [''/'', ''master_file1'']) ''/master_file1'' (node_at (Some 0) n) = Inr (Some node) \<and>
    FUSE_getattr (\<lambda>_. [''/'', ''master_file1'']) ''/master_file1'' (FUSE_initialize (node_at (Some 0) n)) =
      Inr (0, \<lparr>st_mode = 0x8124, st_nlink = 1, st_size = 22, st_mtime = 5\<rparr>)"
proof -
  obtain n where n: "(net_internal_step tagged_archive)\<^sup>*\<^sup>* sample_arrived n" "net_run tagged_archive sample_net n"
    "net_at_rest tagged_archive n" "both_open 0 n" by (rule sample_settles)
  have inv: "net_inv tagged_archive n" by (rule net_run_inv [OF sample_net_initial n(2)])
  have up: "up_to_date tagged_archive (Some 0) n" using n(3,4) by (simp add: up_to_date_def)
  note links = sample_settled_links [OF n(1)]
  let ?es = "[Entry ''standby1_file1'' regular_file (Some 22) (Some 5) (Some 1) None, Entry ''master_file1'' regular_file (Some 22) (Some 5) (Some 1) None]"
  obtain fs where fs: "UserFS_initDirTree (\<lambda>d. d) (\<lambda>_. TreeNode REGULAR 0 0 0 0 0 0 0 0 [] []) 5 (Some 2) (Some ?es) ''/standby'' UserFS_new = Inr fs"
    "u_dir_tree fs = Some standby_tree" using standby_scan by blast
  have "u_dir_tree (l_start (n_links n ! 0)) = u_dir_tree fs"
    using internal_links_kept [OF n(1)] sample_arrived_facts(3) fs(2) by (simp add: sample_arrived_def link_new_def) (simp add: sample_slave_def)
  moreover have "entry_at ?es ''master_file1'' [] = Some (Entry ''master_file1'' regular_file (Some 22) (Some 5) (Some 1) None)"
    by (simp add: find_entry_def)
  ultimately obtain node where "UserFS_find (\<lambda>_. [''/'', ''master_file1'']) ''/master_file1'' (node_at (Some 0) n) = Inr (Some node)"
    "tn_type node = REGULAR" "FUSE_getattr (\<lambda>_. [''/'', ''master_file1'']) ''/master_file1'' (FUSE_initialize (node_at (Some 0) n)) =
      Inr (0, \<lparr>st_mode = the (mode_of (tn_type node)), st_nlink = 1, st_size = sint (if tn_type node = DIRECTORY then 0 else 22 :: u64), st_mtime = sint (5 :: u64)\<rparr>)"
    using entry_seen_everywhere [OF sample_net_initial n(2) up rest_known(1) [OF inv n(3,4)] sample_unclashed [OF links(1)] fs(1),
        of "[]" _ "\<lambda>_. [''/'', ''master_file1'']" "''/master_file1''"] by (auto simp: scanned_def)
  with n(2) up show ?thesis by auto
qed

text \<open>
  \<^bold>\<open>C8\<close>. A read never indexes the vector of hosts out of bounds. In every state of a network, at rest or not, at the master and
  at every slave, recognised, updated too early or disconnected: if a path below the root leads to a node of the mounted tree, the vector of hosts of
  this node has an entry at the id of the node, which is the master's entry at this id unless the id is 0, that of a slave
  without an id; and \<^verbatim>\<open>UserFS::read\<close> of the path does not access anything out of bounds.
\<close>

theorem reads_in_bounds:
  fixes L :: "'w libssh"
  assumes "net_initial B n0" and "net_run B n0 n" and "is_node x n" and "u_dir_tree (node_at x n) = Some r" and "lookup_path r (k # ks) = Some node"
  shows "\<exists>host. Hosts_at (u_hosts (node_at x n)) (tn_host_id node) = Inr host \<and>
    (tn_host_id node \<noteq> 0 \<longrightarrow> Hosts_at (u_hosts (n_master n)) (tn_host_id node) = Inr host) \<and>
    UserFS_read path_append files L (tn_host_id node) (CHR ''/'' # rel) offset cnt (node_at x n) w \<noteq> Inl OutOfBounds"
proof -
  let ?fs = "node_at x n" and ?i = "tn_host_id node"
  note inv = net_run_inv [OF assms(1,2)] net_heard_run [OF assms(1,2)]
  obtain host where host: "Hosts_at (u_hosts ?fs) ?i = Inr host" using node_host_known [OF inv assms(3-5)] by blast
  have "UserFS_read path_append files L ?i (CHR ''/'' # rel) offset cnt ?fs w \<noteq> Inl OutOfBounds"
  proof (cases "?i = u_host_id ?fs")
    case True
    with UserFS_read_local [of ?fs host path_append files L rel offset cnt w] host show ?thesis by auto
  next
    case False
    then show ?thesis by (auto simp: remote_read [OF host False refl] session_read_bounds res_bind_eq_Inl)
  qed
  with host node_host [OF inv assms(3) host] show ?thesis by blast
qed

theorem reads_in_bounds_witness:
  "\<exists>n r node. net_run tagged_archive sample_net n \<and> u_dir_tree (node_at None n) = Some r \<and> lookup_path r [''b.txt''] = Some node \<and>
    UserFS_read (\<lambda>a b. a @ ''/'' @ b) (\<lambda>_. NoFile) tracking_libssh (tn_host_id node) ''/b.txt'' 0 2 (node_at None n) (0, []) \<noteq> Inl OutOfBounds"
proof -
  obtain n where n: "net_run tagged_archive sample_net n" "u_dir_tree (n_master n) = sample_merged" by (rule sample_settles)
  obtain r node where r: "sample_merged = Some r" "lookup_path r [''b.txt''] = Some node" using sample_merged_lookup by blast
  with n have tree: "u_dir_tree (node_at None n) = Some r" by simp
  from reads_in_bounds [OF sample_net_initial n(1) _ tree r(2), where L = tracking_libssh and rel = "''b.txt''" and w = "(0, [])"] n(1) tree r(2)
  show ?thesis by fastforce
qed

end
