(* ===== verification/Post_View.thy ===== *)
theory Post_View
  imports Tcp_Callbacks
begin

section \<open>Handlers and the closures that are posted\<close>

text \<open>
  The closures that wait in the service of a messager are looked at only when the next of them runs. A handler appends to them
  and does not depend on them. So a node can be viewed with other closures: without the closures that stop the service, or with more of
  them in front. The locale \<open>post_view\<close> proves once that all handlers agree with such a view; its two interpretations are
  what the theory on unmounting rests on.
\<close>

subsection \<open>Definitions\<close>

definition view_master :: "(master_post list \<Rightarrow> master_post list) \<Rightarrow> (bool \<Rightarrow> bool) \<Rightarrow> TCPMasterMessager \<Rightarrow> TCPMasterMessager" where
  "view_master f b m = m\<lparr>mm_posted := f (mm_posted m), mm_stopped := b (mm_stopped m)\<rparr>"

definition view_slave :: "(slave_post list \<Rightarrow> slave_post list) \<Rightarrow> (bool \<Rightarrow> bool) \<Rightarrow> TCPSlaveMessager \<Rightarrow> TCPSlaveMessager" where
  "view_slave g b m = m\<lparr>sm_posted := g (sm_posted m), sm_stopped := b (sm_stopped m)\<rparr>"

definition view_manager ::
    "(master_post list \<Rightarrow> master_post list) \<Rightarrow> (slave_post list \<Rightarrow> slave_post list) \<Rightarrow> (bool \<Rightarrow> bool) \<Rightarrow> TCPManager \<Rightarrow> TCPManager" where
  "view_manager f g b tm = tm\<lparr>tm_master := map_option (view_master f b) (tm_master tm), tm_slave := map_option (view_slave g b) (tm_slave tm)\<rparr>"

definition view_posts ::
    "(master_post list \<Rightarrow> master_post list) \<Rightarrow> (slave_post list \<Rightarrow> slave_post list) \<Rightarrow> (bool \<Rightarrow> bool) \<Rightarrow> UserFS \<Rightarrow> UserFS" where
  "view_posts f g b fs = fs\<lparr>u_tcp_manager := view_manager f g b (u_tcp_manager fs)\<rparr>"

text \<open>Everything but the closures and the flag is as it was.\<close>

lemma view_fields [simp]:
  "u_host_id (view_posts f g b fs) = u_host_id fs" "u_dir_tree (view_posts f g b fs) = u_dir_tree fs" "u_hosts (view_posts f g b fs) = u_hosts fs"
  "u_max_host_id (view_posts f g b fs) = u_max_host_id fs" "u_main_thread_is_waiting (view_posts f g b fs) = u_main_thread_is_waiting fs"
  "u_slave_wait_sem (view_posts f g b fs) = u_slave_wait_sem fs" "u_working_dir (view_posts f g b fs) = u_working_dir fs"
  "u_ssh_manager (view_posts f g b fs) = u_ssh_manager fs" "u_tcp_manager (view_posts f g b fs) = view_manager f g b (u_tcp_manager fs)"
  by (simp_all add: view_posts_def)

lemma view_tm_fields [simp]:
  "tm_is_master (view_manager f g b tm) = tm_is_master tm" "tm_is_slave (view_manager f g b tm) = tm_is_slave tm"
  "tm_master (view_manager f g b tm) = map_option (view_master f b) (tm_master tm)" "tm_slave (view_manager f g b tm) = map_option (view_slave g b) (tm_slave tm)"
  by (simp_all add: view_manager_def)

lemma view_master_fields [simp]:
  "mm_connections (view_master f b m) = mm_connections m" "mm_accepting (view_master f b m) = mm_accepting m"
  "mm_posted (view_master f b m) = f (mm_posted m)"
  by (simp_all add: view_master_def)

lemma view_slave_fields [simp]:
  "sm_open (view_slave g b m) = sm_open m" "sm_connecting (view_slave g b m) = sm_connecting m" "sm_buffer (view_slave g b m) = sm_buffer m"
  "sm_packet (view_slave g b m) = sm_packet m" "sm_queue (view_slave g b m) = sm_queue m" "sm_read (view_slave g b m) = sm_read m"
  "sm_writing (view_slave g b m) = sm_writing m" "sm_posted (view_slave g b m) = g (sm_posted m)"
  by (simp_all add: view_slave_def)

lemma view_updates [simp]:
  "(view_posts f g b fs)\<lparr>u_host_id := i\<rparr> = view_posts f g b (fs\<lparr>u_host_id := i\<rparr>)" "(view_posts f g b fs)\<lparr>u_dir_tree := t\<rparr> = view_posts f g b (fs\<lparr>u_dir_tree := t\<rparr>)"
  "(view_posts f g b fs)\<lparr>u_hosts := hs\<rparr> = view_posts f g b (fs\<lparr>u_hosts := hs\<rparr>)" "(view_posts f g b fs)\<lparr>u_max_host_id := i\<rparr> = view_posts f g b (fs\<lparr>u_max_host_id := i\<rparr>)"
  "(view_posts f g b fs)\<lparr>u_main_thread_is_waiting := w\<rparr> = view_posts f g b (fs\<lparr>u_main_thread_is_waiting := w\<rparr>)"
  "(view_posts f g b fs)\<lparr>u_slave_wait_sem := k\<rparr> = view_posts f g b (fs\<lparr>u_slave_wait_sem := k\<rparr>)"
  "(view_posts f g b fs)\<lparr>u_tcp_manager := view_manager f g b tm\<rparr> = view_posts f g b (fs\<lparr>u_tcp_manager := tm\<rparr>)"
  by (simp_all add: view_posts_def)

lemma view_slave_updates [simp]:
  "(view_slave g b m)\<lparr>sm_open := a\<rparr> = view_slave g b (m\<lparr>sm_open := a\<rparr>)" "(view_slave g b m)\<lparr>sm_connecting := a\<rparr> = view_slave g b (m\<lparr>sm_connecting := a\<rparr>)"
  "(view_slave g b m)\<lparr>sm_buffer := bs\<rparr> = view_slave g b (m\<lparr>sm_buffer := bs\<rparr>)" "(view_slave g b m)\<lparr>sm_packet := p\<rparr> = view_slave g b (m\<lparr>sm_packet := p\<rparr>)"
  "(view_slave g b m)\<lparr>sm_queue := q\<rparr> = view_slave g b (m\<lparr>sm_queue := q\<rparr>)" "(view_slave g b m)\<lparr>sm_read := r\<rparr> = view_slave g b (m\<lparr>sm_read := r\<rparr>)"
  "(view_slave g b m)\<lparr>sm_writing := a\<rparr> = view_slave g b (m\<lparr>sm_writing := a\<rparr>)"
  by (simp_all add: view_slave_def)

lemma view_master_updates [simp]:
  "(view_master f b m)\<lparr>mm_connections := cs\<rparr> = view_master f b (m\<lparr>mm_connections := cs\<rparr>)"
  "(view_master f b m)\<lparr>mm_accepting := a\<rparr> = view_master f b (m\<lparr>mm_accepting := a\<rparr>)"
  "(view_manager f g b tm)\<lparr>tm_master := Some (view_master f b m)\<rparr> = view_manager f g b (tm\<lparr>tm_master := Some m\<rparr>)"
  by (simp_all add: view_master_def view_manager_def)

lemma view_conn [simp]:
  "conn_at h (view_posts f g b fs) = conn_at h fs" "set_conn h c (view_posts f g b fs) = view_posts f g b (set_conn h c fs)"
  "slave_of (view_posts f g b fs) = rmap (view_slave g b) (slave_of fs)" "set_slave (view_slave g b m) (view_posts f g b fs) = view_posts f g b (set_slave m fs)"
  by (cases "tm_master (u_tcp_manager fs)"; cases "tm_slave (u_tcp_manager fs)";
      simp add: conn_at_def set_conn_def map_master_def slave_of_def set_slave_def view_posts_def view_manager_def view_master_def)+

subsection \<open>Handlers do not look at the closures\<close>

text \<open>
  The contract of a view: what a handler appends to the closures, never a stop, is appended in the view. Then a handler that starts in the
  view does in the view what it does in the state.
\<close>

locale post_view =
  fixes f :: "master_post list \<Rightarrow> master_post list"
    and g :: "slave_post list \<Rightarrow> slave_post list"
    and b :: "bool \<Rightarrow> bool"
  assumes master_append: "x \<noteq> PostStop \<Longrightarrow> f (xs @ [x]) = f xs @ [x]"
    and slave_append: "y \<noteq> SlavePostStop \<Longrightarrow> g (ys @ [y]) = g ys @ [y]"
begin

abbreviation vm :: "TCPMasterMessager \<Rightarrow> TCPMasterMessager" where "vm \<equiv> view_master f b"
abbreviation vs :: "TCPSlaveMessager \<Rightarrow> TCPSlaveMessager" where "vs \<equiv> view_slave g b"
abbreviation vt :: "TCPManager \<Rightarrow> TCPManager" where "vt \<equiv> view_manager f g b"
abbreviation vu :: "UserFS \<Rightarrow> UserFS" where "vu \<equiv> view_posts f g b"

lemma TCPManager_write_view: "TCPManager_write msg (vt tm) = rmap vt (TCPManager_write msg tm)"
  by (cases "tm_master tm"; cases "tm_slave tm")
    (simp_all add: TCPManager_write_def Let_def view_manager_def TCPMasterMessager_write_def TCPSlaveMessager_write_def master_append slave_append view_master_def view_slave_def)

lemma TCPManager_writeTo_view: "TCPManager_writeTo msg h (vt tm) = rmap vt (TCPManager_writeTo msg h tm)"
  by (cases "tm_master tm")
    (simp_all add: TCPManager_writeTo_def view_manager_def TCPMasterMessager_writeTo_def master_append view_master_def)

lemma sendUpdate_view: "UserFS_sendUpdate_seq ts hs (vu fs) = rmap vu (UserFS_sendUpdate_seq ts hs fs)"
  by (simp add: UserFS_sendUpdate_seq_def TCPManager_write_view rmap_bind)

lemma close_view: "TCPMasterMessager_close B h (vu fs) = rmap vu (TCPMasterMessager_close B h fs)"
  by (simp add: TCPMasterMessager_close_def UserFS_disconnect_slave_def UserFS_sendUpdate_def sendUpdate_view rmap_bind rmap_if cong: if_cong)

lemma newConnection_view: "UserFS_newConnection B remote ts hs h (vu fs) = rmap vu (UserFS_newConnection B remote ts hs h fs)"
  by (simp add: UserFS_newConnection_def sendUpdate_view TCPManager_writeTo_view close_view rmap_bind rmap_if Let_def cong: if_cong)

lemma read_master_view: "TCPManager_read_master B remote p h (vu fs) = rmap vu (TCPManager_read_master B remote p h fs)"
  by (simp add: TCPManager_read_master_def newConnection_view rmap_bind rmap_if case_prod_unfold cong: if_cong)

lemma master_handle_view:
  assumes "ev \<noteq> RunPost"
  shows "master_handle B ev (vu fs) = rmap vu (master_handle B ev fs)"
proof (cases ev)
  case (Accepted ec)
  then show ?thesis
    by (cases "tm_master (u_tcp_manager fs)")
      (simp_all add: run_master_def master_accept_def res_bind_assoc rmap_bind rmap_if cong: if_cong)
next
  case (HeaderRead h ec data)
  then show ?thesis by (simp add: master_header_handler_def Let_def close_view rmap_bind rmap_if cong: if_cong)
next
  case (BodyRead h ec data remote)
  then show ?thesis by (simp add: master_body_handler_def Let_def close_view read_master_view rmap_bind rmap_if cong: if_cong)
next
  case (Written h ec k)
  then show ?thesis
    by (simp add: master_write_handler_def Let_def close_view rmap_bind rmap_if list.case_distrib [of "rmap vu"] cong: if_cong list.case_cong)
qed (use assms in simp)

lemma disconnect_viewed: "UserFS_disconnect (vu fs) = rmap vu (UserFS_disconnect fs)"
  by (simp add: UserFS_disconnect_def Let_def rmap_bind rmap_if cong: if_cong)

lemma read_slave_view: "TCPManager_read_slave B p (vu fs) = rmap vu (TCPManager_read_slave B p fs)"
  by (simp add: TCPManager_read_slave_def UserFS_slaveRecognized_def UserFS_updateInfo_def rmap_bind rmap_if case_prod_unfold Let_def cong: if_cong)

lemma slave_read_view:
  "slave_do_read_header (vs m) = rmap vs (slave_do_read_header m)"
  "slave_do_read_body (vs m) = rmap vs (slave_do_read_body m)"
  "slave_write_finished (vs m) = vs (slave_write_finished m)"
  by (simp_all add: slave_do_read_header_def slave_do_read_body_def slave_write_finished_def slave_do_write_def rmap_bind Let_def)

lemma slave_handle_view:
  assumes "ev \<noteq> SlaveRunPost"
  shows "slave_handle B ev (vu fs) = rmap vu (slave_handle B ev fs)"
  using assms
  by (cases ev)
    (simp_all add: slave_connect_handler_def slave_header_handler_def slave_body_handler_def slave_write_handler_def Let_def disconnect_viewed
      read_slave_view slave_read_view rmap_bind rmap_if list.case_distrib [of "rmap vu"] cong: if_cong list.case_cong)

end

subsection \<open>Two views\<close>

text \<open>The closures without the stops, and more closures in front.\<close>

abbreviation unstop :: "UserFS \<Rightarrow> UserFS" where
  "unstop \<equiv> view_posts (filter (\<lambda>x. x \<noteq> PostStop)) (filter (\<lambda>x. x \<noteq> SlavePostStop)) (\<lambda>_. False)"

interpretation unstopped: post_view "filter (\<lambda>x. x \<noteq> PostStop)" "filter (\<lambda>x. x \<noteq> SlavePostStop)" "\<lambda>_. False"
  by unfold_locales simp_all

interpretation queued: post_view "(@) ps" "(@) qs" "\<lambda>b. b" for ps qs
  by unfold_locales simp_all

text \<open>Running the next closure: a stop does not show in the view without stops.\<close>

lemma run_post_unstop:
  assumes "posted fs \<noteq> []" and "hd (posted fs) \<noteq> PostStop"
  shows "master_handle B RunPost (unstop fs) = rmap unstop (master_handle B RunPost fs)"
proof -
  obtain m x xs where "tm_master (u_tcp_manager fs) = Some m" "mm_posted m = x # xs" "x \<noteq> PostStop"
    using assms by (auto simp: posted_def neq_Nil_conv split: option.splits)
  then show ?thesis
    by (cases x) (simp_all add: run_master_def master_run_post_def run_write_def run_writeTo_def view_posts_def view_manager_def view_master_def)
qed

lemma run_stop_unstop:
  assumes "posted fs = PostStop # xs"
  shows "\<exists>fs'. master_handle B RunPost fs = Inr fs' \<and> unstop fs' = unstop fs"
proof -
  obtain m where "tm_master (u_tcp_manager fs) = Some m" "mm_posted m = PostStop # xs"
    using assms by (auto simp: posted_def split: option.splits)
  then show ?thesis
    by (simp add: run_master_def master_run_post_def view_posts_def view_manager_def view_master_def)
qed

lemma slave_post_unstop:
  assumes "slave_of fs = Inr m" and "sm_posted m = y # ys" and "y \<noteq> SlavePostStop"
  shows "slave_handle B SlaveRunPost (unstop fs) = rmap unstop (slave_handle B SlaveRunPost fs)"
proof -
  have "slave_run_post (unstopped.vs m) = unstopped.vs (slave_run_post m)"
    using assms(2,3) by (cases y) (simp_all add: slave_run_post_def slave_enqueue_def slave_do_write_def Let_def view_slave_def)
  with assms(1) show ?thesis by simp
qed

lemma slave_stop_unstop:
  assumes "slave_of fs = Inr m" and "sm_posted m = SlavePostStop # ys"
  shows "\<exists>fs'. slave_handle B SlaveRunPost fs = Inr fs' \<and> unstop fs' = unstop fs"
  using assms by (auto simp: slave_run_post_def slave_of_def set_slave_def view_posts_def view_manager_def view_slave_def)

end
