(* ===== verification/Shutdown.thy ===== *)
theory Shutdown
  imports Mounted Post_View
begin

section \<open>Unmounting while the network runs\<close>

text \<open>
  When \<^verbatim>\<open>fuse_main\<close> returns, \<^verbatim>\<open>main\<close> destroys the \<^verbatim>\<open>UserFS\<close>. The destructor of its \<^verbatim>\<open>TCPManager\<close> posts a closure that stops the
  service of the messager and waits for the network thread, which still runs handlers until this closure is its turn. Here the nodes of
  a network are unmounted at any time: the events of \<open>Network\<close> and, for each node, one event that posts the stop. The
  network with these events is an interpretation of \<open>simulating_system\<close>, simulated by the network without them. The
  deleted messager closes its sockets; what the other nodes see of it are the failures of their reads and writes, which can happen at any
  time anyway. A slave whose service has run out of work has ended its thread before; the closure then need not run, here it may.
\<close>

subsection \<open>Definitions\<close>

text \<open>The service of a node has been stopped, so that \<^verbatim>\<open>run\<close> returns and the thread ends; a closure that stops it has been posted.\<close>

definition node_stopped :: "node_name \<Rightarrow> network \<Rightarrow> bool" where
  "node_stopped x n =
     (case x of
        None \<Rightarrow> (case tm_master (u_tcp_manager (n_master n)) of None \<Rightarrow> False | Some m \<Rightarrow> mm_stopped m)
      | Some h \<Rightarrow> sm_stopped (lm (n_links n ! h)))"

definition node_stopping :: "node_name \<Rightarrow> network \<Rightarrow> bool" where
  "node_stopping x n =
     (case x of
        None \<Rightarrow> PostStop \<in> set (posted (n_master n))
      | Some h \<Rightarrow> SlavePostStop \<in> set (sm_posted (lm (n_links n ! h))))"

text \<open>What the destructor of the manager does to the node before it waits for the thread.\<close>

definition UserFS_stop :: "UserFS \<Rightarrow> UserFS" where
  "UserFS_stop fs = fs\<lparr>u_tcp_manager := TCPManager_stop (u_tcp_manager fs)\<rparr>"

text \<open>
  The events: those of the network, and that a node is unmounted, once. Each event of the network runs on the thread of a node, the one
  that accepts a connection, sends or receives; when the service of the node has been stopped it cannot happen any more.
\<close>

datatype closing_event = Net net_event | Unmount node_name

fun runs_on :: "net_event \<Rightarrow> node_name" where
  "runs_on (SlaveArrives s addr) = None"
| "runs_on (SlaveEvent h ev) = Some h"
| "runs_on (MasterEvent ev) = None"
| "runs_on (UpTransmit h k) = Some h"
| "runs_on (DownTransmit h k) = None"

fun closing_enabled :: "boost_archive \<Rightarrow> closing_event \<Rightarrow> network \<Rightarrow> bool" where
  "closing_enabled B (Net ev) n = (net_enabled B ev n \<and> \<not> node_stopped (runs_on ev) n)"
| "closing_enabled B (Unmount x) n = (is_node x n \<and> \<not> node_stopping x n \<and> \<not> node_stopped x n)"

text \<open>The events with the late ones, which are the late events of the network.\<close>

fun closing_late :: "closing_event \<Rightarrow> network \<Rightarrow> bool" where
  "closing_late (Net ev) n = late ev n"
| "closing_late (Unmount x) n = False"

fun closing_possible :: "boost_archive \<Rightarrow> closing_event \<Rightarrow> network \<Rightarrow> bool" where
  "closing_possible B (Net ev) n = (net_possible B ev n \<and> \<not> node_stopped (runs_on ev) n)"
| "closing_possible B (Unmount x) n = (is_node x n \<and> \<not> node_stopping x n \<and> \<not> node_stopped x n)"

lemma closing_enabled_possible: "closing_enabled B ev n \<longleftrightarrow> closing_possible B ev n \<and> \<not> closing_late ev n"
  by (cases ev) (auto simp: net_enabled_possible)

lemmas closing_trace_run = trace_avoids [OF _ _ closing_enabled_possible]

fun closing_handle :: "boost_archive \<Rightarrow> closing_event \<Rightarrow> network \<Rightarrow> network result" where
  "closing_handle B (Net ev) n = net_handle B ev n"
| "closing_handle B (Unmount x) n = Inr (put_node x (UserFS_stop (node_at x n)) n)"

abbreviation closing_run :: "boost_archive \<Rightarrow> network \<Rightarrow> network \<Rightarrow> bool" where
  "closing_run B \<equiv> run (closing_enabled B) (closing_handle B) (net_bounds B)"

subsection \<open>The same network without unmounting\<close>

text \<open>The network as it would be had no node been unmounted, with the events to match.\<close>

definition unstop_link :: "link \<Rightarrow> link" where
  "unstop_link l = l\<lparr>l_start := unstop (l_start l), l_slave := unstop (l_slave l)\<rparr>"

definition unstop_net :: "network \<Rightarrow> network" where
  "unstop_net n = \<lparr>n_master = unstop (n_master n), n_links = map unstop_link (n_links n)\<rparr>"

fun unstop_event :: "net_event \<Rightarrow> net_event" where
  "unstop_event (SlaveArrives s addr) = SlaveArrives (unstop s) addr"
| "unstop_event ev = ev"

fun stop_event :: "net_event \<Rightarrow> network \<Rightarrow> bool" where
  "stop_event (MasterEvent RunPost) n = (hd (posted (n_master n)) = PostStop)"
| "stop_event (SlaveEvent h SlaveRunPost) n = (hd (sm_posted (lm (n_links n ! h))) = SlavePostStop)"
| "stop_event ev n = False"

lemma unstop_views [simp]:
  "conns (unstop fs) = conns fs" "accepting (unstop fs) = accepting fs" "posted (unstop fs) = filter (\<lambda>x. x \<noteq> PostStop) (posted fs)"
  "messager (unstop fs) = unstopped.vs (messager fs)" "root_children (unstop fs) = root_children fs" "own_host (unstop fs) = own_host fs"
  by (auto simp: conns_def accepting_def posted_def messager_def root_children_def own_host_def view_slave_def TCPSlaveMessager_new_def split: option.splits)

lemma unstop_link_fields [simp]:
  "l_slave (unstop_link l) = unstop (l_slave l)" "l_start (unstop_link l) = unstop (l_start l)" "l_up (unstop_link l) = l_up l"
  "l_down (unstop_link l) = l_down l" "l_up_sent (unstop_link l) = l_up_sent l" "l_down_sent (unstop_link l) = l_down_sent l"
  "l_addr (unstop_link l) = l_addr l"
  by (simp_all add: unstop_link_def)

lemma unstop_link_updates [simp]:
  "(unstop_link l)\<lparr>l_up := bs\<rparr> = unstop_link (l\<lparr>l_up := bs\<rparr>)" "(unstop_link l)\<lparr>l_down := bs\<rparr> = unstop_link (l\<lparr>l_down := bs\<rparr>)"
  "(unstop_link l)\<lparr>l_up_sent := k\<rparr> = unstop_link (l\<lparr>l_up_sent := k\<rparr>)" "(unstop_link l)\<lparr>l_down_sent := k\<rparr> = unstop_link (l\<lparr>l_down_sent := k\<rparr>)"
  "(unstop_link l)\<lparr>l_slave := unstop s\<rparr> = unstop_link (l\<lparr>l_slave := s\<rparr>)"
  by (simp_all add: unstop_link_def)

lemma unstop_net_fields [simp]: "n_master (unstop_net n) = unstop (n_master n)" "n_links (unstop_net n) = map unstop_link (n_links n)"
  by (simp_all add: unstop_net_def)

lemma unstop_bounds [simp]: "net_bounds B (unstop_net n) = net_bounds B n"
  by (simp add: net_bounds_def fits_def update_of_def)

lemma slave_ready_unstop: "slave_ready B s \<Longrightarrow> slave_ready B (unstop s)"
  by (auto simp: slave_ready_def hello_of_def Let_def split: option.splits)

lemma filter_nonempty: "xs \<noteq> [] \<Longrightarrow> hd xs \<noteq> y \<Longrightarrow> filter (\<lambda>x. x \<noteq> y) xs \<noteq> []"
  by (cases xs) auto

lemma unstop_enabled:
  assumes "net_enabled B ev n" and "\<not> stop_event ev n" and "length (conns (n_master n)) \<le> length (n_links n)"
  shows "net_enabled B (unstop_event ev) (unstop_net n)"
proof (cases ev)
  case (SlaveEvent h e)
  with assms show ?thesis by (cases e) (auto simp: filter_nonempty)
next
  case (MasterEvent e)
  with assms show ?thesis by (cases e) (auto simp: Let_def filter_nonempty)
qed (use assms in \<open>auto simp: slave_ready_unstop Let_def\<close>)

lemma map_link_unstop:
  assumes "\<And>l. unstop_link (f l) = f' (unstop_link l)"
  shows "unstop_net (map_link h f n) = map_link h f' (unstop_net n)"
  using assms by (auto simp: map_link_def unstop_net_def map_update)

lemma slave_moves_unstop: "unstop_link ((slave_moves ev l)\<lparr>l_slave := s\<rparr>) = (slave_moves ev (unstop_link l))\<lparr>l_slave := unstop s\<rparr>"
  by (cases ev) simp_all

lemma master_moves_unstop: "unstop_net ((master_moves ev n)\<lparr>n_master := m\<rparr>) = (master_moves ev (unstop_net n))\<lparr>n_master := unstop m\<rparr>"
  by (cases ev) (auto simp: map_link_def unstop_net_def map_update)

lemma slave_event_unstop:
  assumes "slave_enabled ev l" and "\<not> (ev = SlaveRunPost \<and> hd (sm_posted (lm l)) = SlavePostStop)"
  shows "slave_handle B ev (unstop (l_slave l)) = rmap unstop (slave_handle B ev (l_slave l))"
proof (cases "ev = SlaveRunPost")
  case True
  then obtain m where "slave_of (l_slave l) = Inr m" "sm_posted m \<noteq> []" "lm l = m"
    using assms(1) by (auto simp: messager_def slave_of_def TCPSlaveMessager_new_def split: option.splits)
  with True assms(2) slave_post_unstop [of "l_slave l" m] show ?thesis by (auto simp: neq_Nil_conv)
qed (use unstopped.slave_handle_view in blast)

lemma unstop_handle:
  assumes "net_enabled B ev n" and "\<not> stop_event ev n" and "length (conns (n_master n)) \<le> length (n_links n)"
  shows "net_handle B (unstop_event ev) (unstop_net n) = rmap unstop_net (net_handle B ev n)"
proof (cases ev)
  case (SlaveArrives s addr)
  have "unstop_net (n\<lparr>n_links := n_links n @ [link_new s addr s']\<rparr>) = (unstop_net n)\<lparr>n_links := n_links (unstop_net n) @ [link_new (unstop s) addr (unstop s')]\<rparr>" for s'
    by (simp add: unstop_net_def link_new_def unstop_link_def)
  with SlaveArrives show ?thesis by (simp add: unstopped.slave_handle_view rmap_bind del: slave_handle.simps)
next
  case (SlaveEvent h e)
  have h: "h < length (n_links n)" "slave_enabled e (n_links n ! h)" using assms(1) SlaveEvent by simp_all
  have "\<not> (e = SlaveRunPost \<and> hd (sm_posted (lm (n_links n ! h))) = SlavePostStop)" using assms(2) SlaveEvent by auto
  from slave_event_unstop [OF h(2) this] h(1) SlaveEvent show ?thesis
    by (simp add: rmap_bind map_link_unstop [where f = "\<lambda>l. (slave_moves e l)\<lparr>l_slave := s\<rparr>" and f' = "\<lambda>l. (slave_moves e l)\<lparr>l_slave := unstop s\<rparr>" for s, OF slave_moves_unstop] del: slave_handle.simps)
next
  case (MasterEvent e)
  have "master_handle B e (unstop (n_master n)) = rmap unstop (master_handle B e (n_master n))"
    using assms(1,2) MasterEvent run_post_unstop [of "n_master n"] unstopped.master_handle_view by (cases "e = RunPost") auto
  with MasterEvent show ?thesis by (simp add: rmap_bind master_moves_unstop del: master_handle.simps)
next
  case (UpTransmit h k)
  then show ?thesis by (simp, intro map_link_unstop [symmetric]) simp
next
  case (DownTransmit h k)
  then show ?thesis by (simp, intro map_link_unstop [symmetric]) simp
qed

lemma stop_event_unstop:
  assumes "net_enabled B ev n" and "stop_event ev n"
  shows "\<exists>n'. net_handle B ev n = Inr n' \<and> unstop_net n' = unstop_net n"
proof (cases ev)
  case (SlaveEvent h e)
  let ?l = "n_links n ! h"
  have h: "h < length (n_links n)" "e = SlaveRunPost" "sm_posted (lm ?l) \<noteq> []" "hd (sm_posted (lm ?l)) = SlavePostStop"
    using assms SlaveEvent by (cases e; simp)+
  then obtain m ys where "slave_of (l_slave ?l) = Inr m" "sm_posted m = SlavePostStop # ys"
    by (auto simp: messager_def slave_of_def TCPSlaveMessager_new_def neq_Nil_conv split: option.splits)
  from slave_stop_unstop [OF this] obtain s where s: "slave_handle B SlaveRunPost (l_slave ?l) = Inr s" "unstop s = unstop (l_slave ?l)" by blast
  have "unstop_net (map_link h (\<lambda>l. l\<lparr>l_slave := s\<rparr>) n) = unstop_net n"
    using h(1) s(2) by (auto simp: map_link_def unstop_net_def map_update unstop_link_def intro!: list_update_same_conv [THEN iffD2])
  with s(1) SlaveEvent h(2) show ?thesis by (simp del: slave_handle.simps)
next
  case (MasterEvent e)
  then have "e = RunPost" "posted (n_master n) \<noteq> []" "hd (posted (n_master n)) = PostStop" using assms by (cases e; simp)+
  moreover from this obtain xs where "posted (n_master n) = PostStop # xs" by (cases "posted (n_master n)") auto
  ultimately show ?thesis using run_stop_unstop [of "n_master n" xs B] MasterEvent by (auto simp: unstop_net_def simp del: master_handle.simps)
qed (use assms in simp_all)

lemma unstop_Unmount: "is_node x n \<Longrightarrow> unstop_net (put_node x (UserFS_stop (node_at x n)) n) = unstop_net n"
proof -
  have stop: "unstop (UserFS_stop fs) = unstop fs" for fs
    by (cases "tm_master (u_tcp_manager fs)"; cases "tm_slave (u_tcp_manager fs)")
      (simp_all add: UserFS_stop_def TCPManager_stop_def TCPMasterMessager_stop_def TCPSlaveMessager_stop_def view_posts_def view_manager_def
        view_master_def view_slave_def)
  assume "is_node x n"
  with stop show ?thesis
    by (cases x) (auto simp: unstop_net_def map_link_def map_update unstop_link_def intro!: list_update_same_conv [THEN iffD2])
qed

lemma closing_event_cases:
  assumes "net_inv B (unstop_net n)" and "closing_enabled B ev n"
  obtains (same) n' where "closing_handle B ev n = Inr n'" and "unstop_net n' = unstop_net n"
  | (net) e n' where "ev = Net e" and "closing_handle B ev n = Inr n'" and "net_enabled B (unstop_event e) (unstop_net n)"
    and "net_handle B (unstop_event e) (unstop_net n) = Inr (unstop_net n')"
proof (cases ev)
  case (Unmount x)
  with unstop_Unmount [of x n] assms(2) show thesis by (intro same [of "put_node x (UserFS_stop (node_at x n)) n"]) simp_all
next
  case (Net e)
  have len: "length (conns (n_master n)) \<le> length (n_links n)" using assms(1) by (simp add: net_inv_def)
  have en: "net_enabled B e n" using assms(2) Net by simp
  show thesis
  proof (cases "stop_event e n")
    case True
    with stop_event_unstop [OF en] Net same show thesis by auto
  next
    case False
    note en' = unstop_enabled [OF en False len]
    from net_event_ok [OF assms(1) en'] unstop_handle [OF en False len]
    obtain n' where "net_handle B e n = Inr n'" "net_handle B (unstop_event e) (unstop_net n) = Inr (unstop_net n')"
      by (cases "net_handle B e n") auto
    with Net net en' show thesis by simp
  qed
qed

text \<open>The network with unmounting simulates the one without.\<close>

definition net_step :: "boost_archive \<Rightarrow> network \<Rightarrow> network \<Rightarrow> bool" where
  "net_step B = step_of (\<lambda>_. True) (net_enabled B) (net_handle B) (net_bounds B)"

interpretation closing: simulating_system "closing_enabled B" "closing_handle B" "net_bounds B" "\<lambda>n. net_inv B (unstop_net n)" unstop_net "net_step B" for B
proof (unfold_locales, goal_cases)
  case (1 s e)
  then show ?case by (elim closing_event_cases) auto
next
  case (2 s e s')
  from 2(1,2) show ?case
  proof (cases rule: closing_event_cases)
    case (net e' n')
    with 2 net.handle_keeps [of B "unstop_net s" "unstop_event e'" "unstop_net s'"] show ?thesis by simp
  qed (use 2 in simp)
next
  case (3 s e s')
  from 3(1,2) show ?case
  proof (cases rule: closing_event_cases)
    case (net e' n')
    with 3 show ?thesis by (auto simp: net_step_def step_of_def)
  qed (use 3 in simp)
qed

lemma net_steps_run: "(net_step B)\<^sup>*\<^sup>* n0 n \<Longrightarrow> net_run B n0 n"
  by (induction rule: rtranclp_induct) (auto simp: net_step_def step_of_def intro: run.intros)

lemma net_initial_unstop: "net_initial B n \<Longrightarrow> net_initial B (unstop_net n)"
proof -
  assume "net_initial B n"
  moreover have "same_but_posted (n_master n) (unstop (n_master n))" by (simp add: same_but_posted_def master_role_def)
  ultimately show ?thesis using master_inv_same by (auto simp: net_initial_def)
qed

subsection \<open>The way to the stop\<close>

text \<open>A state is one without closures, viewed with its closures in front: so handlers only append.\<close>

lemma view_split: "fs = view_posts ((@) (posted fs)) ((@) (sm_posted (messager fs))) (\<lambda>b. b) (view_posts (\<lambda>_. []) (\<lambda>_. []) (\<lambda>b. b) fs)"
  by (auto simp: view_posts_def view_manager_def view_master_def view_slave_def posted_def messager_def
      intro!: UserFS.equality TCPManager.equality split: option.splits)

lemma view_queue [simp]:
  "posted (view_posts ((@) ps) ((@) qs) (\<lambda>b. b) fs) = (if tm_master (u_tcp_manager fs) = None then [] else ps @ posted fs)"
  "sm_posted (messager (view_posts ((@) ps) ((@) qs) (\<lambda>b. b) fs)) = (if tm_slave (u_tcp_manager fs) = None then [] else qs @ sm_posted (messager fs))"
  by (auto simp: posted_def messager_def TCPSlaveMessager_new_def)

lemma posts_grow:
  assumes "ev \<noteq> RunPost" and "master_handle B ev fs = Inr fs'" and "tm_master (u_tcp_manager fs') \<noteq> None"
  shows "\<exists>xs. posted fs' = posted fs @ xs"
proof -
  let ?fs0 = "view_posts (\<lambda>_. []) (\<lambda>_. []) (\<lambda>b. b) fs"
  have "master_handle B ev fs = rmap (queued.vu (posted fs) (sm_posted (messager fs))) (master_handle B ev ?fs0)"
    using queued.master_handle_view [OF assms(1), of B "posted fs" "sm_posted (messager fs)" ?fs0] view_split [of fs] by simp
  with assms(2,3) show ?thesis by (cases "master_handle B ev ?fs0") auto
qed

lemma slave_posts_grow:
  assumes "ev \<noteq> SlaveRunPost" and "slave_handle B ev fs = Inr fs'" and "tm_slave (u_tcp_manager fs') \<noteq> None"
  shows "\<exists>ys. sm_posted (messager fs') = sm_posted (messager fs) @ ys"
proof -
  let ?fs0 = "view_posts (\<lambda>_. []) (\<lambda>_. []) (\<lambda>b. b) fs"
  have "slave_handle B ev fs = rmap (queued.vu (posted fs) (sm_posted (messager fs))) (slave_handle B ev ?fs0)"
    using queued.slave_handle_view [OF assms(1), of B "posted fs" "sm_posted (messager fs)" ?fs0] view_split [of fs] by simp
  with assms(2,3) show ?thesis by (cases "slave_handle B ev ?fs0") auto
qed

lemma post_run_queue [simp]: "mm_posted (master_run_post m) = tl (mm_posted m)" "sm_posted (slave_run_post s) = tl (sm_posted s)"
  by (simp_all add: master_run_post_def run_write_def run_writeTo_def slave_run_post_def slave_enqueue_def slave_do_write_def Let_def
      split: list.split master_post.split slave_post.split)

lemma run_post_queue:
  "master_handle B RunPost fs = Inr fs' \<Longrightarrow> posted fs' = tl (posted fs)"
  "slave_handle B SlaveRunPost s = Inr s' \<Longrightarrow> sm_posted (messager s') = tl (sm_posted (messager s))"
  by (auto simp: run_master_def posted_def slave_of_def set_slave_def messager_def res_bind_eq_Inr)

lemma run_stop_stops:
  "master_handle B RunPost fs = Inr fs' \<Longrightarrow> posted fs \<noteq> [] \<Longrightarrow> hd (posted fs) = PostStop \<Longrightarrow> \<exists>m. tm_master (u_tcp_manager fs') = Some m \<and> mm_stopped m"
  "slave_handle B SlaveRunPost s = Inr s' \<Longrightarrow> sm_posted (messager s) \<noteq> [] \<Longrightarrow> hd (sm_posted (messager s)) = SlavePostStop \<Longrightarrow> sm_stopped (messager s')"
proof -
  show "\<exists>m. tm_master (u_tcp_manager fs') = Some m \<and> mm_stopped m"
    if x: "master_handle B RunPost fs = Inr fs'" "posted fs \<noteq> []" "hd (posted fs) = PostStop"
  proof -
    obtain m where m: "tm_master (u_tcp_manager fs) = Some m" "tm_master (u_tcp_manager fs') = Some (master_run_post m)"
      using x(1) by (auto simp: run_master_def res_bind_eq_Inr)
    with x(2,3) show ?thesis by (cases "mm_posted m") (auto simp: posted_def master_run_post_def)
  qed
  show "sm_stopped (messager s')"
    if x: "slave_handle B SlaveRunPost s = Inr s'" "sm_posted (messager s) \<noteq> []" "hd (sm_posted (messager s)) = SlavePostStop"
  proof -
    obtain m where m: "messager s = m" "messager s' = slave_run_post m"
      using x(1) by (auto simp: slave_of_def set_slave_def messager_def res_bind_eq_Inr)
    with x(2,3) show ?thesis by (cases "sm_posted m") (auto simp: slave_run_post_def)
  qed
qed

text \<open>How many closures run before the stop does.\<close>

definition posts_before_stop :: "node_name \<Rightarrow> network \<Rightarrow> nat" where
  "posts_before_stop x n =
     (case x of
        None \<Rightarrow> length (takeWhile (\<lambda>p. p \<noteq> PostStop) (posted (n_master n)))
      | Some h \<Rightarrow> length (takeWhile (\<lambda>p. p \<noteq> SlavePostStop) (sm_posted (lm (n_links n ! h)))))"

definition run_post_of :: "node_name \<Rightarrow> closing_event" where
  "run_post_of x = Net (case x of None \<Rightarrow> MasterEvent RunPost | Some h \<Rightarrow> SlaveEvent h SlaveRunPost)"

definition going_down :: "node_name \<Rightarrow> nat \<Rightarrow> network \<Rightarrow> bool" where
  "going_down x k n \<longleftrightarrow> is_node x n \<and> (node_stopped x n \<or> node_stopping x n \<and> posts_before_stop x n < k)"

text \<open>An event leaves the nodes alone on whose threads it does not run.\<close>

lemma other_links_kept:
  assumes "net_handle B ev n = Inr n'" and "h < length (n_links n)" and "runs_on ev \<noteq> Some h"
  shows "h < length (n_links n') \<and> l_slave (n_links n' ! h) = l_slave (n_links n ! h)"
proof (cases ev)
  case (MasterEvent e)
  with assms show ?thesis by (cases e) (auto simp: res_bind_eq_Inr map_link_def nth_list_update)
qed (use assms in \<open>auto simp: res_bind_eq_Inr map_link_def nth_append nth_list_update split: if_splits\<close>)

lemma going_down_master:
  assumes "master_handle B e (n_master n) = Inr (n_master n')" and "tm_master (u_tcp_manager (n_master n')) \<noteq> None"
    and "node_stopping None n" and "posts_before_stop None n < k"
  shows "going_down None (if e = RunPost then k - 1 else k) n'"
proof (cases "e = RunPost")
  case True
  have ne: "posted (n_master n) \<noteq> []" using assms(3) by (auto simp: node_stopping_def)
  show ?thesis
  proof (cases "hd (posted (n_master n)) = PostStop")
    case stop: True
    with True run_stop_stops(1) [of B "n_master n" "n_master n'"] assms(1) ne show ?thesis by (auto simp: going_down_def node_stopped_def)
  next
    case False
    with assms True ne run_post_queue(1) [of B "n_master n" "n_master n'"] show ?thesis
      by (auto simp: going_down_def node_stopping_def posts_before_stop_def neq_Nil_conv)
  qed
next
  case False
  with posts_grow [OF _ assms(1,2)] obtain xs where "posted (n_master n') = posted (n_master n) @ xs" by blast
  with False assms(3,4) show ?thesis by (auto simp: going_down_def node_stopping_def posts_before_stop_def)
qed

lemma going_down_slave:
  assumes "slave_handle B e (l_slave (n_links n ! h)) = Inr (l_slave (n_links n' ! h))" and "tm_slave (u_tcp_manager (l_slave (n_links n' ! h))) \<noteq> None"
    and "node_stopping (Some h) n" and "posts_before_stop (Some h) n < k" and "h < length (n_links n')"
  shows "going_down (Some h) (if e = SlaveRunPost then k - 1 else k) n'"
proof (cases "e = SlaveRunPost")
  case True
  have ne: "sm_posted (lm (n_links n ! h)) \<noteq> []" using assms(3) by (auto simp: node_stopping_def)
  show ?thesis
  proof (cases "hd (sm_posted (lm (n_links n ! h))) = SlavePostStop")
    case stop: True
    with True run_stop_stops(2) [of B "l_slave (n_links n ! h)" "l_slave (n_links n' ! h)"] assms(1,5) ne show ?thesis by (auto simp: going_down_def node_stopped_def)
  next
    case False
    with assms True ne run_post_queue(2) [of B "l_slave (n_links n ! h)" "l_slave (n_links n' ! h)"] show ?thesis
      by (auto simp: going_down_def node_stopping_def posts_before_stop_def neq_Nil_conv)
  qed
next
  case False
  with slave_posts_grow [OF _ assms(1,2)] obtain ys where "sm_posted (lm (n_links n' ! h)) = sm_posted (lm (n_links n ! h)) @ ys" by blast
  with False assms(3-5) show ?thesis by (auto simp: going_down_def node_stopping_def posts_before_stop_def)
qed

lemma other_master_kept: "net_handle B ev n = Inr n' \<Longrightarrow> (\<And>e. ev \<noteq> MasterEvent e) \<Longrightarrow> n_master n' = n_master n"
  by (cases ev) (auto simp: res_bind_eq_Inr map_link_def)

lemma net_inv_managers:
  assumes "net_inv B (unstop_net n)"
  shows "tm_master (u_tcp_manager (n_master n)) \<noteq> None" and "h < length (n_links n) \<Longrightarrow> tm_slave (u_tcp_manager (l_slave (n_links n ! h))) \<noteq> None"
proof -
  show "tm_master (u_tcp_manager (n_master n)) \<noteq> None" using assms by (simp add: net_inv_def master_inv_def master_role_def)
  show "tm_slave (u_tcp_manager (l_slave (n_links n ! h))) \<noteq> None" if "h < length (n_links n)"
    using link_invD(1) [OF net_inv_link [OF assms, of h]] that by (simp add: node_inv_def)
qed

lemma going_down_other:
  assumes "is_node x n" and "net_handle B ev n = Inr n'" and "runs_on ev \<noteq> x"
  shows "is_node x n' \<and> node_stopped x n' = node_stopped x n \<and> node_stopping x n' = node_stopping x n \<and> posts_before_stop x n' = posts_before_stop x n"
proof (cases x)
  case None
  with assms have "n_master n' = n_master n" by (intro other_master_kept [OF assms(2)]) auto
  with None show ?thesis by (simp add: node_stopped_def node_stopping_def posts_before_stop_def)
next
  case (Some h)
  with other_links_kept [OF assms(2), of h] assms(1,3) show ?thesis by (simp add: node_stopped_def node_stopping_def posts_before_stop_def)
qed

lemma going_down_Unmount:
  assumes "is_node x n" and "x \<noteq> y"
  shows "going_down x k (put_node y fs n) = going_down x k n"
  using assms by (cases x; cases y)
    (auto simp: going_down_def node_stopped_def node_stopping_def posts_before_stop_def map_link_def nth_list_update)

lemma run_post_of_eq [simp]:
  "run_post_of None = Net (MasterEvent RunPost)" "run_post_of (Some h) = Net (SlaveEvent h SlaveRunPost)"
  by (simp_all add: run_post_of_def)

lemma going_down_event:
  assumes "net_inv B (unstop_net n')" and "net_handle B ev n = Inr n'" and "runs_on ev = x" and "is_node x n"
    and "node_stopping x n" and "posts_before_stop x n < k"
  shows "going_down x (if Net ev = run_post_of x then k - 1 else k) n'"
proof (cases ev)
  case (SlaveArrives s addr)
  with assms have "n_master n' = n_master n" "x = None" by (auto simp: res_bind_eq_Inr)
  with SlaveArrives assms(5,6) show ?thesis by (simp add: going_down_def node_stopped_def node_stopping_def posts_before_stop_def)
next
  case (SlaveEvent h e)
  have x: "x = Some h" "h < length (n_links n)" using assms(3,4) SlaveEvent by auto
  obtain s where s: "slave_handle B e (l_slave (n_links n ! h)) = Inr s" "n' = map_link h (\<lambda>l. (slave_moves e l)\<lparr>l_slave := s\<rparr>) n"
    using assms(2) SlaveEvent by (auto simp: res_bind_eq_Inr)
  then have n': "h < length (n_links n')" "l_slave (n_links n' ! h) = s" using x(2) by (simp_all add: map_link_def)
  from going_down_slave [OF _ net_inv_managers(2) [OF assms(1) n'(1)], of B e n k] s(1) n' assms(5,6) x SlaveEvent show ?thesis by simp
next
  case (MasterEvent e)
  have x: "x = None" using assms(3) MasterEvent by simp
  have "master_handle B e (n_master n) = Inr (n_master n')" using assms(2) MasterEvent by (auto simp: res_bind_eq_Inr)
  with going_down_master [of B e n n' k] net_inv_managers(1) [OF assms(1)] assms(5,6) x MasterEvent show ?thesis by (auto simp: node_stopping_def)
next
  case (UpTransmit h j)
  with assms show ?thesis by (auto simp: going_down_def node_stopped_def node_stopping_def posts_before_stop_def map_link_def)
next
  case (DownTransmit h j)
  with assms have "n_master n' = n_master n" "x = None" by (auto simp: map_link_def)
  with DownTransmit assms(5,6) show ?thesis by (simp add: going_down_def node_stopped_def node_stopping_def posts_before_stop_def)
qed

text \<open>Every event brings the stop nearer or leaves it where it is.\<close>

lemma going_down_step:
  assumes "net_inv B (unstop_net n)" and "closing_enabled B ev n" and "closing_handle B ev n = Inr n'" and "net_bounds B n'" and "going_down x k n"
  shows "going_down x (if ev = run_post_of x then k - 1 else k) n'"
proof (cases ev)
  case (Unmount y)
  have "x \<noteq> y" using assms(2,5) Unmount by (auto simp: going_down_def)
  moreover have "is_node x n" using assms(5) by (simp add: going_down_def)
  ultimately show ?thesis using going_down_Unmount assms(3,5) Unmount by (cases x) auto
next
  case (Net e)
  have x: "is_node x n" using assms(5) by (simp add: going_down_def)
  show ?thesis
  proof (cases "runs_on e = x")
    case True
    then have "node_stopping x n" "posts_before_stop x n < k" using assms(2,5) Net by (auto simp: going_down_def)
    with going_down_event [OF closing.handle_keeps [OF assms(1-4)] _ True x] assms(3) Net show ?thesis by simp
  next
    case False
    then have "ev \<noteq> run_post_of x" using Net by (cases x) auto
    with going_down_other [OF x, of B e n'] False assms(3,5) Net show ?thesis by (simp add: going_down_def)
  qed
qed

lemma going_down_trace:
  assumes "trace (closing_enabled B) (closing_handle B) (net_bounds B) es n n'" and "net_inv B (unstop_net n)" and "going_down x k n"
  shows "going_down x (k - count_list es (run_post_of x)) n'"
  using assms
proof (induction es arbitrary: n k)
  case (Cons ev es)
  then obtain n1 where n1: "closing_enabled B ev n" "closing_handle B ev n = Inr n1" "net_bounds B n1"
    "trace (closing_enabled B) (closing_handle B) (net_bounds B) es n1 n'" by auto
  from Cons.IH [OF n1(4) closing.handle_keeps [OF Cons.prems(2) n1(1-3)] going_down_step [OF Cons.prems(2) n1(1-3) Cons.prems(3)]]
  show ?case by (simp split: if_splits)
qed simp

lemma run_post_bounds:
  assumes "closing_handle B (run_post_of x) n = Inr n'" and "net_bounds B n"
  shows "net_bounds B n'"
  using assms by (cases x) (auto simp: res_bind_eq_Inr run_master_def map_link_def net_bounds_def fits_def update_of_def)

lemma run_posts_stop:
  assumes "net_inv B (unstop_net n)" and "going_down x k n"
  shows "\<exists>j n'. j \<le> k \<and> trace (closing_enabled B) (closing_handle B) (net_bounds B) (replicate j (run_post_of x)) n n' \<and> node_stopped x n'"
  using assms
proof (induction k arbitrary: n)
  case 0
  then show ?case by (intro exI [of _ 0] exI [of _ n]) (simp add: going_down_def)
next
  case (Suc k)
  show ?case
  proof (cases "node_stopped x n")
    case True
    then show ?thesis by (intro exI [of _ 0] exI [of _ n]) simp
  next
    case False
    have en: "closing_enabled B (run_post_of x) n"
      using Suc.prems(2) False by (cases x) (auto simp: going_down_def node_stopping_def)
    then obtain n1 where n1: "closing_handle B (run_post_of x) n = Inr n1" using closing.handle_returns [OF Suc.prems(1)] by blast
    have b: "net_bounds B n1" using run_post_bounds [OF n1] Suc.prems(1) by (simp add: net_inv_def)
    from Suc.IH [OF closing.handle_keeps [OF Suc.prems(1) en n1 b]] going_down_step [OF Suc.prems(1) en n1 b Suc.prems(2)]
    obtain j n' where "j \<le> k" "trace (closing_enabled B) (closing_handle B) (net_bounds B) (replicate j (run_post_of x)) n1 n'" "node_stopped x n'" by auto
    with en n1 b show ?thesis by (intro exI [of _ "Suc j"] exI [of _ n']) auto
  qed
qed

text \<open>After unmounting, the stop is the last closure.\<close>

definition pending_posts :: "node_name \<Rightarrow> network \<Rightarrow> nat" where
  "pending_posts x n = (case x of None \<Rightarrow> length (posted (n_master n)) | Some h \<Rightarrow> length (sm_posted (lm (n_links n ! h))))"

lemma length_takeWhile_snoc: "length (takeWhile P (xs @ [y])) \<le> Suc (length xs)" "\<not> P y \<Longrightarrow> length (takeWhile P (xs @ [y])) \<le> length xs"
  by (induction xs) auto

lemma going_down_unmounted:
  assumes "net_inv B (unstop_net n)" and "is_node x n"
  shows "going_down x (Suc (pending_posts x n)) (put_node x (UserFS_stop (node_at x n)) n)"
proof (cases x)
  case None
  have "posted (UserFS_stop (n_master n)) = posted (n_master n) @ [PostStop]"
    using net_inv_managers(1) [OF assms(1)] by (auto simp: UserFS_stop_def TCPManager_stop_def TCPMasterMessager_stop_def posted_def)
  with None show ?thesis
    by (simp add: going_down_def node_stopping_def posts_before_stop_def pending_posts_def length_takeWhile_snoc(2) less_Suc_eq_le)
next
  case (Some h)
  then have h: "h < length (n_links n)" using assms(2) by simp
  have "sm_posted (messager (UserFS_stop (l_slave (n_links n ! h)))) = sm_posted (lm (n_links n ! h)) @ [SlavePostStop]"
    using net_inv_managers(2) [OF assms(1) h] by (auto simp: UserFS_stop_def TCPManager_stop_def TCPSlaveMessager_stop_def messager_def)
  with Some h show ?thesis
    by (simp add: going_down_def node_stopping_def posts_before_stop_def pending_posts_def length_takeWhile_snoc(2) less_Suc_eq_le map_link_def)
qed

subsection \<open>Properties\<close>

text \<open>
  \<^bold>\<open>C9\<close>. Nodes can be unmounted at any time. Let the nodes of a network, the master included, be unmounted at any moments of a run: each posts
  the closure that stops its service, goes on with its handlers until this closure runs, and takes part in nothing afterwards. If no operation
  is reported as successful after its socket was closed, then the network is, but for these closures, one that a run without unmounting reaches;
  and whatever happens next, on nodes that are being unmounted or on others, no handler crashes, unless it is the handler of such a late
  success. Boost.Asio does not promise that there are none; a late success can crash a master with or without unmounting.
\<close>

theorem unmounting_invisible:
  assumes "net_initial B n0" and "trace (closing_possible B) (closing_handle B) (net_bounds B) es n0 n"
    and "avoids closing_late (closing_handle B) es n0"
  shows "net_run B (unstop_net n0) (unstop_net n) \<and>
    (\<forall>ev. closing_possible B ev n \<and> \<not> closing_late ev n \<longrightarrow> (\<exists>n'. closing_handle B ev n = Inr n'))"
proof -
  have inv0: "net_inv B (unstop_net n0)" by (rule net_initial_inv [OF net_initial_unstop [OF assms(1)]])
  have run: "closing_run B n0 n" using closing_trace_run(1) [OF assms(2), of "[]"] assms(3) by simp
  from net_steps_run [OF closing.run_simulates [OF run inv0]] closing.run_safe [OF run inv0] show ?thesis
    unfolding closing_enabled_possible [symmetric] by blast
qed

lemma sample_stopped:
  "\<not> node_stopped None sample_net" "\<not> node_stopped (Some 0) sample_arrived" "\<not> node_stopping (Some 0) sample_arrived" "is_node (Some 0) sample_arrived"
  "pending_posts (Some 0) sample_arrived = 1"
  by (simp_all add: node_stopped_def node_stopping_def pending_posts_def sample_net_def sample_net_master_def TCPMasterMessager_new_def sample_arrived_def
      link_new_def messager_def sample_slave_def TCPSlaveMessager_new_def)

lemma sample_closing: "closing_run tagged_archive sample_net sample_arrived"
  by (rule run_next [OF run_start, where e = "Net (SlaveArrives sample_slave ''10.0.0.7'')"])
    (use sample_arrival sample_stopped(1) in \<open>simp_all del: net_handle.simps net_enabled.simps\<close>)

theorem unmounting_invisible_witness:
  "closing_possible tagged_archive (Unmount (Some 0)) sample_arrived \<and>
    net_run tagged_archive (unstop_net sample_net) (unstop_net sample_arrived) \<and>
    (\<exists>n'. closing_handle tagged_archive (Unmount (Some 0)) sample_arrived = Inr n')"
proof -
  have "trace (closing_possible tagged_archive) (closing_handle tagged_archive) (net_bounds tagged_archive)
      [Net (SlaveArrives sample_slave ''10.0.0.7'')] sample_net sample_arrived"
    "avoids closing_late (closing_handle tagged_archive) [Net (SlaveArrives sample_slave ''10.0.0.7'')] sample_net"
    using sample_arrival sample_stopped(1)
    by (simp_all add: net_enabled_possible split: sum.split del: net_handle.simps net_enabled.simps net_possible.simps)
  from unmounting_invisible [OF sample_net_initial this] sample_stopped show ?thesis by simp
qed

text \<open>
  \<^bold>\<open>C10\<close>. Unmounting comes to an end. When a node is unmounted while \<open>k\<close> closures wait, then running at most
  \<open>k + 1\<close> closures ends its thread, so that the destructor of the manager, which waits for it, returns; and the thread has ended in every
  state in which as many closures have been run since, however they are mixed with other events of this node and of the others,
  which may post further closures.
\<close>

theorem unmount_ends:
  assumes "net_initial B n0" and "closing_run B n0 n" and "closing_enabled B (Unmount x) n" and "closing_handle B (Unmount x) n = Inr n1"
  shows "(\<exists>j n'. j \<le> Suc (pending_posts x n) \<and>
      trace (closing_enabled B) (closing_handle B) (net_bounds B) (replicate j (run_post_of x)) n1 n' \<and> node_stopped x n') \<and>
    (\<forall>es n'. trace (closing_enabled B) (closing_handle B) (net_bounds B) es n1 n' \<and> pending_posts x n < count_list es (run_post_of x) \<longrightarrow>
      node_stopped x n')"
proof -
  have inv: "net_inv B (unstop_net n)" by (rule closing.run_inv [OF assms(2) net_initial_inv [OF net_initial_unstop [OF assms(1)]]])
  have n1: "n1 = put_node x (UserFS_stop (node_at x n)) n" and x: "is_node x n" using assms(3,4) by simp_all
  have inv1: "net_inv B (unstop_net n1)" using inv unstop_Unmount [OF x] n1 by simp
  note down = going_down_unmounted [OF inv x, folded n1]
  have "node_stopped x n'" if "trace (closing_enabled B) (closing_handle B) (net_bounds B) es n1 n'" "pending_posts x n < count_list es (run_post_of x)" for es n'
    using going_down_trace [OF that(1) inv1 down] that(2) by (simp add: going_down_def)
  with run_posts_stop [OF inv1 down] show ?thesis by blast
qed

theorem unmount_ends_witness:
  "\<exists>j n' n1. closing_handle tagged_archive (Unmount (Some 0)) sample_arrived = Inr n1 \<and> j \<le> 2 \<and>
    trace (closing_enabled tagged_archive) (closing_handle tagged_archive) (net_bounds tagged_archive) (replicate j (run_post_of (Some 0))) n1 n' \<and>
    node_stopped (Some 0) n'"
proof -
  have en: "closing_enabled tagged_archive (Unmount (Some 0)) sample_arrived" using sample_stopped by simp
  obtain n1 where n1: "closing_handle tagged_archive (Unmount (Some 0)) sample_arrived = Inr n1" by simp
  from unmount_ends [OF sample_net_initial sample_closing en n1] n1 sample_stopped(5) show ?thesis by (simp add: numeral_2_eq_2 del: closing_handle.simps)
qed

end
