(* ===== verification/Teardown.thy ===== *)
theory Teardown
  imports Shutdown
begin

section \<open>Destroying a file system\<close>

text \<open>
  The rest of unmounting: \<^verbatim>\<open>~UserFS\<close> deletes the SSH sessions before it stops the network thread. What this closes, where
  it goes wrong, and what stays open for good.
\<close>

subsection \<open>Definitions\<close>

text \<open>
  The members of \<^verbatim>\<open>UserFS\<close> are destroyed in the reverse order of their declarations: the SSH manager, in the order \<open>is\<close> in which its map yields the ids, then
  the TCP manager, up to the wait for its thread.
\<close>

definition UserFS_destroy :: "'w libssh \<Rightarrow> u64 list \<Rightarrow> UserFS \<Rightarrow> 'w \<Rightarrow> (UserFS \<times> 'w) result" where
  "UserFS_destroy L is fs w =
     res_bind (SSHManager_destroy L is (u_ssh_manager fs) w) (\<lambda>w. Inr (UserFS_stop (fs\<lparr>u_ssh_manager := SSHManager_new\<rparr>), w))"

text \<open>No handle of a session is in the tables; a session whose pointers were never set; tables with fewer entries.\<close>

definition released :: "ssh_tables \<Rightarrow> SSHSession \<Rightarrow> bool" where
  "released tb s \<longleftrightarrow>
     (\<forall>a. (ss_ssh_session s = Ptr a \<longrightarrow> st_sessions tb a = None) \<and> (ss_sftp_session s = Ptr a \<longrightarrow> st_channels tb a = None) \<and>
        (ss_file_handle s = Ptr a \<longrightarrow> st_files tb a = None))"

definition unused :: "SSHSession \<Rightarrow> bool" where
  "unused s \<longleftrightarrow> ss_ssh_session s = Uninit \<and> ss_sftp_session s = Uninit \<and> ss_file_handle s = Uninit"

definition fewer :: "ssh_tables \<Rightarrow> ssh_tables \<Rightarrow> bool" where
  "fewer tb' tb \<longleftrightarrow> (\<forall>a. (st_sessions tb a = None \<longrightarrow> st_sessions tb' a = None) \<and> (st_channels tb a = None \<longrightarrow> st_channels tb' a = None) \<and>
     (st_files tb a = None \<longrightarrow> st_files tb' a = None))"

subsection \<open>Lemmas\<close>

lemma fewer_released: "released tb s \<Longrightarrow> fewer tb' tb \<Longrightarrow> released tb' s"
  by (auto simp: released_def fewer_def)

lemma fewer_trans: "fewer a b \<Longrightarrow> fewer b c \<Longrightarrow> fewer a c"
  by (auto simp: fewer_def)

lemma disconnect_releases:
  assumes "libssh_documented L T disk" and "SSHSession_disconnect L s w = Inr (s', w')"
  shows "released (T w') s" and "fewer (T w') (T w)"
proof -
  note free = ssh_laws(7-9) [OF assms(1)] sftp_laws(4,7) [OF assms(1)]
  show "released (T w') s" "fewer (T w') (T w)"
    using assms(2)
    by (cases "ss_file_handle s"; cases "ss_sftp_session s"; cases "ss_ssh_session s";
        auto simp: SSHSession_disconnect_def Let_def released_def fewer_def free)+
qed

lemma session_ok_inited: "session_ok tb s \<Longrightarrow> \<not> unused s \<Longrightarrow> session_inited s"
  by (auto simp: session_ok_def unused_def session_live_def session_closed_def session_inited_def)

lemma disconnect_unused: "unused s \<Longrightarrow> SSHSession_disconnect L s w = Inl UninitRead"
  by (simp add: unused_def SSHSession_disconnect_def)

lemma sessions_ok_on:
  "sessions_ok tb (sm |` A) \<longleftrightarrow>
     (\<forall>i\<in>A. \<forall>s. sm i = Some s \<longrightarrow> session_ok tb s) \<and> (\<forall>i\<in>A. \<forall>j\<in>A. \<forall>s x. i \<noteq> j \<longrightarrow> sm i = Some s \<longrightarrow> sm j = Some x \<longrightarrow> apart s x)"
  by (auto simp: sessions_ok_def restrict_map_def split: if_splits)

text \<open>Deleting one session leaves the others in order.\<close>

lemma destroy_next:
  assumes "libssh_documented L T disk" and "sessions_ok (T w) (sm |` set (i # is))" and "i \<notin> set is" and "sm i = Some s" and "\<not> unused s"
  obtains w1 where "SSHManager_destroy L (i # is) sm w = SSHManager_destroy L is sm w1" and "sessions_ok (T w1) (sm |` set is)"
    and "released (T w1) s" and "fewer (T w1) (T w)"
proof -
  have ok: "session_ok (T w) s" using assms(2,4) by (simp add: sessions_ok_on)
  obtain s' w1 where d: "SSHSession_disconnect L s w = Inr (s', w1)" using disconnect_ok [OF session_ok_inited [OF ok assms(5)], of L w] by blast
  have other: "session_ok (T w) x" "apart s x" if "sm j = Some x" "j \<in> set is" for j x
    using assms(2-4) that by (auto simp: sessions_ok_on)
  have "sessions_ok (T w1) (sm |` set is)"
    using assms(2) touches_apart(1) [OF disconnect_touches [OF assms(1) d, THEN conjunct1]] other by (auto simp: sessions_ok_on)
  with that [of w1] d assms(4) disconnect_releases [OF assms(1) d] show thesis by simp
qed

lemma destroy_crashes:
  assumes "libssh_documented L T disk" and "distinct is" and "sessions_ok (T w) (sm |` set is)" and "i \<in> set is" and "sm i = Some s" and "unused s"
  shows "SSHManager_destroy L is sm w = Inl UninitRead"
  using assms(2-4)
proof (induction "is" arbitrary: w)
  case (Cons j "is")
  have rest: "sessions_ok (T w) (sm |` set is)" using Cons.prems(2) by (simp add: sessions_ok_on)
  show ?case
  proof (cases "sm j")
    case None
    with Cons.IH [OF _ rest] Cons.prems(1,3) assms(5) show ?thesis by auto
  next
    case (Some x)
    show ?thesis
    proof (cases "unused x")
      case True
      with Some disconnect_unused [OF True, of L w] show ?thesis by simp
    next
      case False
      obtain w1 where "SSHManager_destroy L (j # is) sm w = SSHManager_destroy L is sm w1" "sessions_ok (T w1) (sm |` set is)"
        by (rule destroy_next [OF assms(1) Cons.prems(2) _ Some False]) (use Cons.prems(1) in simp)
      moreover have "i \<in> set is" using Cons.prems(3) Some False assms(5,6) by auto
      ultimately show ?thesis using Cons.IH [of w1] Cons.prems(1) by simp
    qed
  qed
qed simp

lemma destroy_releases:
  assumes "libssh_documented L T disk" and "distinct is" and "sessions_ok (T w) (sm |` set is)"
    and "\<And>i s. i \<in> set is \<Longrightarrow> sm i = Some s \<Longrightarrow> \<not> unused s"
  shows "\<exists>w'. SSHManager_destroy L is sm w = Inr w' \<and> fewer (T w') (T w) \<and> (\<forall>i\<in>set is. \<forall>s. sm i = Some s \<longrightarrow> released (T w') s)"
  using assms(2-4)
proof (induction "is" arbitrary: w)
  case Nil
  then show ?case by (simp add: fewer_def)
next
  case (Cons j "is")
  have rest: "sessions_ok (T w) (sm |` set is)" using Cons.prems(2) by (simp add: sessions_ok_on)
  show ?case
  proof (cases "sm j")
    case None
    have "\<exists>w'. SSHManager_destroy L is sm w = Inr w' \<and> fewer (T w') (T w) \<and> (\<forall>i\<in>set is. \<forall>s. sm i = Some s \<longrightarrow> released (T w') s)"
      by (rule Cons.IH [OF _ rest]) (use Cons.prems(1,3) in auto)
    with None show ?thesis by simp
  next
    case (Some x)
    obtain w1 where w1: "SSHManager_destroy L (j # is) sm w = SSHManager_destroy L is sm w1" "sessions_ok (T w1) (sm |` set is)"
      "released (T w1) x" "fewer (T w1) (T w)"
      by (rule destroy_next [OF assms(1) Cons.prems(2) _ Some Cons.prems(3) [OF _ Some]]) (use Cons.prems(1) in simp_all)
    from Cons.IH [OF _ w1(2)] Cons.prems(1,3) obtain w' where "SSHManager_destroy L is sm w1 = Inr w'" "fewer (T w') (T w1)"
      "\<forall>i\<in>set is. \<forall>s. sm i = Some s \<longrightarrow> released (T w') s" by auto
    with w1(1) fewer_trans [OF _ w1(4)] fewer_released [OF w1(3)] Some show ?thesis by (intro exI [of _ w']) auto
  qed
qed

text \<open>All sessions of a node, in whatever order the map yields them.\<close>

lemma UserFS_destroy_sessions:
  assumes "libssh_documented L T disk" and "sessions_ok (T w) (u_ssh_manager fs)" and "distinct is" and "set is = dom (u_ssh_manager fs)"
  shows "u_ssh_manager fs i = Some s \<Longrightarrow> unused s \<Longrightarrow> UserFS_destroy L is fs w = Inl UninitRead"
    and "(\<And>i s. u_ssh_manager fs i = Some s \<Longrightarrow> \<not> unused s) \<Longrightarrow>
      \<exists>w'. UserFS_destroy L is fs w = Inr (UserFS_stop (fs\<lparr>u_ssh_manager := SSHManager_new\<rparr>), w') \<and>
        (\<forall>i s. u_ssh_manager fs i = Some s \<longrightarrow> released (T w') s)"
proof -
  have ok: "sessions_ok (T w) (u_ssh_manager fs |` set is)" using assms(2,4) by (simp add: restrict_map_def sessions_ok_def dom_def)
  show "UserFS_destroy L is fs w = Inl UninitRead" if "u_ssh_manager fs i = Some s" "unused s"
    using destroy_crashes [OF assms(1,3) ok _ that] assms(4) that(1) by (simp add: UserFS_destroy_def domI)
  show "\<exists>w'. UserFS_destroy L is fs w = Inr (UserFS_stop (fs\<lparr>u_ssh_manager := SSHManager_new\<rparr>), w') \<and>
      (\<forall>i s. u_ssh_manager fs i = Some s \<longrightarrow> released (T w') s)" if x: "\<And>i s. u_ssh_manager fs i = Some s \<Longrightarrow> \<not> unused s"
  proof -
    obtain w' where "SSHManager_destroy L is (u_ssh_manager fs) w = Inr w'" "\<forall>i\<in>set is. \<forall>s. u_ssh_manager fs i = Some s \<longrightarrow> released (T w') s"
      using destroy_releases [OF assms(1,3) ok] x by blast
    with assms(4) show ?thesis by (auto simp: UserFS_destroy_def dom_def)
  qed
qed

subsection \<open>The session of a master for its own files\<close>

lemma own_read_session:
  assumes "UserFS_read path_append files L i path offset n fs w = Inr (r, fs', w')"
  shows "u_ssh_manager fs' (u_host_id fs) =
    (if i = u_host_id fs \<and> u_ssh_manager fs i = None
     then Some (SSHSession_new (h_address (u_hosts fs ! unat i)) (h_ssh_port (u_hosts fs ! unat i)))
     else u_ssh_manager fs (u_host_id fs))"
  using assms
  by (auto simp: UserFS_read_def res_bind_eq_Inr SSHManager_findHost_def SSHManager_insertHost_def SSHManager_read_def Let_def Hosts_at_def
      split: if_splits option.splits)

lemma unused_new: "unused (SSHSession_new a p)"
  by (simp add: unused_def SSHSession_new_def)

lemma master_read_session:
  assumes "FUSE_read path_elements path_append files L path sz offset (FUSE_initialize fs) w = Inr (r, Some fs', w')"
  shows "u_host_id fs' = u_host_id fs"
    and "(\<forall>s. u_ssh_manager fs (u_host_id fs) = Some s \<longrightarrow> unused s) \<Longrightarrow> (\<forall>s. u_ssh_manager fs' (u_host_id fs) = Some s \<longrightarrow> unused s)"
    and "u_ssh_manager fs (u_host_id fs) \<noteq> None \<Longrightarrow> u_ssh_manager fs' (u_host_id fs) \<noteq> None"
proof -
  obtain k d where "r = (k, d)" by fastforce
  with assms have run: "FUSE_read path_elements path_append files L path sz offset (Some fs) w = Inr ((k, d), Some fs', w')" by (simp add: FUSE_initialize_def)
  from run have "u_host_id fs' = u_host_id fs \<and> ((\<forall>s. u_ssh_manager fs (u_host_id fs) = Some s \<longrightarrow> unused s) \<longrightarrow> (\<forall>s. u_ssh_manager fs' (u_host_id fs) = Some s \<longrightarrow> unused s)) \<and>
      (u_ssh_manager fs (u_host_id fs) \<noteq> None \<longrightarrow> u_ssh_manager fs' (u_host_id fs) \<noteq> None)"
  proof (cases rule: FUSE_read_cases)
    case (asked node b x)
    have "u_host_id x = u_host_id fs"
      using asked(4) by (auto simp: UserFS_read_def res_bind_eq_Inr Let_def split: if_splits)
    with own_read_session [OF asked(4)] asked(3) unused_new show ?thesis by auto
  qed simp
  then show "u_host_id fs' = u_host_id fs"
    "(\<forall>s. u_ssh_manager fs (u_host_id fs) = Some s \<longrightarrow> unused s) \<Longrightarrow> (\<forall>s. u_ssh_manager fs' (u_host_id fs) = Some s \<longrightarrow> unused s)"
    "u_ssh_manager fs (u_host_id fs) \<noteq> None \<Longrightarrow> u_ssh_manager fs' (u_host_id fs) \<noteq> None" by blast+
qed


definition own_session :: "'w mounted \<Rightarrow> SSHSession option" where
  "own_session c = u_ssh_manager (n_master (mt_net c)) 1"

lemma master_id: "net_inv B n \<Longrightarrow> u_host_id (n_master n) = 1"
  by (simp add: net_inv_def master_inv_def master_role_def)

lemma own_session_step:
  assumes "mounted_step B path_elements path_append files L c c'" and "net_inv B (mt_net c)"
  shows "(\<forall>s. own_session c = Some s \<longrightarrow> unused s) \<longrightarrow> (\<forall>s. own_session c' = Some s \<longrightarrow> unused s)"
    and "own_session c \<noteq> None \<longrightarrow> own_session c' \<noteq> None"
proof -
  note id = master_id [OF assms(2)]
  have "((\<forall>s. own_session c = Some s \<longrightarrow> unused s) \<longrightarrow> (\<forall>s. own_session c' = Some s \<longrightarrow> unused s)) \<and> (own_session c \<noteq> None \<longrightarrow> own_session c' \<noteq> None)"
    using assms(1)
  proof (cases rule: mounted_step.cases)
    case (network ev n')
    from net_event_ssh(1) [OF network(3)] network(1) show ?thesis by (simp add: own_session_def)
  next
    case (served x path sz offset r fs w)
    show ?thesis
    proof (cases x)
      case None
      have "u_ssh_manager (node_at x (mt_net c)) 1 = own_session c" "u_ssh_manager fs 1 = own_session c'" "u_host_id (node_at x (mt_net c)) = 1"
        using None served(1) id by (simp_all add: own_session_def)
      with master_read_session(2,3) [OF served(3)] show ?thesis by metis
    next
      case (Some h)
      with served(1) show ?thesis by (simp add: own_session_def map_link_def)
    qed
  qed
  then show "(\<forall>s. own_session c = Some s \<longrightarrow> unused s) \<longrightarrow> (\<forall>s. own_session c' = Some s \<longrightarrow> unused s)"
    and "own_session c \<noteq> None \<longrightarrow> own_session c' \<noteq> None" by blast+
qed

lemma own_session_run:
  assumes "libssh_documented L T disk" and "(mounted_step B path_elements path_append files L)\<^sup>*\<^sup>* c c'" and "mounted_inv B T m0 c"
    and "\<forall>s. own_session c = Some s \<longrightarrow> unused s"
  shows "\<forall>s. own_session c' = Some s \<longrightarrow> unused s" and "own_session c \<noteq> None \<longrightarrow> own_session c' \<noteq> None"
proof -
  have "(\<forall>s. own_session c' = Some s \<longrightarrow> unused s) \<and> (own_session c \<noteq> None \<longrightarrow> own_session c' \<noteq> None)"
    using assms(2)
  proof (induction rule: rtranclp_induct)
    case (step c1 c2)
    note inv = mounted_invD(1) [OF mounted_run_inv [OF assms(1) step(1) assms(3)]]
    from own_session_step [OF step(2) inv] step(3) show ?case by blast
  qed (use assms(4) in blast)
  then show "\<forall>s. own_session c' = Some s \<longrightarrow> unused s" and "own_session c \<noteq> None \<longrightarrow> own_session c' \<noteq> None" by blast+
qed

lemma own_file_read:
  assumes "FUSE_read path_elements path_append files L path sz offset (FUSE_initialize fs) w = Inr ((k, d), Some fs', w')" and "0 < k"
    and "UserFS_find path_elements path fs = Inr (Some node)" and "tn_host_id node = u_host_id fs"
  shows "u_ssh_manager fs' (u_host_id fs) \<noteq> None"
  using assms(1) [unfolded FUSE_initialize_def]
proof (cases rule: FUSE_read_cases)
  case answered
  with assms(2) show ?thesis by simp
next
  case (asked node' b x)
  with assms(3,4) own_read_session [OF asked(4)] show ?thesis by auto
qed


subsection \<open>Handles that nothing refers to\<close>

lemma fresh_read_forgets: "SSHSession_fresh_read L path offset n s w = SSHSession_fresh_read L path offset n (s\<lparr>ss_ssh_session := Null\<rparr>) w"
proof -
  have "SSHSession_do_connect L path s w = SSHSession_do_connect L path (s\<lparr>ss_ssh_session := Null\<rparr>) w"
    by (cases "l_ssh_new L w"; cases "fst (l_ssh_new L w)") (simp_all add: SSHSession_do_connect_def)
  then show ?thesis by (simp add: SSHSession_fresh_read_def SSHSession_connect_def)
qed

lemma other_file_forgets:
  assumes "libssh_documented L T disk" and "st_sessions (T w) h \<noteq> None" and "ss_file_open s \<noteq> path" and "SSHSession_read L path offset n s w = Inr ((k, d), s', w')"
  shows "st_sessions (T w') h \<noteq> None" and "ss_ssh_session s' \<noteq> Ptr h"
proof -
  have "SSHSession_fresh_read L path offset n (s\<lparr>ss_ssh_session := Null\<rparr>) w = Inr ((k, d), s', w')"
    using assms(3,4) by (simp add: SSHSession_read_def fresh_read_forgets [symmetric])
  from fresh_read_reads [OF assms(1) this] have "touched (st_sessions (T w)) Null (st_sessions (T w')) (ss_ssh_session s')"
    by (simp add: reads_def touches_def)
  with assms(2) show "st_sessions (T w') h \<noteq> None" "ss_ssh_session s' \<noteq> Ptr h" unfolding touched_def by auto
qed

lemma destroy_keeps:
  assumes "libssh_documented L T disk" and "SSHManager_destroy L is sm w = Inr w'" and "st_sessions (T w) h \<noteq> None"
    and "\<And>i s. sm i = Some s \<Longrightarrow> ss_ssh_session s \<noteq> Ptr h"
  shows "st_sessions (T w') h \<noteq> None"
  using assms(2,3)
proof (induction "is" arbitrary: w)
  case (Cons i "is")
  show ?case
  proof (cases "sm i")
    case None
    with Cons show ?thesis by simp
  next
    case (Some s)
    then obtain s' w1 where d: "SSHSession_disconnect L s w = Inr (s', w1)" "SSHManager_destroy L is sm w1 = Inr w'"
      using Cons.prems(1) by (auto simp: res_bind_eq_Inr)
    have "st_sessions (T w1) h \<noteq> None"
      using disconnect_touches [OF assms(1) d(1)] Cons.prems(2) assms(4) [OF Some] by (auto simp: touches_def touched_def)
    with Cons.IH [OF d(2)] show ?thesis by blast
  qed
qed simp

subsection \<open>A node that has a file open\<close>

definition sample_session :: SSHSession where
  "sample_session = \<lparr>ss_address = ''10.0.0.7'', ss_port = 22, ss_ssh_session = Ptr 0, ss_sftp_session = Ptr 1, ss_file_handle = Ptr 2, ss_file_open = ''/slave/x''\<rparr>"

definition sample_open :: ssh_tables where
  "sample_open = \<lparr>st_sessions = [0 \<mapsto> (''10.0.0.7'', 22)], st_channels = [1 \<mapsto> 0], st_files = [2 \<mapsto> (1, ''/slave/x'', 0)]\<rparr>"

definition sample_reader :: UserFS where
  "sample_reader = UserFS_new\<lparr>u_host_id := 1, u_hosts := replicate 3 ((sample_host 2)\<lparr>h_working_dir := ''/slave/''\<rparr>), u_ssh_manager := [2 \<mapsto> sample_session]\<rparr>"

subsection \<open>Properties\<close>

text \<open>
  \<^bold>\<open>C12\<close>. Unmounting closes the SSH sessions. Take a network whose nodes have served any reads, on a libssh that does what is
  documented, and destroy the file system of a node. If all its sessions have been connected at some time, the destructor
  returns: every session was closed already or was open, and is closed now, with its SFTP session and its file. If one session was created and never
  connected, the destructor decides on an indeterminate pointer instead.
\<close>

theorem unmount_releases_sessions:
  fixes c :: "'w mounted"
  assumes "libssh_documented L T disk" and "mounted_initial B c0" and "(mounted_step B path_elements path_append files L)\<^sup>*\<^sup>* c0 c"
    and "is_node x (mt_net c)" and "distinct is" and "set is = dom (u_ssh_manager (node_at x (mt_net c)))"
  defines "fs \<equiv> node_at x (mt_net c)"
  shows "if \<exists>i s. u_ssh_manager fs i = Some s \<and> unused s then UserFS_destroy L is fs (mt_worlds c x) = Inl UninitRead
    else \<exists>w'. UserFS_destroy L is fs (mt_worlds c x) = Inr (UserFS_stop (fs\<lparr>u_ssh_manager := SSHManager_new\<rparr>), w') \<and>
      (\<forall>i s. u_ssh_manager fs i = Some s \<longrightarrow> session_closed s \<or> session_live (T (mt_worlds c x)) s \<and> released (T w') s)"
proof -
  have ok: "sessions_ok (T (mt_worlds c x)) (u_ssh_manager fs)"
    using mounted_invD(4) [OF mounted_run_inv [OF assms(1,3) mounted_initial_inv [OF assms(2)]] assms(4)] by (simp add: fs_def)
  have kind: "session_closed s \<or> session_live (T (mt_worlds c x)) s" if "u_ssh_manager fs i = Some s" "\<not> unused s" for i s
    using ok that by (auto simp: sessions_ok_def session_ok_def unused_def)
  note destroy = UserFS_destroy_sessions [OF assms(1) ok assms(5,6) [folded fs_def]]
  show ?thesis
  proof (cases "\<exists>i s. u_ssh_manager fs i = Some s \<and> unused s")
    case True
    with destroy(1) show ?thesis by auto
  next
    case False
    with destroy(2) obtain w' where "UserFS_destroy L is fs (mt_worlds c x) = Inr (UserFS_stop (fs\<lparr>u_ssh_manager := SSHManager_new\<rparr>), w')"
      "\<forall>i s. u_ssh_manager fs i = Some s \<longrightarrow> released (T w') s" by blast
    with False kind show ?thesis by (simp only: if_False) blast
  qed
qed

theorem unmount_releases_sessions_witness:
  "\<exists>(c :: (ssh_tables \<times> nat) mounted) s w'.
    (mounted_step tagged_archive (\<lambda>_. [''/'', ''master_file1'']) (\<lambda>a b. a @ ''/'' @ b) (\<lambda>_ _. NoFile) (table_libssh (\<lambda>_ _ _. [5, 6, 7])))\<^sup>*\<^sup>* sample_mounted c \<and>
    u_ssh_manager (n_master (mt_net c)) 2 = Some s \<and>
    UserFS_destroy (table_libssh (\<lambda>_ _ _. [5, 6, 7])) [2] (n_master (mt_net c)) (mt_worlds c None) =
      Inr (UserFS_stop ((n_master (mt_net c))\<lparr>u_ssh_manager := SSHManager_new\<rparr>), w') \<and>
    (session_closed s \<or> released (fst w') s)"
proof -
  let ?pe = "\<lambda>_ :: string. [''/'', ''master_file1'']" and ?pa = "\<lambda>a b :: string. a @ ''/'' @ b" and ?L = "table_libssh (\<lambda>_ _ _. [5, 6, 7])"
  let ?files = "\<lambda>(_ :: node_name) (_ :: string). NoFile"
  obtain n fs w s where run: "(mounted_step tagged_archive ?pe ?pa ?files ?L)\<^sup>*\<^sup>* sample_mounted (sample_mounted\<lparr>mt_net := n\<rparr>)"
    and rd: "FUSE_read ?pe ?pa (\<lambda>_. NoFile) ?L ''/master_file1'' 2 0 (FUSE_initialize (n_master n)) (no_tables, 0) = Inr ((2, [5, 6]), Some fs, w)"
    and s: "u_ssh_manager fs = [2 \<mapsto> s]" "ss_file_handle s \<noteq> Uninit" by (rule sample_remote_read [OF refl])
  let ?c = "sample_mounted\<lparr>mt_net := n\<rparr>"
  let ?c1 = "?c\<lparr>mt_net := put_node None fs (mt_net ?c), mt_worlds := (mt_worlds ?c)(None := w)\<rparr>"
  have "mounted_step tagged_archive ?pe ?pa ?files ?L ?c ?c1"
    by (rule mounted_step.served [where r = "(2, [5, 6])" and path = "''/master_file1''" and sz = 2 and offset = 0]) (use rd in \<open>simp_all add: sample_mounted_def\<close>)
  with run have run1: "(mounted_step tagged_archive ?pe ?pa ?files ?L)\<^sup>*\<^sup>* sample_mounted ?c1" by (rule rtranclp.rtrancl_into_rtrancl)
  have m: "n_master (mt_net ?c1) = fs" by simp
  have none: "(\<exists>i x. u_ssh_manager fs i = Some x \<and> unused x) = False" using s by (auto simp: unused_def)
  have dom: "node_at None (mt_net ?c1) = fs" "set [2] = dom (u_ssh_manager (node_at None (mt_net ?c1)))" "is_node None (mt_net ?c1)" using s(1) by simp_all
  note destroys = unmount_releases_sessions [OF table_libssh_documented sample_mounted_initial run1 dom(3) _ dom(2), unfolded dom(1) none if_False]
  obtain w' where "UserFS_destroy ?L [2] fs (mt_worlds ?c1 None) = Inr (UserFS_stop (fs\<lparr>u_ssh_manager := SSHManager_new\<rparr>), w')"
    "\<forall>i s. u_ssh_manager fs i = Some s \<longrightarrow> session_closed s \<or> session_live (fst (mt_worlds ?c1 None)) s \<and> released (fst w') s"
    using destroys by auto
  moreover from this(2) s(1) have "session_closed s \<or> released (fst w') s" by (metis fun_upd_same)
  ultimately show ?thesis using run1 m s(1) by (intro exI [of _ ?c1] exI [of _ s] exI [of _ w']) simp
qed

text \<open>
  \<^bold>\<open>C31\<close>. Reading one's own files spoils the unmounting. Once a master has served a read of a file of its own, successfully, its file
  system cannot be destroyed properly, whatever is read and whatever happens in the network before and afterwards: the read has created a session for the
  master itself, which is never used, and its destructor decides on an indeterminate pointer.
\<close>

theorem own_read_spoils_unmount:
  fixes c :: "'w mounted"
  assumes "libssh_documented L T disk" and "mounted_initial B c0" and "(mounted_step B path_elements path_append files L)\<^sup>*\<^sup>* c0 c"
    and "UserFS_find path_elements path (n_master (mt_net c)) = Inr (Some node)" and "tn_host_id node = 1"
    and "FUSE_read path_elements path_append (files None) L path sz offset (FUSE_initialize (n_master (mt_net c))) (mt_worlds c None) = Inr ((k, d), Some fs, w)"
    and "0 < k" and "(mounted_step B path_elements path_append files L)\<^sup>*\<^sup>*
      (c\<lparr>mt_net := put_node None fs (mt_net c), mt_worlds := (mt_worlds c)(None := w)\<rparr>) c'"
    and "distinct is" and "set is = dom (u_ssh_manager (n_master (mt_net c')))"
  shows "UserFS_destroy L is (n_master (mt_net c')) (mt_worlds c' None) = Inl UninitRead"
proof -
  let ?c1 = "c\<lparr>mt_net := put_node None fs (mt_net c), mt_worlds := (mt_worlds c)(None := w)\<rparr>"
  note inv0 = mounted_initial_inv [OF assms(2), of T]
  note inv = mounted_run_inv [OF assms(1,3) inv0]
  have new: "\<forall>s. own_session c0 = Some s \<longrightarrow> unused s" using assms(2) by (simp add: mounted_initial_def own_session_def SSHManager_new_def)
  note un = own_session_run(1) [OF assms(1,3) inv0 new]
  have step: "mounted_step B path_elements path_append files L c ?c1"
    using mounted_step.served [where x = None and c = c] assms(6) by simp
  note inv1 = mounted_run_inv [OF assms(1) r_into_rtranclp [of "mounted_step B path_elements path_append files L", OF step] inv]
  have "own_session ?c1 \<noteq> None"
    using own_file_read [OF assms(6,7,4)] assms(5) master_id [OF mounted_invD(1) [OF inv]] by (simp add: own_session_def)
  with own_session_run [OF assms(1,8) inv1] own_session_step(1) [OF step mounted_invD(1) [OF inv]] un
  obtain s where "u_ssh_manager (n_master (mt_net c')) 1 = Some s" "unused s" unfolding own_session_def by (metis not_None_eq)
  moreover have "sessions_ok (T (mt_worlds c' None)) (u_ssh_manager (n_master (mt_net c')))"
    using mounted_invD(4) [OF mounted_run_inv [OF assms(1,8) inv1], of None] by simp
  ultimately show ?thesis using UserFS_destroy_sessions(1) [OF assms(1) _ assms(9,10)] by blast
qed

theorem own_read_spoils_unmount_witness:
  "\<exists>c :: (ssh_tables \<times> nat) mounted.
    (mounted_step tagged_archive b_elements (\<lambda>a b. a @ ''/'' @ b) (\<lambda>_ _. Contents [1, 2, 3]) (table_libssh sample_disk))\<^sup>*\<^sup>* sample_mounted c \<and>
    UserFS_destroy (table_libssh sample_disk) [1] (n_master (mt_net c)) (mt_worlds c None) = Inl UninitRead"
proof -
  let ?pa = "\<lambda>a b :: string. a @ ''/'' @ b" and ?L = "table_libssh sample_disk" and ?files = "\<lambda>(_ :: node_name) (_ :: string). Contents [1, 2, 3]"
  obtain n where run: "(mounted_step tagged_archive b_elements ?pa ?files ?L)\<^sup>*\<^sup>* sample_mounted (sample_mounted\<lparr>mt_net := n\<rparr>)"
    and inv: "net_inv tagged_archive n" "origin (n_master sample_net) n" and ssh: "u_ssh_manager (n_master n) = SSHManager_new"
    and tree: "u_dir_tree (n_master n) = sample_merged" by (rule sample_mounts)
  let ?c = "sample_mounted\<lparr>mt_net := n\<rparr>" and ?node = "TreeNode REGULAR 22 0 0 0 5 0 1 1 ''b.txt'' []"
  obtain r where r: "sample_merged = Some r" "lookup_path r [''b.txt''] = Some ?node" using sample_merged_lookup by blast
  have find: "UserFS_find b_elements ''/b.txt'' (n_master n) = Inr (Some ?node)"
    using find_plain [of b_elements "''/b.txt''" "[''b.txt'']" "n_master n" r] r tree by (simp add: b_elements_def)
  have id: "u_host_id (n_master n) = 1" by (rule master_id [OF inv(1)])
  obtain host where host: "Hosts_at (u_hosts (n_master n)) 1 = Inr host"
    using found_at_node [OF sample_net_initial inv, of None b_elements "''/b.txt''" "''b.txt''" "[]"] find by (auto simp: up_to_date_def b_elements_def)
  let ?s = "SSHSession_new (h_address host) (h_ssh_port host)"
  let ?fs = "(n_master n)\<lparr>u_ssh_manager := [1 \<mapsto> ?s]\<rparr>"
  have "UserFS_read ?pa (\<lambda>_. Contents [1, 2, 3]) ?L 1 ''/b.txt'' 0 2 (n_master n) (no_tables, 0) = Inr ((2, [1, 2]), ?fs, (no_tables, 0))"
    using host id ssh by (simp add: UserFS_read_def SSHManager_findHost_def SSHManager_insertHost_def SSHManager_new_def ifstream_read_def)
  then have rd: "FUSE_read b_elements ?pa (?files None) ?L ''/b.txt'' 2 0 (FUSE_initialize (n_master (mt_net ?c))) (mt_worlds ?c None) = Inr ((2, [1, 2]), Some ?fs, (no_tables, 0))"
    by (simp add: FUSE_read_def FUSE_initialize_def find to_int32_small sample_mounted_def)
  let ?c1 = "?c\<lparr>mt_net := put_node None ?fs (mt_net ?c), mt_worlds := (mt_worlds ?c)(None := (no_tables, 0))\<rparr>"
  have "mounted_step tagged_archive b_elements ?pa ?files ?L ?c ?c1"
    by (rule mounted_step.served [where r = "(2, [1, 2])" and path = "''/b.txt''" and sz = 2 and offset = 0]) (use rd in simp_all)
  with run have run1: "(mounted_step tagged_archive b_elements ?pa ?files ?L)\<^sup>*\<^sup>* sample_mounted ?c1" by (rule rtranclp.rtrancl_into_rtrancl)
  have "UserFS_destroy ?L [1] (n_master (mt_net ?c1)) (mt_worlds ?c1 None) = Inl UninitRead"
    by (rule own_read_spoils_unmount [OF table_libssh_documented sample_mounted_initial run _ _ rd _ rtranclp.rtrancl_refl, of ?node]) (use find in simp_all)
  with run1 show ?thesis by blast
qed

text \<open>
  \<^bold>\<open>C32\<close>. Reading another file leaks a session. A node has a file of a host open and reads another file of the same
  host, successfully or not. Then the SSH session of the first file is left open and nothing refers to it: it is open even after the
  destructor has deleted all sessions.
\<close>

theorem other_file_leaks_session:
  assumes "libssh_documented L T disk" and "sessions_ok (T w) (u_ssh_manager fs)"
    and "u_ssh_manager fs i = Some s" and "i \<noteq> u_host_id fs" and "session_live (T w) s" and "ss_ssh_session s = Ptr h"
    and "Hosts_at (u_hosts fs) i = Inr host" and "path_append (h_working_dir host) rel \<noteq> ss_file_open s"
    and "UserFS_read path_append files L i (CHR ''/'' # rel) offset n fs w = Inr (r, fs', w')"
    and "UserFS_destroy L is fs' w' = Inr (fs'', w'')"
  shows "st_sessions (T w'') h \<noteq> None"
proof -
  obtain k d where r: "r = (k, d)" by fastforce
  obtain s' where s': "SSHSession_read L (path_append (h_working_dir host) rel) offset n s w = Inr ((k, d), s', w')"
    "u_ssh_manager fs' = (u_ssh_manager fs)(i \<mapsto> s')"
    using assms(9) remote_read [OF assms(7,4), of "CHR ''/'' # rel" rel path_append files L offset n w] assms(3) r by (auto simp: res_bind_eq_Inr)
  have live: "st_sessions (T w) h \<noteq> None" using assms(5,6) by (auto simp: session_live_def)
  note forgets = other_file_forgets [OF assms(1) live assms(8) [symmetric] s'(1)]
  have "ss_ssh_session x \<noteq> Ptr h" if "u_ssh_manager fs' j = Some x" for j x
  proof (cases "j = i")
    case True
    with that s'(2) forgets(2) show ?thesis by simp
  next
    case False
    with that s'(2) assms(2,3) have "apart s x" unfolding sessions_ok_def by (metis fun_upd_apply)
    with assms(6) show ?thesis by (simp add: apart_def)
  qed
  with destroy_keeps [OF assms(1) _ forgets(1)] assms(10) show ?thesis by (auto simp: UserFS_destroy_def res_bind_eq_Inr)
qed

theorem other_file_leaks_session_witness:
  "\<exists>fs' w' fs'' w''. UserFS_read (\<lambda>a b. a @ b) (\<lambda>_. NoFile) (table_libssh sample_disk) 2 ''/y'' 0 1 sample_reader (sample_open, 3) = Inr ((1, [1]), fs', w') \<and>
    UserFS_destroy (table_libssh sample_disk) [2] fs' w' = Inr (fs'', w'') \<and> st_sessions (fst w'') 0 \<noteq> None"
proof -
  let ?L = "table_libssh sample_disk"
  obtain fs' w' where rd: "UserFS_read (\<lambda>a b. a @ b) (\<lambda>_. NoFile) ?L 2 ''/y'' 0 1 sample_reader (sample_open, 3) = Inr ((1, [1]), fs', w')"
    and destroy: "\<exists>x. UserFS_destroy ?L [2] fs' w' = Inr x"
    by (simp add: UserFS_read_def SSHManager_findHost_def SSHManager_read_def SSHSession_read_def SSHSession_fresh_read_def SSHSession_connect_def SSHSession_do_connect_def
        SSHSession_do_read_def sample_reader_def sample_session_def sample_open_def table_libssh_def table_read_def Let_def Hosts_at_def UserFS_new_def sample_disk_def
        UserFS_destroy_def SSHSession_disconnect_def)
  then obtain fs'' w'' where d: "UserFS_destroy ?L [2] fs' w' = Inr (fs'', w'')" by auto
  have live: "session_live sample_open sample_session" "ss_ssh_session sample_session = Ptr 0" "''/slave/y'' \<noteq> ss_file_open sample_session"
    by (simp_all add: session_live_def sample_session_def sample_open_def)
  have reader: "u_ssh_manager sample_reader 2 = Some sample_session" "(2 :: u64) \<noteq> u_host_id sample_reader"
    "Hosts_at (u_hosts sample_reader) 2 = Inr ((sample_host 2)\<lparr>h_working_dir := ''/slave/''\<rparr>)" "sessions_ok (fst (sample_open, 3 :: nat)) (u_ssh_manager sample_reader)"
    using live(1) by (simp_all add: sample_reader_def UserFS_new_def Hosts_at_def sessions_ok_def session_ok_def)
  from other_file_leaks_session [OF table_libssh_documented reader(4,1,2) _ live(2) reader(3) _ rd d] live(1,3)
  have "st_sessions (fst w'') 0 \<noteq> None" by simp
  with rd d show ?thesis by blast
qed

end
