(* ===== verification/Spec2Isabelle.thy ===== *)
theory Spec2Isabelle
  imports Gsfs_Main Lost_Slave Slave_Stream Fuse_Threads End_To_End Teardown
begin

text \<open>
  \<^bold>\<open>Group-Share Filesystem: a verification library.\<close>

  \<^bold>\<open>The program.\<close> Each member of a group shares a directory. One member is the master; the others,
  slaves, connect to it over TCP. The master keeps the merged directory tree and the vector of hosts
  and sends both to every slave whenever a slave joins or leaves. Each member mounts the merged tree
  with FUSE; metadata is answered from the local copy of the tree, and the octets of a file are read
  from the local disk or, over SFTP, from the host whose id the node of the file carries.

  \<^bold>\<open>The theories\<close>, in the order of their imports, and the files under \<^verbatim>\<open>src/src/\<close> they model:

  \<^item> \<open>Gsfs_Prelude\<close>: types, crashes as values (\<open>crash\<close>, \<open>'a result\<close>), pointers into buffers,
    collections of facts, general lemmas.
  \<^item> \<open>Bytes_Order\<close>: \<^verbatim>\<open>bytes_order.h\<close>. Locale \<open>wire_num\<close>, interpreted for 16, 32 and 64 bits.
  \<^item> \<open>Archive\<close>: the text archive of Boost as a parameter; locale \<open>serializable\<close>; one concrete archive.
  \<^item> \<open>Dir_Tree\<close>: \<^verbatim>\<open>dir_tree.h\<close>, \<^verbatim>\<open>dir_tree.cc\<close>. A node is a datatype with the fields of the
    class, a set of children is a list sorted by name; locale \<open>name_set\<close> is the contract of
    \<^verbatim>\<open>std::set\<close> as the code uses it.
  \<^item> \<open>Host\<close>: \<^verbatim>\<open>host.h\<close>.
  \<^item> \<open>Tcp_Messager\<close>: \<^verbatim>\<open>tcp_messager.h\<close> and the operations of \<^verbatim>\<open>tcp_messager.cc\<close> that stay inside
    a messager; locale \<open>send_queue\<close>, interpreted for both messagers.
  \<^item> \<open>Tcp_Manager\<close>: \<^verbatim>\<open>tcp_manager.h\<close>, and the steps the parsers of \<^verbatim>\<open>tcp_manager.cc\<close> are made of.
  \<^item> \<open>Libssh_Wrapper\<close>, \<open>Ssh_Manager\<close>: \<^verbatim>\<open>libssh_wrapper.h\<close>, \<^verbatim>\<open>libssh_wrapper.cc\<close>, \<^verbatim>\<open>ssh_manager.h\<close>. The
    library libssh is a record of functions on its own state; a pointer can be indeterminate.
  \<^item> \<open>User_Fs\<close>: \<^verbatim>\<open>user_fs.h\<close>, \<^verbatim>\<open>user_fs.cc\<close>. The record \<open>UserFS\<close> has the members of the class; each
    member function is a definition from state to state.
  \<^item> \<open>Master_Inv\<close>: the invariant of a master, and \<open>joined\<close> and \<open>left\<close>, the specifications of what
    \<^verbatim>\<open>newConnection\<close> and \<^verbatim>\<open>disconnect(handle)\<close> do.
  \<^item> \<open>Tcp_Callbacks\<close>: \<^verbatim>\<open>TCPManager::read\<close> and the completion handlers of \<^verbatim>\<open>tcp_messager.cc\<close>, which
    call back into \<^verbatim>\<open>UserFS\<close>; the events of the two kinds of nodes, and the polite events, under which a
    master keeps its invariant.
  \<^item> \<open>Group\<close>: a master, its slaves and channels that carry whole packets, as a transition system made
    of the handlers of the nodes; the lemmas on what a master tells its slaves.
  \<^item> \<open>Event_System\<close>: what holds of every system driven by events: runs, traces, and traces that avoid
    certain events. Locale \<open>event_system\<close> is the
    contract of an invariant under which no handler fails, \<open>settling_system\<close> extends it by a weight
    that the internal events use up, \<open>simulating_system\<close> by an abstraction under which every event
    is a step of a specification or invisible.
  \<^item> \<open>Network\<close>: the nodes and the octets between them. A link is a slave and both directions of its
    TCP connection; \<open>net_possible\<close> says which event can happen next, \<open>late\<close> which of them is a success that is
    reported after its socket was closed, \<open>net_enabled\<close> is \<open>net_possible\<close> without the late ones; \<open>net_handle\<close> runs the handlers of
    the nodes (\<open>master_handle\<close>, \<open>slave_handle\<close>) and moves the octets.
  \<^item> \<open>Network_Inv\<close>, \<open>Network_Master\<close>: the invariant of the network, kept by the events of the slaves
    and of the master; interpretation of \<open>event_system\<close>.
  \<^item> \<open>Network_Settle\<close>, \<open>Network_Effects\<close>: the weight and the interpretation of \<open>settling_system\<close>; what a
    network at rest looks like; what each kind of event changes of the metadata.
  \<^item> \<open>Network_Start\<close>: the start-up operations lead to a network; the properties of its runs.
  \<^item> \<open>Shared_Files\<close>: where the entries of the merged tree come from, and where a read goes.
  \<^item> \<open>Lost_Slave\<close>: slaves whose connection has failed.
  \<^item> \<open>Slave_Stream\<close>: the handlers of a slave over a stream, compared with reading packet by packet.
  \<^item> \<open>Group_Spec\<close>: what the group promises, without trees, messages and connections: members,
    what each contributes, hosts; joining and leaving as steps.
  \<^item> \<open>Network_Refinement\<close>: the abstraction of a network, interpretation of \<open>simulating_system\<close>; what is shared is seen.
  \<^item> \<open>Network_Hosts\<close>: the vector of hosts only grows, and what a slave knows is what the master
    knew at some earlier moment.
  \<^item> \<open>Fuse_Interface\<close>: \<^verbatim>\<open>fuse_interface.h\<close>, \<^verbatim>\<open>fuse_interface.cc\<close>.
  \<^item> \<open>Sftp_Service\<close>: the sessions of \<open>Libssh_Wrapper\<close> and \<open>Ssh_Manager\<close> on a library that does what its
    documentation says; one such library.
  \<^item> \<open>Mounted\<close>: the network together with the reads its nodes serve between its events.
  \<^item> \<open>End_To_End\<close>: the properties that go through all components.
  \<^item> \<open>Post_View\<close>: the handlers do not depend on the closures that are posted. Locale \<open>post_view\<close>, interpreted for the closures
    without the stops and for more closures in front.
  \<^item> \<open>Shutdown\<close>: the network when nodes are unmounted at any time, by the destructor of \<^verbatim>\<open>tcp_manager.h\<close>; a second interpretation of \<open>simulating_system\<close>.
  \<^item> \<open>Teardown\<close>: the destructors of \<^verbatim>\<open>user_fs.h\<close>, \<^verbatim>\<open>ssh_manager.h\<close> and \<^verbatim>\<open>libssh_wrapper.h\<close>, after any reads.
  \<^item> \<open>Node_Store\<close>: the nodes of a tree as objects with addresses, and the operations of \<^verbatim>\<open>dir_tree.cc\<close>
    on them, with what each creates and destroys.
  \<^item> \<open>Callback_Sections\<close>: which sections under the exclusive lock a handler of the network consists of.
  \<^item> \<open>Fuse_Threads\<close>: the FUSE operations as sequences of accesses to these objects, interleaved
    with the sections; locale \<open>undisturbed\<close>, interpreted for the calls that are not disturbed and for those on a master's own files.
  \<^item> \<open>Option_Parser\<close>: \<^verbatim>\<open>option_parser.h\<close>, \<^verbatim>\<open>option_parser.cc\<close>.
  \<^item> \<open>Gsfs_Main\<close>: \<^verbatim>\<open>gsfs.cc\<close>.

  \<^bold>\<open>How state and effects are modelled.\<close> A definition that changes state takes the state last and
  returns it. Undefined behaviour, uncaught exceptions and failed assertions are \<open>Inl\<close> values; a
  function that is \<open>Inr\<close> on an input runs on it without any of them. Lists that grow at the front
  (\<^verbatim>\<open>_connections\<close>) are kept oldest first, so that an iterator is an index. Asynchronous operations
  that have been started are flags of the state, closures that have been posted are a list, and what
  the network or the resolver answers is in the events. Functions of Boost, libssh, the file system
  and the clock are arguments.

  \<^bold>\<open>What is shown.\<close>
  \<^item> Data: merging, removing by host, marking, finding and serializing trees (\<open>Dir_Tree\<close>), hosts
    (\<open>Host\<close>), integers on the wire (\<open>Bytes_Order\<close>), packets on the stream and first-in first-out
    queues (\<open>Tcp_Messager\<close>).
  \<^item> Starting: scanning yields exactly the entries of the shared directory (\<open>User_Fs\<close>); \<^verbatim>\<open>main\<close> of
    a master mounts a state that satisfies the invariant, \<^verbatim>\<open>main\<close> of a slave waits and then mounts
    the tree of the master, or its own if there is no master (\<open>Gsfs_Main\<close>).
  \<^item> Running: the invariant of a master holds after any interleaving of handlers for polite events: no hello on a
    connection that has a slave or is closed, or when the ids are used up (\<open>Tcp_Callbacks\<close>);
    joining and leaving implement their specifications and post the messages (\<open>Master_Inv\<close>); the
    octets of a hello packet lead to the join and the messages of the master make a slave's view the
    master's (\<open>Tcp_Callbacks\<close>).
  \<^item> The group, octet by octet, with slaves that arrive, writes that reach the stream in pieces and
    failures at any time (\<open>Network_Start\<close>): no event crashes a node, short of late events; in runs without them a recognised slave agrees with the
    master, or the octets under way to it end with an update that has the master's tree and hosts;
    without failures the events end, and then every slave that is connected is recognised and agrees.
    The same at the level of packets is in \<open>Group\<close>.
  \<^item> The files (\<open>Shared_Files\<close>): every node of the merged tree comes from the scan of the member that
    its host id names. Conversely everything that the master or a recognised slave has scanned is in the tree, names that
    clash excepted, and the network implements the specification of the group (\<open>Network_Refinement\<close>). A slave that has lost its
    connection shows nothing of the others, until a late event brings them back (\<open>Lost_Slave\<close>).
  \<^item> End to end: in a network at rest all connected nodes give the same answers, and an entry of a shared
    directory is found at all of them with its data (\<open>End_To_End\<close>); a read returns octets of the file of the member that
    shares it, whatever was read before and wherever (\<open>Sftp_Service\<close>, \<open>Mounted\<close>). At any time, at rest or not, every node of a mounted tree
    has its host in the vector of hosts, so that a read stays within bounds (\<open>End_To_End\<close>).
  \<^item> Unmounting: a node can go at any time without a crash, short of late events, and the others run on as in a network without unmounting; its thread ends
    after the closures that wait (\<open>Shutdown\<close>); its SSH sessions are closed, unless one was never connected, and those that a
    read of another file left behind (\<open>Teardown\<close>).
  \<^item> Concurrency: the operations on trees do on objects with addresses what they do on trees, and destroy
    exactly what they should (\<open>Node_Store\<close>); a FUSE operation beside the network thread is atomic if its
    node stays, and those on a master's own files, \<^verbatim>\<open>readdir\<close> of the root excepted, never meet a destroyed node while the
    ids last (\<open>Fuse_Threads\<close>).
  \<^item> Serving: attributes, listing, opening and reading (\<open>Fuse_Interface\<close>), local and remote reads
    (\<open>User_Fs\<close>), life of an SSH session (\<open>Libssh_Wrapper\<close>).
  \<^item> Where the code does not do what it means to: the properties of kind error, each with the
    situation in which it happens.

  \<^bold>\<open>Bounds.\<close> Lengths on the wire are assumed below 2 to the 48: for larger numbers the 64-bit decoder
  is wrong (\<open>wire64_roundtrip_iff\<close>). Host ids are assumed not to wrap around at 2 to the 64,
  and in \<open>Group\<close> and \<open>Network\<close> to stay below 2 to the 48 as well (\<open>fits\<close>, \<open>net_bounds\<close>). All
  recursions terminate: over lists and trees structurally, \<open>TreeNode_load\<close>, \<open>receive_loop\<close> and \<open>slave_drive\<close> by the
  size of their input. The only fuel is in the reader of the example archive, where it is the length
  of the text.

  \<^bold>\<open>Hypotheses on code outside the repository.\<close> \<open>archive_lossless\<close>: reading an archive gives back
  what was written to it; \<open>tagged_archive\<close> has it. Of Boost.Asio and TCP, \<open>Network\<close> assumes what
  \<open>net_possible\<close> says: operations complete only when they were started, reads that succeed have got what they
  asked for from the front of the stream, writes that succeed have put everything on it, in order and without
  loss. Boost.Asio can report a success that was queued before its socket was closed, a late event. Runs
  (\<open>net_run\<close>, \<open>closing_run\<close>) are without late events, so whatever is said of the runs of a network is said of these. Where the
  conclusion is known to fail otherwise the statement is on traces, which may have late events, with the hypothesis \<open>avoids late\<close>:
  that no node crashes, that unmounting is invisible, that a lost slave is alone. What the write
  handler of the master does on a late event is one of the properties of kind error, what the body handler of a slave does is
  \<open>late_update_shows_others\<close>. \<open>libssh_documented\<close>: what the functions of libssh do to its sessions, channels and open files; \<open>table_libssh\<close> has it.
  Only the statements on what a remote read returns use it; when the functions of libssh succeed is left open everywhere. Nothing is assumed of the resolver or
  the file system, except that the files that are read do not change meanwhile.

  \<^bold>\<open>Not modelled.\<close> The texts printed to the console. Allocations that fail: a size that no vector or string can have throws here
  too, but no smaller one fails. A file type outside the enumeration in an archive counts as a failure of the archive. Two writes at once on a connection that was
  closed and written to again are one flag. The addresses of destroyed nodes are not used again (\<open>Node_Store\<close>). Accesses of two threads that overlap in time: the
  shared and exclusive sections are atomic steps here, and the few accesses without a lock, to the nodes that
  \<^verbatim>\<open>find\<close> returned and to the vector of hosts in \<^verbatim>\<open>UserFS::read\<close>, happen between them; races in the sense of
  the C++ memory model have no semantics. The memory that the destructors free, and the
  destructors at the end of a \<^verbatim>\<open>main\<close> that has not mounted anything. A run of \<open>Network\<close> begins when the master has come through \<^verbatim>\<open>initTCPNetwork\<close>; what a slave can do to a
  master that is still in it is one of the properties of kind error. In \<open>Mounted\<close> a read is one step; \<open>Fuse_Threads\<close> has its interleaving with
  the network thread, and two reads from one SSH session at the same time, which FUSE allows, mix their offsets: one of the
  properties of kind error (\<open>Sftp_Service\<close>). Forwarding functions of the
  messagers and the manager are definitions that the simplifier unfolds. Header lines that only
  declare what is defined elsewhere have no definition of their own.
\<close>

end
